(* ===== verification/Prelude.thy ===== *)
theory Prelude
  imports Main "HOL-Library.Word"
begin

text \<open>
  Shared vocabulary of the async_simple development.

  \<^item> The values that C++ code raises: exceptions (\<open>exc\<close>) and the three ways a call can go
    wrong (\<open>failure\<close>): it throws, an \<open>assert\<close> of the library fails, or the behaviour is
    undefined (a null or dangling pointer is used).
  \<^item> Reachability of a step relation, and the two interfaces every concurrent component of the
    library is verified through: an inductive invariant (\<open>inv_system\<close>) and a step measure
    (\<open>bounded_system\<close>).  A third one (\<open>simulation\<close>) is functional refinement of a detailed
    step relation by an abstract one.
  \<^item> List and word facts used by several components.
\<close>

section \<open>Failures of C++ code\<close>

datatype exc =
    Logic_error string
  | Runtime_error string
  | Signal_exception "64 word" string
  | Bad_function_call
  | User_exc nat

text \<open>
  \<open>catch (std::exception&)\<close> catches the standard exceptions and \<open>SignalException\<close>
  (a \<open>std::runtime_error\<close>), but not a thrown object of a foreign class.
\<close>

fun is_std_exception :: "exc \<Rightarrow> bool" where
  "is_std_exception (User_exc _) = False"
| "is_std_exception _ = True"

datatype failure =
    Throws exc
  | Assert_fail string
  | Undefined string

type_synonym 'a result = "failure + 'a"

abbreviation ok :: "'a \<Rightarrow> 'a result" where
  "ok \<equiv> Inr"

abbreviation throw :: "exc \<Rightarrow> 'a result" where
  "throw e \<equiv> Inl (Throws e)"

definition logicAssert :: "bool \<Rightarrow> string \<Rightarrow> unit result" where
  "logicAssert x msg = (if x then ok () else throw (Logic_error msg))"

text \<open>
  A stateful call returns a result and the state it leaves behind; a failing call keeps what it
  wrote before failing.  \<open>bind_st\<close> sequences two calls, \<open>lift_st\<close> runs one that needs no state.
\<close>

type_synonym ('s, 'a) call = "'a result \<times> 's"

definition bind_st :: "('s, 'a) call \<Rightarrow> ('a \<Rightarrow> 's \<Rightarrow> ('s, 'b) call) \<Rightarrow> ('s, 'b) call" where
  "bind_st p f = (case p of (Inl e, s) \<Rightarrow> (Inl e, s) | (Inr a, s) \<Rightarrow> f a s)"

definition lift_st :: "'a result \<Rightarrow> 's \<Rightarrow> ('s, 'a) call" where
  "lift_st r s = (r, s)"

lemma bind_st_simps [simp]:
  "bind_st (Inl e, s) f = (Inl e, s)"
  "bind_st (Inr a, s) f = f a s"
  by (simp_all add: bind_st_def)

lemma lift_logicAssert [simp]:
  "bind_st (lift_st (logicAssert x msg) s) f =
     (if x then f () s else (throw (Logic_error msg), s))"
  by (simp add: lift_st_def logicAssert_def)

section \<open>Reachable states\<close>

inductive reach :: "('s \<Rightarrow> bool) \<Rightarrow> ('s \<Rightarrow> 's \<Rightarrow> bool) \<Rightarrow> 's \<Rightarrow> bool"
  for init :: "'s \<Rightarrow> bool" and step :: "'s \<Rightarrow> 's \<Rightarrow> bool" where
  reach_init: "init s \<Longrightarrow> reach init step s"
| reach_step: "reach init step s \<Longrightarrow> step s t \<Longrightarrow> reach init step t"

fun steps :: "('s \<Rightarrow> 's \<Rightarrow> bool) \<Rightarrow> nat \<Rightarrow> 's \<Rightarrow> 's \<Rightarrow> bool" where
  "steps step 0 s t = (s = t)"
| "steps step (Suc n) s t = (\<exists>u. step s u \<and> steps step n u t)"

lemma reach_steps: "reach init step s \<Longrightarrow> steps step n s t \<Longrightarrow> reach init step t"
  by (induction n arbitrary: s) (auto intro: reach.reach_step)

lemma steps_append: "steps step m s t \<Longrightarrow> steps step n t u \<Longrightarrow> steps step (m + n) s u"
  by (induction m arbitrary: s) auto

locale inv_system =
  fixes init :: "'s \<Rightarrow> bool"
    and step :: "'s \<Rightarrow> 's \<Rightarrow> bool"
    and inv :: "'s \<Rightarrow> bool"
  assumes init_inv: "init s \<Longrightarrow> inv s"
    and step_inv: "inv s \<Longrightarrow> step s t \<Longrightarrow> inv t"
begin

lemma reach_inv: "reach init step s \<Longrightarrow> inv s"
  by (induction rule: reach.induct) (auto intro: init_inv step_inv)

lemma steps_inv: "inv s \<Longrightarrow> steps step n s t \<Longrightarrow> inv t"
  by (induction n arbitrary: s) (auto intro: step_inv)

end

locale bounded_system = inv_system +
  fixes rank :: "'s \<Rightarrow> nat"
  assumes rank_step: "inv s \<Longrightarrow> step s t \<Longrightarrow> rank t < rank s"
begin

lemma steps_bound: "inv s \<Longrightarrow> steps step n s t \<Longrightarrow> n + rank t \<le> rank s"
proof (induction n arbitrary: s)
  case 0
  then show ?case by simp
next
  case (Suc n)
  then obtain u where u: "step s u" "steps step n u t" by auto
  with Suc.prems(1) have "inv u" by (blast intro: step_inv)
  with u Suc.IH have "n + rank t \<le> rank u" by blast
  moreover have "rank u < rank s" using Suc.prems(1) u(1) by (rule rank_step)
  ultimately show ?case by simp
qed

lemma run_to_end:
  "inv s \<Longrightarrow> \<exists>n t. steps step n s t \<and> (\<forall>u. \<not> step t u)"
proof (induction "rank s" arbitrary: s rule: less_induct)
  case less
  show ?case
  proof (cases "\<exists>u. step s u")
    case True
    then obtain u where u: "step s u" by blast
    with less.prems have "inv u" "rank u < rank s" by (blast intro: step_inv rank_step)+
    with less.hyps obtain n t where "steps step n u t" "\<forall>w. \<not> step t w" by blast
    with u have "steps step (Suc n) s t \<and> (\<forall>w. \<not> step t w)" by auto
    then show ?thesis by blast
  next
    case False
    then have "steps step 0 s s \<and> (\<forall>u. \<not> step s u)" by simp
    then show ?thesis by blast
  qed
qed

end

locale simulation =
  fixes cinit :: "'c \<Rightarrow> bool" and cstep :: "'c \<Rightarrow> 'c \<Rightarrow> bool"
    and ainit :: "'a \<Rightarrow> bool" and astep :: "'a \<Rightarrow> 'a \<Rightarrow> bool"
    and abs :: "'c \<Rightarrow> 'a" and cinv :: "'c \<Rightarrow> bool"
  assumes sim_init: "cinit s \<Longrightarrow> cinv s \<and> ainit (abs s)"
    and sim_step: "cinv s \<Longrightarrow> cstep s t \<Longrightarrow> cinv t \<and> (abs t = abs s \<or> astep (abs s) (abs t))"
begin

lemma reach_abs: "reach cinit cstep s \<Longrightarrow> cinv s \<and> reach ainit astep (abs s)"
proof (induction rule: reach.induct)
  case (reach_init s)
  then show ?case using sim_init by (auto intro: reach.reach_init)
next
  case (reach_step s t)
  then show ?case using sim_step[of s t] by (auto intro: reach.reach_step)
qed

end

section \<open>Lists and words\<close>

lemma nth_list_update_cases:
  "i < length xs \<Longrightarrow> xs[j := x] ! i = (if i = j then x else xs ! i)"
  by simp

lemma filter_upt_single: "filter (\<lambda>k. k = i) [0..<n] = (if i < n then [i] else [])"
  by (induction n) auto

text \<open>Counting the elements of a list with a property, and what an update changes.\<close>

definition cnt :: "('a \<Rightarrow> bool) \<Rightarrow> 'a list \<Rightarrow> nat" where
  "cnt P xs = length (filter P xs)"

lemma cnt_update:
  "i < length xs \<Longrightarrow> cnt P (xs[i := x]) + (if P (xs ! i) then 1 else 0) = cnt P xs + (if P x then 1 else 0)"
proof (induction xs arbitrary: i)
  case Nil
  then show ?case by simp
next
  case (Cons y ys)
  then show ?case by (cases i) (auto simp: cnt_def)
qed

lemma cnt_le: "cnt P xs \<le> length xs"
  by (simp add: cnt_def)

lemma cnt_full: "cnt P xs = length xs \<longleftrightarrow> (\<forall>x \<in> set xs. P x)"
  by (induction xs) (auto simp: cnt_def le_imp_less_Suc[OF length_filter_le] nat_neq_iff)

lemma cnt_0: "cnt P xs = 0 \<longleftrightarrow> (\<forall>x \<in> set xs. \<not> P x)"
  by (simp add: cnt_def filter_empty_conv)

lemma cnt_pos: "i < length xs \<Longrightarrow> P (xs ! i) \<Longrightarrow> 0 < cnt P xs"
  by (metis cnt_0 nth_mem gr0I)

lemma cnt_unique:
  assumes "cnt P xs \<le> 1" and "i < length xs" and "j < length xs" and "P (xs ! i)" and "P (xs ! j)"
  shows "i = j"
proof (rule ccontr)
  assume "i \<noteq> j"
  then have "{i, j} \<subseteq> {k. k < length xs \<and> P (xs ! k)}" "card {i, j} = 2" using assms by auto
  then have "2 \<le> card {k. k < length xs \<and> P (xs ! k)}"
    using card_mono[of "{k. k < length xs \<and> P (xs ! k)}" "{i, j}"] by simp
  then show False using assms(1) by (simp add: cnt_def length_filter_conv_card)
qed

lemma cnt_replicate: "cnt P (replicate n x) = (if P x then n else 0)"
  by (simp add: cnt_def)

lemma sum_list_update_nat:
  fixes xs :: "nat list"
  shows "i < length xs \<Longrightarrow> sum_list (xs[i := x]) + xs ! i = sum_list xs + x"
proof (induction xs arbitrary: i)
  case Nil
  then show ?case by simp
next
  case (Cons y ys)
  then show ?case by (cases i) (auto simp: add_ac)
qed

lemma unat_word_dec: "(w :: 'a::len word) \<noteq> 0 \<Longrightarrow> unat (w - 1) = unat w - 1"
  by (simp add: unat_minus_one)

lemma unat_word_inc: "unat (w :: 'a::len word) + 1 < 2 ^ LENGTH('a) \<Longrightarrow> unat (w + 1) = unat w + 1"
  by (simp add: unat_word_ariths)

lemma word_eq_of_nat: "n < 2 ^ 64 \<Longrightarrow> w = (of_nat n :: 64 word) \<longleftrightarrow> unat w = n"
  by (auto simp: unat_of_nat take_bit_nat_eq_self)

lemma word_eq_1: "w = (1 :: 64 word) \<longleftrightarrow> unat w = 1"
  by (metis unat_1 word_unat_eq_iff)

end
