(* ===== verification/Try_Model.thy ===== *)
theory Try_Model
  imports Prelude
begin

text \<open>
  \<open>Try<T>\<close>, \<open>Try<void>\<close>, \<open>makeTryCall\<close> (async_simple/Try.h) and the inline state of a ready
  future, \<open>LocalState\<close> (async_simple/LocalState.h).

  \<open>Try<T>\<close> is the variant of \<open>std::monostate\<close>, a value and an \<open>exception_ptr\<close>: a datatype with
  those three alternatives.  \<open>Try<void>\<close> keeps only a possibly null \<open>exception_ptr\<close>, so it cannot
  tell "nothing" from "a value".
\<close>

section \<open>Try\<close>

datatype 'a Try_t = Nothing | Value 'a | Exception exc

record Try_void =
  error_ptr :: "exc option"

fun available :: "'a Try_t \<Rightarrow> bool" where
  "available Nothing = False"
| "available _ = True"

fun hasError :: "'a Try_t \<Rightarrow> bool" where
  "hasError (Exception _) = True"
| "hasError _ = False"

fun checkHasTry :: "'a Try_t \<Rightarrow> unit result" where
  "checkHasTry (Value _) = ok ()"
| "checkHasTry (Exception e) = throw e"
| "checkHasTry Nothing = throw (Logic_error ''Try object is empty'')"

definition std_get :: "'a Try_t \<Rightarrow> 'a result" where
  "std_get t = (case t of Value v \<Rightarrow> ok v | _ \<Rightarrow> Inl (Undefined ''bad_variant_access''))"

definition try_value_of :: "'a Try_t \<Rightarrow> 'a result" where
  "try_value_of t = (case checkHasTry t of Inl f \<Rightarrow> Inl f | Inr _ \<Rightarrow> std_get t)"

definition try_emplace :: "'a \<Rightarrow> 'a Try_t \<Rightarrow> 'a Try_t" where
  "try_emplace v t = Value v"

definition setException_try :: "exc \<Rightarrow> 'a Try_t \<Rightarrow> 'a Try_t" where
  "setException_try e t = (if t = Exception e then t else Exception e)"

definition assign_exception :: "'a Try_t \<Rightarrow> exc \<Rightarrow> 'a Try_t" where
  "assign_exception t e = (if t = Exception e then t else Exception e)"

definition getException :: "'a Try_t \<Rightarrow> exc result" where
  "getException t =
     (case logicAssert (hasError t) ''Try object do not has an error'' of
        Inl f \<Rightarrow> Inl f
      | Inr _ \<Rightarrow> (case t of Exception e \<Rightarrow> ok e | _ \<Rightarrow> Inl (Undefined ''bad_variant_access'')))"

section \<open>Try of void, and the conversions\<close>

definition void_value :: "Try_void \<Rightarrow> unit result" where
  "void_value t = (case error_ptr t of Some e \<Rightarrow> throw e | None \<Rightarrow> ok ())"

definition void_hasError :: "Try_void \<Rightarrow> bool" where
  "void_hasError t = (error_ptr t \<noteq> None)"

definition void_setException :: "exc option \<Rightarrow> Try_void \<Rightarrow> Try_void" where
  "void_setException e t = t\<lparr>error_ptr := e\<rparr>"

definition void_getException :: "Try_void \<Rightarrow> exc option" where
  "void_getException t = error_ptr t"

text \<open>The move assignment swaps the two error pointers.\<close>

definition void_move_assign :: "Try_void \<Rightarrow> Try_void \<Rightarrow> Try_void \<times> Try_void" where
  "void_move_assign self other =
     (self\<lparr>error_ptr := error_ptr other\<rparr>, other\<lparr>error_ptr := error_ptr self\<rparr>)"

definition to_void :: "'a Try_t \<Rightarrow> Try_void result" where
  "to_void t =
     (if hasError t
      then (case getException t of Inl f \<Rightarrow> Inl f | Inr e \<Rightarrow> ok \<lparr>error_ptr = Some e\<rparr>)
      else ok \<lparr>error_ptr = None\<rparr>)"

definition unit_of_void :: "Try_void \<Rightarrow> unit Try_t" where
  "unit_of_void t = (case error_ptr t of Some e \<Rightarrow> Exception e | None \<Rightarrow> Value ())"

text \<open>A callable is a function that returns or throws; \<open>makeTryCall\<close> catches everything.\<close>

definition makeTryCall :: "('b \<Rightarrow> exc + 'a) \<Rightarrow> 'b \<Rightarrow> 'a Try_t" where
  "makeTryCall f x = (case f x of Inl e \<Rightarrow> Exception e | Inr v \<Rightarrow> Value v)"

definition makeTryCall_void :: "('b \<Rightarrow> exc + unit) \<Rightarrow> 'b \<Rightarrow> Try_void" where
  "makeTryCall_void f x = (case f x of Inl e \<Rightarrow> \<lparr>error_ptr = Some e\<rparr> | Inr _ \<Rightarrow> \<lparr>error_ptr = None\<rparr>)"

section \<open>LocalState: the state of a ready future\<close>

record 'v LocalState =
  ls_try_value :: "'v Try_t"
  ls_executor :: "nat option"

definition ls_empty :: "'v LocalState" where
  "ls_empty = \<lparr>ls_try_value = Nothing, ls_executor = None\<rparr>"

definition ls_of_try :: "'v Try_t \<Rightarrow> 'v LocalState" where
  "ls_of_try t = \<lparr>ls_try_value = t, ls_executor = None\<rparr>"

definition ls_hasResult :: "'v LocalState \<Rightarrow> bool" where
  "ls_hasResult s = available (ls_try_value s)"

definition ls_setExecutor :: "nat option \<Rightarrow> 'v LocalState \<Rightarrow> 'v LocalState" where
  "ls_setExecutor ex s = s\<lparr>ls_executor := ex\<rparr>"

text \<open>Move construction leaves the source without an executor; move assignment swaps.\<close>

definition ls_move :: "'v LocalState \<Rightarrow> 'v LocalState \<times> 'v LocalState" where
  "ls_move other = (other, other\<lparr>ls_executor := None\<rparr>)"

definition ls_move_assign :: "'v LocalState \<Rightarrow> 'v LocalState \<Rightarrow> 'v LocalState \<times> 'v LocalState" where
  "ls_move_assign self other = (other, self)"

definition ls_currentThreadInExecutor :: "(nat \<Rightarrow> bool) \<Rightarrow> 'v LocalState \<Rightarrow> bool" where
  "ls_currentThreadInExecutor inex s = (case ls_executor s of None \<Rightarrow> False | Some ex \<Rightarrow> inex ex)"

definition ls_setContinuation :: "('v Try_t \<Rightarrow> 'r) \<Rightarrow> 'v LocalState \<Rightarrow> 'r result" where
  "ls_setContinuation f s =
     (if available (ls_try_value s) then ok (f (ls_try_value s))
      else Inl (Assert_fail ''_try_value.available()''))"

section \<open>Properties\<close>

lemma getException_iff [simp]: "getException t = ok e \<longleftrightarrow> t = Exception e"
  by (cases t) (auto simp: getException_def logicAssert_def)

lemma getException_Exception [simp]: "getException (Exception e) = ok e"
  by simp

lemma try_value_cases:
  "try_value_of t =
     (case t of Value v \<Rightarrow> ok v | Exception e \<Rightarrow> throw e
      | Nothing \<Rightarrow> throw (Logic_error ''Try object is empty''))"
  by (cases t) (auto simp: try_value_of_def std_get_def)

lemma setException_idem [simp]: "setException_try e t = Exception e"
  by (simp add: setException_try_def)

text \<open>
  Calling a function through \<open>makeTryCall\<close> and reading the \<open>Try\<close> back with \<open>value()\<close> is the
  call itself: the returned value comes back, and a thrown exception is rethrown unchanged; the
  \<open>Try\<close> is always available and has an error exactly when the call threw.
\<close>

theorem makeTryCall_value:
  "try_value_of (makeTryCall f x) = (case f x of Inl e \<Rightarrow> throw e | Inr v \<Rightarrow> ok v)
   \<and> available (makeTryCall f x)
   \<and> (hasError (makeTryCall f x) \<longleftrightarrow> (\<exists>e. f x = Inl e))"
  by (cases "f x") (simp_all add: makeTryCall_def try_value_cases)

text \<open>
  Converting a \<open>Try<Unit>\<close> to \<open>Try<void>\<close> never fails, and converting it back gives the same
  \<open>Try\<close>, except that an empty \<open>Try<Unit>\<close> comes back holding a value: \<open>Try<void>\<close> cannot represent
  the empty state.
\<close>

theorem try_void_roundtrip:
  "\<exists>v. to_void (t :: unit Try_t) = ok v
     \<and> unit_of_void v = (if t = Nothing then Value () else t)
     \<and> void_hasError v = hasError t"
  by (cases t) (auto simp: to_void_def unit_of_void_def void_hasError_def)

end
