(* ===== verification/FutureState_Model.thy ===== *)
theory FutureState_Model
  imports Try_Model
begin

text \<open>
  The state shared by a future and its promises (async_simple/FutureState.h).

  The record \<open>FutureState\<close> holds the fields of the class; \<open>deleted\<close>, \<open>ran\<close> and \<open>tasks\<close> observe what
  the code does (\<open>delete this\<close>, the continuation calls, the closures an executor still owns).
  Every function below is one member function.  \<open>producer_step\<close> and \<open>consumer_step\<close> split
  \<open>setResult\<close> and \<open>setContinuation\<close> into their atomic accesses, so that the two can interleave;
  \<open>fs_trans\<close> is the interleaving of one producer, one consumer and the executor that runs a closure.
  Memory is sequentially consistent; an executor is a parameter that answers each call.
\<close>

unbundle bit_operations_syntax

section \<open>State codes\<close>

datatype State = START | ONLY_RESULT | ONLY_CONTINUATION | DONE

fun state_code :: "State \<Rightarrow> 8 word" where
  "state_code START = 0"
| "state_code ONLY_RESULT = push_bit 0 1"
| "state_code ONLY_CONTINUATION = push_bit 1 1"
| "state_code DONE = push_bit 5 1"

definition state_or :: "8 word \<Rightarrow> 8 word \<Rightarrow> 8 word" where
  "state_or lhs rhs = (lhs OR rhs)"

definition state_and :: "8 word \<Rightarrow> 8 word \<Rightarrow> 8 word" where
  "state_and lhs rhs = (lhs AND rhs)"

section \<open>The shared state\<close>

record ('v, 'k) FutureState =
  fs_state :: State
  attached :: "8 word"
  continuationRef :: "8 word"
  try_value :: "'v Try_t"
  continuation :: "'k option"
  executor :: "nat option"
  ctx :: "64 word"
  promiseRef :: "64 word"
  forceSched :: bool
  deleted :: bool
  ran :: "('k \<times> 'v Try_t) list"
  tasks :: nat

abbreviation NULLCTX :: "64 word" where
  "NULLCTX \<equiv> 0"

definition FutureState_new :: "('v, 'k) FutureState" where
  "FutureState_new =
     \<lparr>fs_state = START, attached = 0, continuationRef = 0, try_value = Nothing,
      continuation = None, executor = None, ctx = NULLCTX, promiseRef = 0, forceSched = False,
      deleted = False, ran = [], tasks = 0\<rparr>"

definition hasResult :: "('v, 'k) FutureState \<Rightarrow> bool" where
  "hasResult s =
     (state_and (state_code (fs_state s)) (state_or (state_code DONE) (state_code ONLY_RESULT)) \<noteq> 0)"

definition hasContinuation :: "('v, 'k) FutureState \<Rightarrow> bool" where
  "hasContinuation s =
     (state_and (state_code (fs_state s))
        (state_or (state_code DONE) (state_code ONLY_CONTINUATION)) \<noteq> 0)"

definition attachOne :: "('v, 'k) FutureState \<Rightarrow> ('v, 'k) FutureState" where
  "attachOne s = s\<lparr>attached := attached s + 1\<rparr>"

definition detachOne :: "('v, 'k) FutureState \<Rightarrow> (('v, 'k) FutureState, unit) call" where
  "detachOne s =
     (if deleted s then (Inl (Undefined ''FutureState used after delete''), s)
      else let old = attached s; s1 = s\<lparr>attached := old - 1\<rparr>
           in if old < 1 then (Inl (Assert_fail ''old >= 1u''), s1)
              else if old = 1 then (ok (), s1\<lparr>deleted := True\<rparr>)
              else (ok (), s1))"

definition attachPromise :: "('v, 'k) FutureState \<Rightarrow> ('v, 'k) FutureState" where
  "attachPromise s = attachOne (s\<lparr>promiseRef := promiseRef s + 1\<rparr>)"

definition setExecutor :: "nat option \<Rightarrow> ('v, 'k) FutureState \<Rightarrow> ('v, 'k) FutureState" where
  "setExecutor ex s = s\<lparr>executor := ex\<rparr>"

text \<open>\<open>checkout\<close> asks the executor for its context; the answer \<open>c\<close> is the executor's.\<close>

definition fs_checkout :: "64 word \<Rightarrow> ('v, 'k) FutureState \<Rightarrow> ('v, 'k) FutureState" where
  "fs_checkout c s = (case executor s of None \<Rightarrow> s | Some _ \<Rightarrow> s\<lparr>ctx := c\<rparr>)"

definition setForceSched :: "bool \<Rightarrow> ('v, 'k) FutureState \<Rightarrow> ('v, 'k) FutureState" where
  "setForceSched force s =
     (if executor s = None \<and> force then s else s\<lparr>forceSched := force\<rparr>)"

section \<open>Executors as seen by the shared state\<close>

datatype sched_call = Schedule | Checkin "64 word" bool

datatype sched_answer = Accepted | Refused | Threw exc

record exec_env =
  in_executor :: bool
  answer :: "sched_call \<Rightarrow> sched_answer"

definition fs_currentThreadInExecutor :: "exec_env \<Rightarrow> ('v, 'k) FutureState \<Rightarrow> bool" where
  "fs_currentThreadInExecutor env s = (case executor s of None \<Rightarrow> False | Some _ \<Rightarrow> in_executor env)"

section \<open>Continuation references\<close>

definition refContinuation :: "('v, 'k) FutureState \<Rightarrow> ('v, 'k) FutureState" where
  "refContinuation s = s\<lparr>continuationRef := continuationRef s + 1\<rparr>"

definition derefContinuation :: "('v, 'k) FutureState \<Rightarrow> (('v, 'k) FutureState, unit) call" where
  "derefContinuation s =
     (let old = continuationRef s; s1 = s\<lparr>continuationRef := old - 1\<rparr>
      in if old < 1 then (Inl (Assert_fail ''old >= 1''), s1)
         else if old = 1 then (ok (), s1\<lparr>continuation := None\<rparr>)
         else (ok (), s1))"

definition contref_attach :: "('v, 'k) FutureState \<Rightarrow> ('v, 'k) FutureState" where
  "contref_attach s = refContinuation (attachOne s)"

definition contref_detach :: "('v, 'k) FutureState \<Rightarrow> (('v, 'k) FutureState, unit) call" where
  "contref_detach s = bind_st (derefContinuation s) (\<lambda>_. detachOne)"

definition run_continuation :: "('v, 'k) FutureState \<Rightarrow> (('v, 'k) FutureState, unit) call" where
  "run_continuation s =
     (case continuation s of
        None \<Rightarrow> (Inl (Undefined ''continuation is not constructed''), s)
      | Some k \<Rightarrow> (ok (), s\<lparr>ran := ran s @ [(k, try_value s)]\<rparr>))"

text \<open>
  \<open>scheduleContinuation\<close>.  In place: one reference guards the call.  Through the executor: one
  reference travels with the closure, a second one guards the exception path.  A refused or
  throwing executor destroys the closure (and its reference) and the call happens in place; an
  exception that is not a \<open>std::exception\<close> leaves with both references dropped.
\<close>

definition sched_target :: "('v, 'k) FutureState \<Rightarrow> sched_call" where
  "sched_target s = (if ctx s = NULLCTX then Schedule else Checkin (ctx s) (\<not> forceSched s))"

definition scheduleContinuation ::
  "exec_env \<Rightarrow> bool \<Rightarrow> ('v, 'k) FutureState \<Rightarrow> (('v, 'k) FutureState, unit) call" where
  "scheduleContinuation env triggerByContinuation s =
     (if fs_state s \<noteq> DONE then (throw (Logic_error ''FutureState is not DONE''), s)
      else if \<not> forceSched s \<and>
              (executor s = None \<or> triggerByContinuation \<or> fs_currentThreadInExecutor env s)
      then bind_st (run_continuation (contref_attach s)) (\<lambda>_. contref_detach)
      else let s2 = contref_attach (contref_attach s)
           in if executor s = None then (Inl (Undefined ''null executor''), s2)
              else case answer env (sched_target s) of
                     Accepted \<Rightarrow> contref_detach (s2\<lparr>tasks := tasks s2 + 1\<rparr>)
                   | Refused \<Rightarrow>
                       bind_st (contref_detach s2)
                         (\<lambda>_ s3. bind_st (run_continuation s3) (\<lambda>_. contref_detach))
                   | Threw e \<Rightarrow>
                       if is_std_exception e
                       then bind_st (contref_detach s2)
                              (\<lambda>_ s3. bind_st (run_continuation s3) (\<lambda>_. contref_detach))
                       else bind_st (contref_detach s2)
                              (\<lambda>_ s3. bind_st (contref_detach s3) (\<lambda>_ s4. (throw e, s4))))"

text \<open>The closure handed to the executor: it runs the continuation and drops its reference.\<close>

definition run_task :: "('v, 'k) FutureState \<Rightarrow> (('v, 'k) FutureState, unit) call" where
  "run_task s = bind_st (run_continuation (s\<lparr>tasks := tasks s - 1\<rparr>)) (\<lambda>_. contref_detach)"

section \<open>setResult and setContinuation, run without interference\<close>

text \<open>
  \<open>chk\<close> says whether the leading \<open>logicAssert\<close> of \<open>setResult\<close> is compiled in: it is left out for
  GCC 12 and later.
\<close>

definition setResult ::
  "bool \<Rightarrow> exec_env \<Rightarrow> 'v Try_t \<Rightarrow> ('v, 'k) FutureState \<Rightarrow> (('v, 'k) FutureState, unit) call" where
  "setResult chk env value s =
     (if chk \<and> hasResult s then (throw (Logic_error ''FutureState already has a result''), s)
      else let s1 = s\<lparr>try_value := value\<rparr>
           in case fs_state s1 of
                START \<Rightarrow> (ok (), s1\<lparr>fs_state := ONLY_RESULT\<rparr>)
              | ONLY_CONTINUATION \<Rightarrow> scheduleContinuation env False (s1\<lparr>fs_state := DONE\<rparr>)
              | _ \<Rightarrow> (throw (Logic_error ''State Transfer Error''), s1))"

definition setContinuation ::
  "exec_env \<Rightarrow> 'k \<Rightarrow> ('v, 'k) FutureState \<Rightarrow> (('v, 'k) FutureState, unit) call" where
  "setContinuation env func s =
     (if hasContinuation s
      then (throw (Logic_error ''FutureState already has a continuation''), s)
      else let s1 = s\<lparr>continuation := Some func\<rparr>
           in case fs_state s1 of
                START \<Rightarrow> (ok (), s1\<lparr>fs_state := ONLY_CONTINUATION\<rparr>)
              | ONLY_RESULT \<Rightarrow> scheduleContinuation env True (s1\<lparr>fs_state := DONE\<rparr>)
              | _ \<Rightarrow> (throw (Logic_error ''State Transfer Error''), s1))"

definition broken_promise :: exc where
  "broken_promise = Runtime_error ''Promise is broken''"

definition detachPromise ::
  "bool \<Rightarrow> exec_env \<Rightarrow> ('v, 'k) FutureState \<Rightarrow> (('v, 'k) FutureState, unit) call" where
  "detachPromise chk env s =
     (if deleted s then (Inl (Undefined ''FutureState used after delete''), s)
      else let old = promiseRef s; s1 = s\<lparr>promiseRef := old - 1\<rparr>
           in if old < 1 then (Inl (Assert_fail ''old >= 1u''), s1)
              else bind_st
                     (if \<not> hasResult s1 \<and> old = 1
                      then setResult chk env (Exception broken_promise) s1
                      else (ok (), s1))
                     (\<lambda>_. detachOne))"

section \<open>The atomic accesses of setResult and setContinuation\<close>

datatype rpc =
    R_entry
  | R_store
  | R_load
  | R_cas1
  | R_cas2 State
  | R_sched
  | R_end
  | R_fail failure

datatype cpc =
    C_entry
  | C_store
  | C_load
  | C_cas1
  | C_cas2 State
  | C_sched
  | C_end
  | C_fail failure

fun producer_step ::
  "bool \<Rightarrow> exec_env \<Rightarrow> 'v Try_t \<Rightarrow> rpc \<Rightarrow> ('v, 'k) FutureState \<Rightarrow>
     (rpc \<times> ('v, 'k) FutureState) option" where
  "producer_step chk env value R_entry s =
     Some (if chk \<and> hasResult s
           then (R_fail (Throws (Logic_error ''FutureState already has a result'')), s)
           else (R_store, s))"
| "producer_step chk env value R_store s = Some (R_load, s\<lparr>try_value := value\<rparr>)"
| "producer_step chk env value R_load s =
     Some (case fs_state s of
             START \<Rightarrow> (R_cas1, s)
           | ONLY_CONTINUATION \<Rightarrow> (R_cas2 ONLY_CONTINUATION, s)
           | _ \<Rightarrow> (R_fail (Throws (Logic_error ''State Transfer Error'')), s))"
| "producer_step chk env value R_cas1 s =
     Some (if fs_state s = START then (R_end, s\<lparr>fs_state := ONLY_RESULT\<rparr>)
           else (R_cas2 (fs_state s), s))"
| "producer_step chk env value (R_cas2 expected) s =
     Some (if fs_state s = expected then (R_sched, s\<lparr>fs_state := DONE\<rparr>)
           else (R_fail (Throws (Logic_error ''State Transfer Error'')), s))"
| "producer_step chk env value R_sched s =
     Some (case scheduleContinuation env False s of
             (Inr _, s') \<Rightarrow> (R_end, s') | (Inl f, s') \<Rightarrow> (R_fail f, s'))"
| "producer_step chk env value R_end s = None"
| "producer_step chk env value (R_fail f) s = None"

fun consumer_step ::
  "exec_env \<Rightarrow> 'k \<Rightarrow> cpc \<Rightarrow> ('v, 'k) FutureState \<Rightarrow>
     (cpc \<times> ('v, 'k) FutureState) option" where
  "consumer_step env func C_entry s =
     Some (if hasContinuation s
           then (C_fail (Throws (Logic_error ''FutureState already has a continuation'')), s)
           else (C_store, s))"
| "consumer_step env func C_store s = Some (C_load, s\<lparr>continuation := Some func\<rparr>)"
| "consumer_step env func C_load s =
     Some (case fs_state s of
             START \<Rightarrow> (C_cas1, s)
           | ONLY_RESULT \<Rightarrow> (C_cas2 ONLY_RESULT, s)
           | _ \<Rightarrow> (C_fail (Throws (Logic_error ''State Transfer Error'')), s))"
| "consumer_step env func C_cas1 s =
     Some (if fs_state s = START then (C_end, s\<lparr>fs_state := ONLY_CONTINUATION\<rparr>)
           else (C_cas2 (fs_state s), s))"
| "consumer_step env func (C_cas2 expected) s =
     Some (if fs_state s = expected then (C_sched, s\<lparr>fs_state := DONE\<rparr>)
           else (C_fail (Throws (Logic_error ''State Transfer Error'')), s))"
| "consumer_step env func C_sched s =
     Some (case scheduleContinuation env True s of
             (Inr _, s') \<Rightarrow> (C_end, s') | (Inl f, s') \<Rightarrow> (C_fail f, s'))"
| "consumer_step env func C_end s = None"
| "consumer_step env func (C_fail f) s = None"

text \<open>
  A system of one \<open>setResult\<close> call and one \<open>setContinuation\<close> call on the same state: the shared
  state, the two program points, and what stays fixed (the arguments of the two calls, the
  executor as each thread sees it, the compile-time check, and the state they started from).
\<close>

record ('v, 'k) fs_sys =
  shared :: "('v, 'k) FutureState"
  prod_pc :: rpc
  cons_pc :: cpc
  arg_value :: "'v Try_t"
  arg_func :: 'k
  prod_env :: exec_env
  cons_env :: exec_env
  checked :: bool
  start :: "('v, 'k) FutureState"

inductive fs_trans :: "('v, 'k) fs_sys \<Rightarrow> ('v, 'k) fs_sys \<Rightarrow> bool" where
  producer: "producer_step (checked s) (prod_env s) (arg_value s) (prod_pc s) (shared s) = Some (pc, sh) \<Longrightarrow>
     fs_trans s (s\<lparr>shared := sh, prod_pc := pc\<rparr>)"
| consumer: "consumer_step (cons_env s) (arg_func s) (cons_pc s) (shared s) = Some (pc, sh) \<Longrightarrow>
     fs_trans s (s\<lparr>shared := sh, cons_pc := pc\<rparr>)"
| executor_runs: "0 < tasks (shared s) \<Longrightarrow> run_task (shared s) = (Inr (), sh) \<Longrightarrow>
     fs_trans s (s\<lparr>shared := sh\<rparr>)"

inductive_simps fs_trans_iff: "fs_trans s t"

text \<open>
  A fresh state: nothing happened yet, somebody holds a reference, the 8-bit counters have room
  for the two references that scheduling takes, and an executor is set when scheduling is forced.
\<close>

definition fs_fresh :: "('v, 'k) FutureState \<Rightarrow> bool" where
  "fs_fresh s \<longleftrightarrow> fs_state s = START \<and> continuation s = None \<and> continuationRef s = 0
     \<and> ran s = [] \<and> tasks s = 0 \<and> \<not> deleted s
     \<and> 1 \<le> unat (attached s) \<and> unat (attached s) \<le> 253
     \<and> (forceSched s \<longrightarrow> executor s \<noteq> None)"

definition std_throws :: "exec_env \<Rightarrow> bool" where
  "std_throws env \<longleftrightarrow> (\<forall>c e. answer env c = Threw e \<longrightarrow> is_std_exception e)"

definition fs_init :: "('v, 'k) fs_sys \<Rightarrow> bool" where
  "fs_init s \<longleftrightarrow> shared s = start s \<and> fs_fresh (start s) \<and> prod_pc s = R_entry \<and> cons_pc s = C_entry
     \<and> std_throws (prod_env s) \<and> std_throws (cons_env s)"

section \<open>Flags and references\<close>

lemma hasResult_iff [simp]: "hasResult s \<longleftrightarrow> fs_state s = ONLY_RESULT \<or> fs_state s = DONE"
  by (cases "fs_state s") (simp_all add: hasResult_def state_and_def state_or_def)

lemma hasContinuation_iff [simp]:
  "hasContinuation s \<longleftrightarrow> fs_state s = ONLY_CONTINUATION \<or> fs_state s = DONE"
  by (cases "fs_state s") (simp_all add: hasContinuation_def state_and_def state_or_def)

lemma word8_inc_facts:
  fixes a :: "8 word"
  assumes "unat a \<le> 254"
  shows "a + 1 \<noteq> 0" and "\<not> a + 1 < 1" and "unat (a + 1) = unat a + 1"
proof -
  show inc: "unat (a + 1) = unat a + 1" using assms by (simp add: unat_word_ariths)
  then show "a + 1 \<noteq> 0" by auto
  then show "\<not> a + 1 < 1" by simp
qed

text \<open>Dropping a reference that was just taken restores the state, and destroys the continuation
  when no other reference is left.\<close>

lemma contref_detach_attach:
  assumes "\<not> deleted s" and "1 \<le> unat (attached s)" and "unat (attached s) \<le> 254"
    and "unat (continuationRef s) \<le> 254"
  shows "contref_detach (contref_attach s) =
    (ok (), if continuationRef s = 0 then s\<lparr>continuation := None\<rparr> else s)"
proof -
  have "attached s + 1 \<noteq> 1" using assms(2) by auto
  moreover have "continuationRef s + 1 = 1 \<longleftrightarrow> continuationRef s = 0" by simp
  ultimately show ?thesis
    using word8_inc_facts[OF assms(3)] word8_inc_facts[OF assms(4)] assms(1)
    by (simp add: contref_detach_def contref_attach_def attachOne_def refContinuation_def
        derefContinuation_def detachOne_def Let_def)
qed

lemma contref_attach_fields [simp]:
  "attached (contref_attach s) = attached s + 1"
  "continuationRef (contref_attach s) = continuationRef s + 1"
  "deleted (contref_attach s) = deleted s"
  "continuation (contref_attach s) = continuation s"
  "try_value (contref_attach s) = try_value s"
  "ran (contref_attach s) = ran s"
  "tasks (contref_attach s) = tasks s"
  "fs_state (contref_attach s) = fs_state s"
  by (simp_all add: contref_attach_def attachOne_def refContinuation_def)

lemma contref_attach_commute:
  "(contref_attach s)\<lparr>ran := r\<rparr> = contref_attach (s\<lparr>ran := r\<rparr>)"
  "(contref_attach s)\<lparr>tasks := n\<rparr> = contref_attach (s\<lparr>tasks := n\<rparr>)"
  by (simp_all add: contref_attach_def attachOne_def refContinuation_def)

lemma run_continuation_attach:
  "continuation s = Some k \<Longrightarrow>
   run_continuation (contref_attach s) =
     (ok (), contref_attach (s\<lparr>ran := ran s @ [(k, try_value s)]\<rparr>))"
  by (simp add: run_continuation_def contref_attach_commute)

text \<open>What a guarded call of the continuation leaves: it ran once, and it is destroyed.\<close>

lemma guarded_run:
  assumes "\<not> deleted s" and "1 \<le> unat (attached s)" and "unat (attached s) \<le> 253"
    and "continuationRef s = 0" and "continuation s = Some k"
  shows "bind_st (run_continuation (contref_attach s)) (\<lambda>_. contref_detach) =
     (ok (), s\<lparr>continuation := None, ran := ran s @ [(k, try_value s)]\<rparr>)"
  using assms by (simp add: run_continuation_attach contref_detach_attach)

definition sched_ready :: "('v, 'k) FutureState \<Rightarrow> 'k \<Rightarrow> bool" where
  "sched_ready s k \<longleftrightarrow> fs_state s = DONE \<and> continuation s = Some k \<and> continuationRef s = 0
     \<and> ran s = [] \<and> tasks s = 0 \<and> \<not> deleted s
     \<and> 1 \<le> unat (attached s) \<and> unat (attached s) \<le> 253
     \<and> (forceSched s \<longrightarrow> executor s \<noteq> None)"

abbreviation sched_in_place :: "('v, 'k) FutureState \<Rightarrow> 'k \<Rightarrow> ('v, 'k) FutureState" where
  "sched_in_place s k \<equiv> s\<lparr>continuation := None, ran := [(k, try_value s)]\<rparr>"

abbreviation sched_submitted :: "('v, 'k) FutureState \<Rightarrow> ('v, 'k) FutureState" where
  "sched_submitted s \<equiv> contref_attach (s\<lparr>tasks := 1\<rparr>)"

lemma scheduleContinuation_outcome:
  assumes ready: "sched_ready s k" and std: "std_throws env"
  shows "scheduleContinuation env trig s = (ok (), sched_in_place s k)
       \<or> scheduleContinuation env trig s = (ok (), sched_submitted s)"
proof -
  let ?inplace = "\<not> forceSched s \<and> (executor s = None \<or> trig \<or> fs_currentThreadInExecutor env s)"
  have r: "\<not> deleted s" "1 \<le> unat (attached s)" "unat (attached s) \<le> 253"
    "continuationRef s = 0" "continuation s = Some k" "ran s = []" "tasks s = 0" "fs_state s = DONE"
    using ready by (auto simp: sched_ready_def)
  note run = guarded_run[OF r(1-5)]
  have second: "contref_detach (contref_attach (contref_attach s)) = (ok (), contref_attach s)"
    using contref_detach_attach[of "contref_attach s"] r word8_inc_facts[of "attached s"]
    by simp
  have second_t: "contref_detach (contref_attach (contref_attach (s\<lparr>tasks := 1\<rparr>))) =
      (ok (), contref_attach (s\<lparr>tasks := 1\<rparr>))"
    using contref_detach_attach[of "contref_attach (s\<lparr>tasks := 1\<rparr>)"] r word8_inc_facts[of "attached s"]
    by simp
  show ?thesis
  proof (cases ?inplace)
    case True
    then show ?thesis using run r by (simp add: scheduleContinuation_def)
  next
    case False
    with ready have ex: "executor s \<noteq> None" by (auto simp: sched_ready_def)
    show ?thesis
    proof (cases "answer env (sched_target s)")
      case Accepted
      with False ex r second_t show ?thesis
        by (auto simp: scheduleContinuation_def contref_attach_commute Let_def)
    next
      case Refused
      with False ex r second run show ?thesis by (auto simp: scheduleContinuation_def Let_def)
    next
      case (Threw e)
      with std have "is_std_exception e" by (auto simp: std_throws_def)
      with Threw False ex r second run show ?thesis by (auto simp: scheduleContinuation_def Let_def)
    qed
  qed
qed

lemma tasks_same: "tasks s = n \<Longrightarrow> s\<lparr>tasks := n\<rparr> = s"
  by (cases s) simp

lemma run_task_submitted:
  assumes "sched_ready s k"
  shows "run_task (sched_submitted s) = (ok (), sched_in_place s k)"
  using assms guarded_run[of s k]
  by (simp add: run_task_def contref_attach_commute sched_ready_def tasks_same)

section \<open>The interleavings of one setResult and one setContinuation\<close>

fun pc_ok :: "State \<Rightarrow> rpc \<Rightarrow> cpc \<Rightarrow> bool" where
  "pc_ok START p c =
     (p \<in> {R_entry, R_store, R_load, R_cas1} \<and> c \<in> {C_entry, C_store, C_load, C_cas1})"
| "pc_ok ONLY_RESULT p c =
     (p = R_end \<and> c \<in> {C_entry, C_store, C_load, C_cas1, C_cas2 ONLY_RESULT})"
| "pc_ok ONLY_CONTINUATION p c =
     (c = C_end \<and> p \<in> {R_entry, R_store, R_load, R_cas1, R_cas2 ONLY_CONTINUATION})"
| "pc_ok DONE p c = ((p = R_sched \<and> c = C_end) \<or> (p = R_end \<and> c = C_sched))"

definition handover :: "('v, 'k) fs_sys \<Rightarrow> ('v, 'k) FutureState" where
  "handover s =
     (start s)\<lparr>fs_state := DONE, try_value := arg_value s, continuation := Some (arg_func s)\<rparr>"

definition fs_frame :: "('v, 'k) FutureState \<Rightarrow> ('v, 'k) FutureState" where
  "fs_frame s = s\<lparr>fs_state := START, try_value := Nothing, continuation := None\<rparr>"

definition fs_quiet :: "('v, 'k) fs_sys \<Rightarrow> bool" where
  "fs_quiet s \<longleftrightarrow> fs_frame (shared s) = fs_frame (start s)
     \<and> (prod_pc s \<notin> {R_entry, R_store} \<longrightarrow> try_value (shared s) = arg_value s)
     \<and> (cons_pc s \<notin> {C_entry, C_store} \<longrightarrow> continuation (shared s) = Some (arg_func s))
     \<and> pc_ok (fs_state (shared s)) (prod_pc s) (cons_pc s)"

definition fs_over :: "('v, 'k) fs_sys \<Rightarrow> bool" where
  "fs_over s \<longleftrightarrow> prod_pc s = R_end \<and> cons_pc s = C_end
     \<and> (shared s = sched_in_place (handover s) (arg_func s)
        \<or> shared s = sched_submitted (handover s))"

definition fs_inv :: "('v, 'k) fs_sys \<Rightarrow> bool" where
  "fs_inv s \<longleftrightarrow> fs_fresh (start s) \<and> std_throws (prod_env s) \<and> std_throws (cons_env s)
     \<and> (fs_quiet s \<or> fs_over s)"

lemma handover_ready: "fs_fresh (start s) \<Longrightarrow> sched_ready (handover s) (arg_func s)"
  by (simp add: fs_fresh_def sched_ready_def handover_def)

lemma pc_ok_sched:
  "pc_ok st R_sched c \<longleftrightarrow> st = DONE \<and> c = C_end"
  "pc_ok st p C_sched \<longleftrightarrow> st = DONE \<and> p = R_end"
  by (cases st; auto)+

lemma fs_frame_eq:
  "fs_frame a = fs_frame b \<Longrightarrow>
   a = b\<lparr>fs_state := fs_state a, try_value := try_value a, continuation := continuation a\<rparr>"
  by (cases a; cases b) (simp add: fs_frame_def)

lemma fs_frame_upd [simp]:
  "fs_frame (s\<lparr>fs_state := x\<rparr>) = fs_frame s"
  "fs_frame (s\<lparr>try_value := y\<rparr>) = fs_frame s"
  "fs_frame (s\<lparr>continuation := z\<rparr>) = fs_frame s"
  by (simp_all add: fs_frame_def)

lemma fs_frame_fields:
  "tasks (fs_frame s) = tasks s" "ran (fs_frame s) = ran s" "deleted (fs_frame s) = deleted s"
  by (simp_all add: fs_frame_def)

lemma fs_quiet_sched:
  assumes "fs_quiet s" and "prod_pc s = R_sched \<or> cons_pc s = C_sched"
  shows "shared s = handover s"
proof -
  have "fs_state (shared s) = DONE" "try_value (shared s) = arg_value s"
    "continuation (shared s) = Some (arg_func s)" "fs_frame (shared s) = fs_frame (start s)"
    using assms by (auto simp: fs_quiet_def pc_ok_sched)
  then show ?thesis
    using fs_frame_eq[of "shared s" "start s"] by (simp add: handover_def)
qed

lemma fs_quiet_untouched:
  "fs_fresh (start s) \<Longrightarrow> fs_quiet s \<Longrightarrow>
   tasks (shared s) = 0 \<and> ran (shared s) = [] \<and> \<not> deleted (shared s)"
  unfolding fs_quiet_def fs_fresh_def by (metis fs_frame_fields)

lemmas fs_quiet_no_tasks = fs_quiet_untouched [THEN conjunct1]

text \<open>Each access of the producer and of the consumer keeps the invariant.\<close>

lemma producer_quiet:
  assumes "fs_quiet s" and "prod_pc s \<noteq> R_sched"
    and "producer_step (checked s) env (arg_value s) (prod_pc s) (shared s) = Some (pc, sh)"
  shows "fs_quiet (s\<lparr>shared := sh, prod_pc := pc\<rparr>)"
  using assms unfolding fs_quiet_def
  by (cases "fs_state (shared s)"; cases "prod_pc s") (auto split: if_splits)

lemma consumer_quiet:
  assumes "fs_quiet s" and "cons_pc s \<noteq> C_sched"
    and "consumer_step env (arg_func s) (cons_pc s) (shared s) = Some (pc, sh)"
  shows "fs_quiet (s\<lparr>shared := sh, cons_pc := pc\<rparr>)"
  using assms unfolding fs_quiet_def
  by (cases "fs_state (shared s)"; cases "cons_pc s") (auto split: if_splits)

text \<open>The scheduling step of either side hands the state over.\<close>

lemma sched_over:
  assumes "fs_fresh (start s)" and "fs_quiet s" and "std_throws env"
    and "prod_pc s = R_sched \<or> cons_pc s = C_sched"
  obtains sh where "scheduleContinuation env trig (shared s) = (ok (), sh)"
    and "sh = sched_in_place (handover s) (arg_func s) \<or> sh = sched_submitted (handover s)"
  using scheduleContinuation_outcome[OF handover_ready[OF assms(1)] assms(3), of trig]
    fs_quiet_sched[OF assms(2,4)] that by auto

lemma handover_upd [simp]:
  "handover (s\<lparr>shared := sh\<rparr>) = handover s"
  "handover (s\<lparr>prod_pc := p\<rparr>) = handover s"
  "handover (s\<lparr>cons_pc := c\<rparr>) = handover s"
  by (simp_all add: handover_def)

lemma producer_inv:
  assumes "fs_inv s"
    and step: "producer_step (checked s) (prod_env s) (arg_value s) (prod_pc s) (shared s) = Some (pc, sh)"
  shows "fs_inv (s\<lparr>shared := sh, prod_pc := pc\<rparr>)"
proof -
  have fresh: "fs_fresh (start s)" "std_throws (prod_env s)" using assms(1) by (auto simp: fs_inv_def)
  have q: "fs_quiet s" using assms by (auto simp: fs_inv_def fs_over_def)
  show ?thesis
  proof (cases "prod_pc s = R_sched")
    case True
    obtain sh' where "scheduleContinuation (prod_env s) False (shared s) = (ok (), sh')"
      "sh' = sched_in_place (handover s) (arg_func s) \<or> sh' = sched_submitted (handover s)"
      using sched_over[OF fresh(1) q fresh(2)] True by blast
    moreover have "cons_pc s = C_end" using q True by (auto simp: fs_quiet_def pc_ok_sched)
    ultimately show ?thesis using step True assms(1) by (auto simp: fs_inv_def fs_over_def)
  next
    case False
    then have "fs_quiet (s\<lparr>shared := sh, prod_pc := pc\<rparr>)" using producer_quiet[OF q False step] by simp
    then show ?thesis using assms(1) by (auto simp: fs_inv_def)
  qed
qed

lemma consumer_inv:
  assumes "fs_inv s"
    and step: "consumer_step (cons_env s) (arg_func s) (cons_pc s) (shared s) = Some (pc, sh)"
  shows "fs_inv (s\<lparr>shared := sh, cons_pc := pc\<rparr>)"
proof -
  have fresh: "fs_fresh (start s)" "std_throws (cons_env s)" using assms(1) by (auto simp: fs_inv_def)
  have q: "fs_quiet s" using assms by (auto simp: fs_inv_def fs_over_def)
  show ?thesis
  proof (cases "cons_pc s = C_sched")
    case True
    obtain sh' where "scheduleContinuation (cons_env s) True (shared s) = (ok (), sh')"
      "sh' = sched_in_place (handover s) (arg_func s) \<or> sh' = sched_submitted (handover s)"
      using sched_over[OF fresh(1) q fresh(2)] True by blast
    moreover have "prod_pc s = R_end" using q True by (auto simp: fs_quiet_def pc_ok_sched)
    ultimately show ?thesis using step True assms(1) by (auto simp: fs_inv_def fs_over_def)
  next
    case False
    then have "fs_quiet (s\<lparr>shared := sh, cons_pc := pc\<rparr>)" using consumer_quiet[OF q False step] by simp
    then show ?thesis using assms(1) by (auto simp: fs_inv_def)
  qed
qed

lemma task_inv:
  assumes "fs_inv s" and tasks: "0 < tasks (shared s)" and run: "run_task (shared s) = (ok (), sh)"
  shows "fs_inv (s\<lparr>shared := sh\<rparr>) \<and> tasks sh = 0"
proof -
  have fresh: "fs_fresh (start s)" using assms(1) by (auto simp: fs_inv_def)
  have over: "fs_over s" using assms(1) tasks fs_quiet_no_tasks[OF fresh] by (auto simp: fs_inv_def)
  have none: "tasks (sched_in_place (handover s) (arg_func s)) = 0"
    using handover_ready[OF fresh] by (simp add: sched_ready_def)
  with over tasks have sub: "shared s = sched_submitted (handover s)" by (auto simp: fs_over_def)
  then have "sh = sched_in_place (handover s) (arg_func s)"
    using run_task_submitted[OF handover_ready[OF fresh]] run by simp
  then show ?thesis using none over assms(1) by (auto simp: fs_inv_def fs_over_def)
qed

lemma fs_step_inv: "fs_inv s \<Longrightarrow> fs_trans s t \<Longrightarrow> fs_inv t"
  using producer_inv consumer_inv task_inv by (force simp: fs_trans_iff)

lemma fs_init_inv: "fs_init s \<Longrightarrow> fs_inv s"
  by (auto simp: fs_init_def fs_inv_def fs_quiet_def fs_fresh_def)

text \<open>Every step makes progress: a rank that decreases.\<close>

fun rpc_rank :: "rpc \<Rightarrow> nat" where
  "rpc_rank R_entry = 7"
| "rpc_rank R_store = 6"
| "rpc_rank R_load = 5"
| "rpc_rank R_cas1 = 4"
| "rpc_rank (R_cas2 _) = 3"
| "rpc_rank R_sched = 2"
| "rpc_rank _ = 0"

fun cpc_rank :: "cpc \<Rightarrow> nat" where
  "cpc_rank C_entry = 7"
| "cpc_rank C_store = 6"
| "cpc_rank C_load = 5"
| "cpc_rank C_cas1 = 4"
| "cpc_rank (C_cas2 _) = 3"
| "cpc_rank C_sched = 2"
| "cpc_rank _ = 0"

definition fs_rank :: "('v, 'k) fs_sys \<Rightarrow> nat" where
  "fs_rank s = rpc_rank (prod_pc s) + cpc_rank (cons_pc s) + tasks (shared s)"

lemma fs_over_tasks: "fs_fresh (start s) \<Longrightarrow> fs_over s \<Longrightarrow> tasks (shared s) \<le> 1"
  using handover_ready[of s] by (auto simp: fs_over_def sched_ready_def)

lemma producer_rank:
  assumes "fs_inv s"
    and step: "producer_step (checked s) (prod_env s) (arg_value s) (prod_pc s) (shared s) = Some (pc, sh)"
  shows "rpc_rank pc + tasks sh < rpc_rank (prod_pc s) + tasks (shared s)"
proof (cases "prod_pc s = R_sched")
  case True
  let ?t = "s\<lparr>shared := sh, prod_pc := pc\<rparr>"
  have t: "fs_inv ?t" by (rule producer_inv[OF assms])
  moreover have "pc \<noteq> R_sched \<and> pc \<noteq> R_entry \<and> rpc_rank pc = 0"
    using step True by (auto split: prod.splits sum.splits)
  ultimately have "tasks sh \<le> 1"
    using fs_over_tasks[of ?t] fs_quiet_no_tasks[of ?t] by (auto simp: fs_inv_def)
  then show ?thesis using True \<open>pc \<noteq> R_sched \<and> pc \<noteq> R_entry \<and> rpc_rank pc = 0\<close> by simp
next
  case False
  then show ?thesis using step
    by (cases "prod_pc s") (auto split: if_splits State.splits)
qed

lemma consumer_rank:
  assumes "fs_inv s"
    and step: "consumer_step (cons_env s) (arg_func s) (cons_pc s) (shared s) = Some (pc, sh)"
  shows "cpc_rank pc + tasks sh < cpc_rank (cons_pc s) + tasks (shared s)"
proof (cases "cons_pc s = C_sched")
  case True
  let ?t = "s\<lparr>shared := sh, cons_pc := pc\<rparr>"
  have t: "fs_inv ?t" by (rule consumer_inv[OF assms])
  moreover have pc: "cpc_rank pc = 0"
    using step True by (auto split: prod.splits sum.splits)
  ultimately have "tasks sh \<le> 1"
    using fs_over_tasks[of ?t] fs_quiet_no_tasks[of ?t] by (auto simp: fs_inv_def)
  then show ?thesis using True pc by simp
next
  case False
  then show ?thesis using step
    by (cases "cons_pc s") (auto split: if_splits State.splits)
qed

lemma fs_step_rank: "fs_inv s \<Longrightarrow> fs_trans s t \<Longrightarrow> fs_rank t < fs_rank s"
  by (auto simp: fs_trans_iff fs_rank_def dest: producer_rank consumer_rank task_inv)

interpretation fsm: bounded_system fs_init fs_trans fs_inv fs_rank
  by unfold_locales (auto intro: fs_init_inv fs_step_inv fs_step_rank)

text \<open>A state in which nobody can move: the continuation has run.\<close>

lemma quiet_can_move:
  assumes "fs_quiet s" shows "\<exists>t. fs_trans s t"
proof -
  have "(\<exists>x. producer_step (checked s) (prod_env s) (arg_value s) (prod_pc s) (shared s) = Some x)
    \<or> (\<exists>x. consumer_step (cons_env s) (arg_func s) (cons_pc s) (shared s) = Some x)"
    using assms by (cases "fs_state (shared s)") (auto simp: fs_quiet_def)
  then show ?thesis by (auto intro: fs_trans.intros)
qed

lemma stuck_final:
  assumes "fs_inv s" and "\<forall>t. \<not> fs_trans s t"
  shows "prod_pc s = R_end \<and> cons_pc s = C_end
    \<and> shared s = sched_in_place (handover s) (arg_func s)"
proof -
  have over: "fs_over s" using assms quiet_can_move by (auto simp: fs_inv_def)
  have "shared s \<noteq> sched_submitted (handover s)"
  proof
    assume sub: "shared s = sched_submitted (handover s)"
    have "run_task (shared s) = (ok (), sched_in_place (handover s) (arg_func s))"
      using assms(1) run_task_submitted[OF handover_ready] sub by (auto simp: fs_inv_def)
    moreover have "0 < tasks (shared s)" using sub by simp
    ultimately show False using assms(2) by (auto intro: fs_trans.executor_runs)
  qed
  then show ?thesis using over by (auto simp: fs_over_def)
qed

lemma fs_trans_const:
  "fs_trans s t \<Longrightarrow> start t = start s \<and> arg_value t = arg_value s \<and> arg_func t = arg_func s"
  by (auto simp: fs_trans_iff)

lemma fs_steps_const:
  "steps fs_trans n s t \<Longrightarrow> start t = start s \<and> arg_value t = arg_value s \<and> arg_func t = arg_func s"
  by (induction n arbitrary: s) (auto dest!: fs_trans_const)

section \<open>Run without interference, the steps are the member functions\<close>

fun producer_run ::
  "nat \<Rightarrow> bool \<Rightarrow> exec_env \<Rightarrow> 'v Try_t \<Rightarrow> rpc \<times> ('v, 'k) FutureState \<Rightarrow>
     rpc \<times> ('v, 'k) FutureState" where
  "producer_run 0 chk env v (pc, s) = (pc, s)"
| "producer_run (Suc n) chk env v (pc, s) =
     (case producer_step chk env v pc s of None \<Rightarrow> (pc, s) | Some x \<Rightarrow> producer_run n chk env v x)"

fun consumer_run ::
  "nat \<Rightarrow> exec_env \<Rightarrow> 'k \<Rightarrow> cpc \<times> ('v, 'k) FutureState \<Rightarrow> cpc \<times> ('v, 'k) FutureState" where
  "consumer_run 0 env k (pc, s) = (pc, s)"
| "consumer_run (Suc n) env k (pc, s) =
     (case consumer_step env k pc s of None \<Rightarrow> (pc, s) | Some x \<Rightarrow> consumer_run n env k x)"

lemma producer_run_setResult:
  "producer_run 6 chk env v (R_entry, s) =
     (case setResult chk env v s of (Inr _, s') \<Rightarrow> (R_end, s') | (Inl f, s') \<Rightarrow> (R_fail f, s'))"
  by (cases "fs_state s")
    (auto simp: numeral_eq_Suc setResult_def Let_def split: prod.splits sum.splits)

lemma consumer_run_setContinuation:
  "consumer_run 6 env k (C_entry, s) =
     (case setContinuation env k s of (Inr _, s') \<Rightarrow> (C_end, s') | (Inl f, s') \<Rightarrow> (C_fail f, s'))"
  by (cases "fs_state s")
    (auto simp: numeral_eq_Suc setContinuation_def Let_def split: prod.splits sum.splits)

section \<open>Properties\<close>


definition demo_env :: "sched_answer \<Rightarrow> exec_env" where
  "demo_env a = \<lparr>in_executor = False, answer = (\<lambda>_. a)\<rparr>"

definition demo_sys :: "(nat, nat) fs_sys" where
  "demo_sys =
     (let s = setExecutor (Some 0) (attachOne (attachPromise FutureState_new))
      in \<lparr>shared = s, prod_pc = R_entry, cons_pc = C_entry, arg_value = Value 7, arg_func = 3,
          prod_env = demo_env Refused, cons_env = demo_env Accepted, checked = True, start = s\<rparr>)"

lemma demo_init: "fs_init demo_sys"
  by (simp add: fs_init_def demo_sys_def demo_env_def fs_fresh_def std_throws_def setExecutor_def
      attachOne_def attachPromise_def FutureState_new_def Let_def)




text \<open>
  A second result.  With the leading check compiled in, setting a result twice throws
  "FutureState already has a result" and leaves the state alone.  Without it (GCC 12 and later)
  the call still throws, but only after it has overwritten the stored result.
\<close>

theorem setResult_twice:
  assumes "hasResult s"
  shows "setResult True env w s = (throw (Logic_error ''FutureState already has a result''), s)
    \<and> setResult False env w s =
        (throw (Logic_error ''State Transfer Error''), s\<lparr>try_value := w\<rparr>)"
  using assms by (auto simp: setResult_def Let_def)

theorem setResult_twice_witness:
  "hasResult (FutureState_new\<lparr>fs_state := ONLY_RESULT, try_value := Value (1::nat)\<rparr> :: (nat, nat) FutureState)
   \<and> try_value (snd (setResult False (demo_env Refused) (Value 2)
        (FutureState_new\<lparr>fs_state := ONLY_RESULT, try_value := Value 1\<rparr> :: (nat, nat) FutureState))) = Value 2"
  using setResult_twice[of "FutureState_new\<lparr>fs_state := ONLY_RESULT, try_value := Value 1\<rparr>
      :: (nat, nat) FutureState" "demo_env Refused" "Value 2"] by simp

text \<open>
  Destroying the last promise of a state that has no result yet delivers the exception
  "Promise is broken" to the future: a waiting continuation runs in place with it exactly once
  and is destroyed, and a continuation set later would find it stored.  The promise's reference
  is released and the state lives on for the future's.
\<close>

theorem broken_promise_delivered:
  assumes "promiseRef s = 1" and "\<not> deleted s" and "2 \<le> unat (attached s)"
    and "unat (attached s) \<le> 253" and "continuationRef s = 0" and "executor s = None"
    and "\<not> forceSched s"
  shows "(fs_state s = START \<longrightarrow>
      detachPromise chk env s =
        (ok (), s\<lparr>promiseRef := 0, attached := attached s - 1, fs_state := ONLY_RESULT,
                  try_value := Exception broken_promise\<rparr>))
    \<and> (fs_state s = ONLY_CONTINUATION \<and> continuation s = Some k \<longrightarrow>
      detachPromise chk env s =
        (ok (), s\<lparr>promiseRef := 0, attached := attached s - 1, fs_state := DONE,
                  try_value := Exception broken_promise, continuation := None,
                  ran := ran s @ [(k, Exception broken_promise)]\<rparr>))"
proof (intro conjI impI)
  have a: "attached s \<noteq> 1" "\<not> attached s < 1" using assms(3) by auto
  show "detachPromise chk env s =
        (ok (), s\<lparr>promiseRef := 0, attached := attached s - 1, fs_state := ONLY_RESULT,
                  try_value := Exception broken_promise\<rparr>)" if "fs_state s = START"
    using that assms(1,2) a by (simp add: detachPromise_def setResult_def detachOne_def Let_def)
  assume st: "fs_state s = ONLY_CONTINUATION \<and> continuation s = Some k"
  let ?d = "s\<lparr>promiseRef := 0, try_value := Exception broken_promise, fs_state := DONE\<rparr>"
  have "scheduleContinuation env False ?d =
      (ok (), ?d\<lparr>continuation := None, ran := ran ?d @ [(k, try_value ?d)]\<rparr>)"
    using assms st guarded_run[of ?d k] by (simp add: scheduleContinuation_def)
  then show "detachPromise chk env s =
        (ok (), s\<lparr>promiseRef := 0, attached := attached s - 1, fs_state := DONE,
                  try_value := Exception broken_promise, continuation := None,
                  ran := ran s @ [(k, Exception broken_promise)]\<rparr>)"
    using st assms(1,2) a by (simp add: detachPromise_def setResult_def detachOne_def Let_def)
qed

definition demo_waiting :: "(nat, nat) FutureState" where
  "demo_waiting = (attachOne (attachPromise FutureState_new))
     \<lparr>fs_state := ONLY_CONTINUATION, continuation := Some 5\<rparr>"

theorem broken_promise_delivered_witness:
  "fst (detachPromise True (demo_env Refused) demo_waiting) = ok ()
   \<and> ran (snd (detachPromise True (demo_env Refused) demo_waiting)) = [(5, Exception broken_promise)]"
  using broken_promise_delivered[of demo_waiting True "demo_env Refused" 5]
  by (simp add: demo_waiting_def attachOne_def attachPromise_def FutureState_new_def)

lemma attachPromise_funpow:
  "(attachPromise ^^ n) s =
     s\<lparr>attached := attached s + of_nat n, promiseRef := promiseRef s + of_nat n\<rparr>"
proof (induction n)
  case 0
  then show ?case by simp
next
  case (Suc n)
  then show ?case by (simp add: attachPromise_def attachOne_def algebra_simps)
qed

text \<open>
  C40.  The reference counter \<open>_attached\<close> has 8 bits.  Copying a promise counts modulo 256: with up
  to 255 references the counter is exact, but with 257 live promises it reads 1, and then the
  destruction of a single promise deletes the state that 256 promises still point to.
\<close>

theorem attached_wraps:
  "unat (attached ((attachPromise ^^ n) FutureState_new :: ('v, 'k) FutureState)) = n mod 256
   \<and> (let s = (attachPromise ^^ 257) (FutureState_new :: ('v, 'k) FutureState);
          r = detachPromise chk env s
      in attached s = 1 \<and> promiseRef s = 257 \<and> fst r = ok ()
         \<and> deleted (snd r) \<and> promiseRef (snd r) = 256)"
  by (simp add: attachPromise_funpow FutureState_new_def detachPromise_def detachOne_def Let_def
      unat_of_nat)

end
