(* ===== verification/Signal_Model.thy ===== *)
theory Signal_Model
  imports Prelude
begin

text \<open>
  Signals and slots (async_simple/Signal.h).

  A \<open>Signal\<close> holds the 64-bit set of signal types triggered so far and its slots.  Slots are kept in
  the order they were registered, so the intrusive list, which grows at the head, is the reverse.
  A slot holds its filter, its chained signal and its handler managers, newest first; each manager
  has a bit index and a handler cell that is null, a handler, or the tag \<open>emittedTag\<close>.  The
  slot's table from index to manager is the lookup in that list.  Handlers are opaque values;
  calling one, or passing a signal on to the chained signal, is an event of the log.
\<close>

unbundle bit_operations_syntax

section \<open>Data\<close>

type_synonym SignalType = "64 word"

abbreviation None_signal :: SignalType where "None_signal \<equiv> 0"
abbreviation Terminate :: SignalType where "Terminate \<equiv> 1"
abbreviation All_signals :: SignalType where "All_signals \<equiv> - 1"

definition high32bits_mask :: SignalType where
  "high32bits_mask = push_bit 32 0xFFFFFFFF"

definition MinMultiTriggerSignal :: SignalType where
  "MinMultiTriggerSignal = push_bit 32 1"

datatype 'h cell = Null | EmittedTag | Handler 'h

record 'h SlotState =
  managers :: "(nat \<times> 'h cell) list"
  chained :: "nat option"
  slot_filter :: SignalType

record 'h Signal =
  sig_state :: SignalType
  slots :: "'h SlotState list"

datatype 'h event = Call nat nat 'h SignalType | Chain nat nat SignalType

definition Signal_new :: "'h Signal" where
  "Signal_new = \<lparr>sig_state = 0, slots = []\<rparr>"

section \<open>Emission\<close>

definition UpdateState :: "SignalType \<Rightarrow> SignalType \<Rightarrow> SignalType \<times> SignalType" where
  "UpdateState state type =
     (let validSignal = (state OR type) XOR state;
          state' = (if validSignal \<noteq> 0 then state OR type else state)
      in (validSignal OR (type AND high32bits_mask), state'))"

definition isMultiTriggerSignal :: "SignalType \<Rightarrow> bool" where
  "isMultiTriggerSignal type = (MinMultiTriggerSignal \<le> type)"

definition invoke :: "SignalType \<Rightarrow> 'h cell \<Rightarrow> ('h option \<times> 'h cell) result" where
  "invoke type handlerPtr =
     (if \<not> isMultiTriggerSignal type
      then (case handlerPtr of
              Null \<Rightarrow> ok (None, EmittedTag)
            | Handler h \<Rightarrow> ok (Some h, EmittedTag)
            | EmittedTag \<Rightarrow> throw Bad_function_call)
      else (case handlerPtr of
              Null \<Rightarrow> ok (None, Null)
            | Handler h \<Rightarrow> ok (Some h, Handler h)
            | EmittedTag \<Rightarrow> throw Bad_function_call))"

fun walk_managers ::
  "nat \<Rightarrow> SignalType \<Rightarrow> (nat \<times> 'h cell) list \<Rightarrow> ((nat \<times> 'h cell) list \<times> 'h event list) result" where
  "walk_managers sid state [] = ok ([], [])"
| "walk_managers sid state ((index, c) # ms) =
     (if state = 0 then ok ((index, c) # ms, [])
      else let nowSignal = push_bit index 1
           in if nowSignal AND state \<noteq> 0
              then (case invoke nowSignal c of
                      Inl f \<Rightarrow> Inl f
                    | Inr (h, c') \<Rightarrow>
                        (case walk_managers sid (state XOR nowSignal) ms of
                           Inl f \<Rightarrow> Inl f
                         | Inr (ms', evs) \<Rightarrow>
                             ok ((index, c') # ms',
                                 (case h of None \<Rightarrow> [] | Some h' \<Rightarrow> [Call sid index h' state]) @ evs)))
              else (case walk_managers sid state ms of
                      Inl f \<Rightarrow> Inl f
                    | Inr (ms', evs) \<Rightarrow> ok ((index, c) # ms', evs)))"

definition slot_call ::
  "nat \<Rightarrow> SignalType \<Rightarrow> 'h SlotState \<Rightarrow> ('h SlotState \<times> 'h event list) result" where
  "slot_call sid type node =
     (let state = type AND slot_filter node;
          chain = (case chained node of
                     Some tgt \<Rightarrow> (if state \<noteq> 0 then [Chain sid tgt state] else [])
                   | None \<Rightarrow> [])
      in case walk_managers sid state (managers node) of
           Inl f \<Rightarrow> Inl f
         | Inr (ms, evs) \<Rightarrow> ok (node\<lparr>managers := ms\<rparr>, chain @ evs))"

text \<open>The list is walked from the head, the slot registered last.\<close>

fun emit_slots ::
  "SignalType \<Rightarrow> nat \<Rightarrow> 'h SlotState list \<Rightarrow> ('h SlotState list \<times> 'h event list) result" where
  "emit_slots type 0 ns = ok (ns, [])"
| "emit_slots type (Suc i) ns =
     (case slot_call i type (ns ! i) of
        Inl f \<Rightarrow> Inl f
      | Inr (n', evs) \<Rightarrow>
          (case emit_slots type i (ns[i := n']) of
             Inl f \<Rightarrow> Inl f
           | Inr (ns', evs') \<Rightarrow> ok (ns', evs @ evs')))"

definition emits ::
  "SignalType \<Rightarrow> 'h Signal \<Rightarrow> (SignalType \<times> 'h Signal \<times> 'h event list) result" where
  "emits type s =
     (if type \<noteq> None_signal
      then let (validSignal, st') = UpdateState (sig_state s) type
           in if validSignal \<noteq> 0
              then (case emit_slots validSignal (length (slots s)) (slots s) of
                      Inl f \<Rightarrow> Inl f
                    | Inr (ns, evs) \<Rightarrow>
                        ok (validSignal, s\<lparr>sig_state := st', slots := ns\<rparr>, evs))
              else ok (validSignal, s\<lparr>sig_state := st'\<rparr>, [])
      else ok (None_signal, s, []))"

section \<open>Slots\<close>

definition registSlot :: "SignalType \<Rightarrow> 'h Signal \<Rightarrow> nat \<times> 'h Signal" where
  "registSlot flt s =
     (length (slots s),
      s\<lparr>slots := slots s @ [\<lparr>managers = [], chained = None, slot_filter = flt\<rparr>]\<rparr>)"

definition upd_slot :: "nat \<Rightarrow> ('h SlotState \<Rightarrow> 'h SlotState) \<Rightarrow> 'h Signal \<Rightarrow> 'h Signal" where
  "upd_slot i f s = s\<lparr>slots := (slots s)[i := f (slots s ! i)]\<rparr>"

fun set_cell :: "nat \<Rightarrow> 'h cell \<Rightarrow> (nat \<times> 'h cell) list \<Rightarrow> (nat \<times> 'h cell) list" where
  "set_cell i c [] = []"
| "set_cell i c ((j, d) # ms) = (if i = j then (j, c) # ms else (j, d) # set_cell i c ms)"

definition countr_zero :: "SignalType \<Rightarrow> nat" where
  "countr_zero w = (if w = 0 then 64 else hd (filter (\<lambda>n. bit w n) [0..<64]))"

definition std_popcount :: "SignalType \<Rightarrow> nat" where
  "std_popcount w = length (filter (\<lambda>n. bit w n) [0..<64])"

text \<open>\<open>loadHandler<true>\<close> adds a manager with a null cell when the index has none.\<close>

definition loadHandler_emplace :: "nat \<Rightarrow> 'h SlotState \<Rightarrow> 'h cell \<times> 'h SlotState" where
  "loadHandler_emplace index node =
     (case map_of (managers node) index of
        Some c \<Rightarrow> (c, node)
      | None \<Rightarrow> (Null, node\<lparr>managers := (index, Null) # managers node\<rparr>))"

definition loadHandler_find :: "nat \<Rightarrow> 'h SlotState \<Rightarrow> 'h cell option" where
  "loadHandler_find index node = map_of (managers node) index"

definition emplace :: "nat \<Rightarrow> SignalType \<Rightarrow> 'h \<Rightarrow> 'h Signal \<Rightarrow> ('h Signal, bool) call" where
  "emplace sid type h s =
     bind_st (lift_st (logicAssert (std_popcount type = 1)
                ''It's not allow to emplace for multiple signals'') s)
       (\<lambda>_ s. let index = countr_zero type;
                  (oldHandler, node) = loadHandler_emplace index (slots s ! sid);
                  s1 = upd_slot sid (\<lambda>_. node) s
              in if \<not> isMultiTriggerSignal type \<and> sig_state s1 AND type \<noteq> 0 then (ok False, s1)
                 else (case oldHandler of
                         EmittedTag \<Rightarrow> (ok False, s1)
                       | _ \<Rightarrow> (ok True,
                          upd_slot sid (\<lambda>n. n\<lparr>managers := set_cell index (Handler h) (managers n)\<rparr>) s1)))"

definition clear_handler :: "nat \<Rightarrow> SignalType \<Rightarrow> 'h Signal \<Rightarrow> ('h Signal, bool) call" where
  "clear_handler sid type s =
     bind_st (lift_st (logicAssert (std_popcount type = 1)
                ''It's not allow to emplace for multiple signals'') s)
       (\<lambda>_ s. let index = countr_zero type
              in case loadHandler_find index (slots s ! sid) of
                   None \<Rightarrow> (ok False, s)
                 | Some EmittedTag \<Rightarrow> (ok False, s)
                 | Some Null \<Rightarrow> (ok False, s)
                 | Some (Handler _) \<Rightarrow>
                     (ok True, upd_slot sid (\<lambda>n. n\<lparr>managers := set_cell index Null (managers n)\<rparr>) s))"

definition setFilter :: "nat \<Rightarrow> SignalType \<Rightarrow> 'h Signal \<Rightarrow> 'h Signal" where
  "setFilter sid flt = upd_slot sid (\<lambda>n. n\<lparr>slot_filter := flt\<rparr>)"

definition getFilter :: "nat \<Rightarrow> 'h Signal \<Rightarrow> SignalType" where
  "getFilter sid s = slot_filter (slots s ! sid)"

text \<open>\<open>FilterGuard\<close>: construction narrows the filter and remembers the old one, destruction restores it.\<close>

definition FilterGuard_new :: "nat \<Rightarrow> SignalType \<Rightarrow> 'h Signal \<Rightarrow> SignalType \<times> 'h Signal" where
  "FilterGuard_new sid newFilter s =
     (let oldFilter = getFilter sid s in (oldFilter, setFilter sid (oldFilter AND newFilter) s))"

definition FilterGuard_delete :: "nat \<Rightarrow> SignalType \<Rightarrow> 'h Signal \<Rightarrow> 'h Signal" where
  "FilterGuard_delete sid oldFilter s = setFilter sid oldFilter s"

definition triggered :: "SignalType \<Rightarrow> 'h SlotState \<Rightarrow> bool" where
  "triggered state node = (state AND slot_filter node \<noteq> 0)"

definition hasTriggered :: "nat \<Rightarrow> SignalType \<Rightarrow> 'h Signal \<Rightarrow> bool" where
  "hasTriggered sid type s = triggered (sig_state s AND type) (slots s ! sid)"

definition canceled :: "nat \<Rightarrow> 'h Signal \<Rightarrow> bool" where
  "canceled sid s = hasTriggered sid Terminate s"

definition chainedSignal :: "nat \<Rightarrow> nat option \<Rightarrow> 'h Signal \<Rightarrow> 'h Signal" where
  "chainedSignal sid tgt = upd_slot sid (\<lambda>n. n\<lparr>chained := tgt\<rparr>)"

section \<open>signalHelper\<close>

text \<open>A slot pointer is an optional slot number; \<open>None\<close> is the null pointer.\<close>

definition tryEmplace ::
  "SignalType \<Rightarrow> nat option \<Rightarrow> 'h \<Rightarrow> 'h Signal \<Rightarrow> ('h Signal, bool) call" where
  "tryEmplace sign slot h s =
     (case slot of None \<Rightarrow> (ok True, s)
      | Some sid \<Rightarrow> bind_st (emplace sid sign h s) (\<lambda>b s'. (ok b, s')))"

definition hasCanceled :: "SignalType \<Rightarrow> nat option \<Rightarrow> 'h Signal \<Rightarrow> bool" where
  "hasCanceled sign slot s = (case slot of None \<Rightarrow> False | Some sid \<Rightarrow> hasTriggered sid sign s)"

fun to_string :: "nat \<Rightarrow> string" where
  "to_string n = (if n < 10 then [char_of (48 + n)] else to_string (n div 10) @ [char_of (48 + n mod 10)])"

definition checkHasCanceled ::
  "SignalType \<Rightarrow> nat option \<Rightarrow> string \<Rightarrow> 'h Signal \<Rightarrow> ('h Signal, unit) call" where
  "checkHasCanceled sign slot error_msg s =
     (case slot of None \<Rightarrow> (ok (), s)
      | Some sid \<Rightarrow>
          bind_st (clear_handler sid sign s)
            (\<lambda>cleared s'.
               if \<not> cleared \<and> canceled sid s'
               then (throw (Signal_exception sign
                        (if error_msg = []
                         then ''async-simple signal triggered and throw exception, signal no: ''
                              @ to_string (countr_zero sign)
                         else error_msg)), s')
               else (ok (), s')))"

section \<open>Bits\<close>

lemma bit_high_mask: "bit high32bits_mask i \<longleftrightarrow> 32 \<le> i \<and> i < 64"
proof -
  have "(0xFFFFFFFF :: 64 word) = mask 32" by (simp add: mask_eq_exp_minus_1)
  then have "high32bits_mask = push_bit 32 (mask 32)" by (simp only: high32bits_mask_def)
  moreover have "bit (push_bit 32 (mask 32) :: 64 word) i \<longleftrightarrow> 32 \<le> i \<and> i < 64"
    by (subst bit_push_bit_iff) (auto simp: bit_mask_iff)
  ultimately show ?thesis by (simp only:)
qed

lemma word_eq_0_bits: "(w :: 64 word) = 0 \<longleftrightarrow> (\<forall>i < 64. \<not> bit w i)"
  by (auto simp: bit_eq_iff)

lemma bit_now: "bit (2 ^ i :: 64 word) j \<longleftrightarrow> i = j \<and> j < 64"
  by (auto simp: bit_exp_iff)

lemma now_and_state: "i < 64 \<Longrightarrow> 2 ^ i AND (w :: 64 word) = 0 \<longleftrightarrow> \<not> bit w i"
  by (auto simp: word_eq_0_bits bit_and_iff bit_now)

lemma bit_clear_now:
  "i < 64 \<Longrightarrow> bit w i \<Longrightarrow> bit ((w :: 64 word) XOR 2 ^ i) j \<longleftrightarrow> bit w j \<and> j \<noteq> i"
  by (auto simp: bit_xor_iff bit_now dest: bit_imp_le_length)

lemma multi_trigger_index:
  assumes "i < 64"
  shows "isMultiTriggerSignal (2 ^ i) \<longleftrightarrow> 32 \<le> i"
proof -
  have u: "unat ((2::64 word) ^ j) = 2 ^ j" if "j < 64" for j
  proof -
    have "unat (of_nat (2 ^ j) :: 64 word) = 2 ^ j mod 2 ^ 64" by (simp only: unat_of_nat) simp
    also have "\<dots> = 2 ^ j" using that by (intro mod_less power_strict_increasing) auto
    finally show ?thesis by simp
  qed
  show ?thesis
    using assms u[of i] u[of 32] power_increasing_iff[of "2::nat" 32 i]
    by (simp add: isMultiTriggerSignal_def MinMultiTriggerSignal_def word_le_nat_alt)
qed

lemma UpdateState_bits:
  "i < 64 \<Longrightarrow> bit (fst (UpdateState st ty)) i \<longleftrightarrow> bit ty i \<and> (\<not> bit st i \<or> 32 \<le> i)"
  by (auto simp: UpdateState_def Let_def bit_or_iff bit_xor_iff bit_and_iff bit_high_mask)

lemma UpdateState_state: "snd (UpdateState st ty) = (st OR ty)"
proof -
  have "(st OR ty) XOR st = 0 \<Longrightarrow> st OR ty = st"
    by (auto simp: bit_eq_iff bit_or_iff bit_xor_iff)
  then show ?thesis by (auto simp: UpdateState_def Let_def)
qed

section \<open>Walking the managers\<close>

fun is_call :: "nat \<Rightarrow> nat \<Rightarrow> 'h event \<Rightarrow> bool" where
  "is_call sid i (Call n j h st) = (n = sid \<and> j = i)"
| "is_call sid i _ = False"

definition calls :: "nat \<Rightarrow> nat \<Rightarrow> 'h event list \<Rightarrow> nat" where
  "calls sid i evs = length (filter (is_call sid i) evs)"

lemma calls_append [simp]: "calls n i (xs @ ys) = calls n i xs + calls n i ys"
  by (simp add: calls_def)

lemma calls_Nil [simp]: "calls n i [] = 0"
  by (simp add: calls_def)

lemma calls_Cons: "calls n i (e # es) = (if is_call n i e then 1 else 0) + calls n i es"
  by (simp add: calls_def)

definition fire :: "SignalType \<Rightarrow> nat \<times> 'h cell \<Rightarrow> nat \<times> 'h cell" where
  "fire st m = (fst m, if bit st (fst m) \<and> fst m < 32 then EmittedTag else snd m)"

definition ms_ok :: "SignalType \<Rightarrow> (nat \<times> 'h cell) list \<Rightarrow> bool" where
  "ms_ok st ms \<longleftrightarrow> distinct (map fst ms)
     \<and> (\<forall>m \<in> set ms. fst m < 64 \<and> (snd m = EmittedTag \<longrightarrow> \<not> bit st (fst m)))"

lemma ms_ok_Cons:
  "ms_ok st ((i, c) # ms) \<longleftrightarrow>
     i \<notin> fst ` set ms \<and> i < 64 \<and> (c = EmittedTag \<longrightarrow> \<not> bit st i) \<and> ms_ok st ms"
  by (auto simp: ms_ok_def)

lemma ms_ok_clear: "ms_ok st ms \<Longrightarrow> i < 64 \<Longrightarrow> bit st i \<Longrightarrow> ms_ok (st XOR 2 ^ i) ms"
  by (auto simp: ms_ok_def bit_clear_now)

lemma map_fire_clear:
  "i < 64 \<Longrightarrow> bit st i \<Longrightarrow> i \<notin> fst ` set ms \<Longrightarrow>
   map (fire (st XOR 2 ^ i)) ms = map (fire st) ms"
  by (auto simp: fire_def bit_clear_now)

definition fires :: "SignalType \<Rightarrow> (nat \<times> 'h cell) list \<Rightarrow> nat \<Rightarrow> bool" where
  "fires st ms i \<longleftrightarrow> bit st i \<and> (\<exists>h. (i, Handler h) \<in> set ms)"

lemma invoke_ok:
  assumes "i < 64" and "c \<noteq> EmittedTag" and "bit st i"
  shows "invoke (2 ^ i) c =
    ok (case c of Handler h \<Rightarrow> Some h | _ \<Rightarrow> None, snd (fire st (i, c)))"
  using assms by (cases c) (auto simp: invoke_def fire_def multi_trigger_index)

lemma walk_managers_ok:
  "ms_ok st ms \<Longrightarrow>
   \<exists>evs. walk_managers sid st ms = ok (map (fire st) ms, evs)
     \<and> (\<forall>n i. calls n i evs = (if n = sid \<and> fires st ms i then 1 else 0))"
proof (induction ms arbitrary: st)
  case Nil
  then show ?case by (simp add: fires_def)
next
  case (Cons m ms)
  obtain i c where m: "m = (i, c)" by (cases m)
  have i: "i \<notin> fst ` set ms" "i < 64" "c = EmittedTag \<longrightarrow> \<not> bit st i" "ms_ok st ms"
    using Cons.prems by (simp_all add: m ms_ok_Cons)
  show ?case
  proof (cases "bit st i")
    case True
    then obtain evs where w: "walk_managers sid (st XOR 2 ^ i) ms =
        ok (map (fire (st XOR 2 ^ i)) ms, evs)"
      and ev: "\<forall>n j. calls n j evs = (if n = sid \<and> fires (st XOR 2 ^ i) ms j then 1 else 0)"
      using Cons.IH[OF ms_ok_clear[OF i(4,2) True]] by blast
    have nz: "st \<noteq> 0" using True by auto
    have f: "fires (st XOR 2 ^ i) ms j = (j \<noteq> i \<and> fires st ms j)" for j
      using True i(2) by (auto simp: fires_def bit_clear_now)
    have f': "fires st ((i, c) # ms) j = (if j = i then (\<exists>h. c = Handler h) else fires st ms j)" for j
      using True i(1) by (auto simp: fires_def image_iff)
    show ?thesis
      using w nz True i ev
      by (auto simp: m now_and_state invoke_ok map_fire_clear f f' calls_Cons fire_def
          split: cell.splits)
  next
    case False
    then obtain evs where w: "walk_managers sid st ms = ok (map (fire st) ms, evs)"
      and ev: "\<forall>n j. calls n j evs = (if n = sid \<and> fires st ms j then 1 else 0)"
      using Cons.IH[OF i(4)] by blast
    have f': "fires st ((i, c) # ms) j = fires st ms j" for j
      using False by (auto simp: fires_def)
    have same: "fire st (i, c) = (i, c)" using False by (simp add: fire_def)
    show ?thesis
    proof (cases "st = 0")
      case True
      then have "map (fire st) ms = ms" by (simp add: fire_def map_idI)
      moreover have "fire 0 (i, c) = (i, c)" using same True by simp
      ultimately show ?thesis using True by (simp add: m fires_def)
    next
      case nz: False
      then show ?thesis using w ev False i by (simp add: m now_and_state f' same)
    qed
  qed
qed

section \<open>Emitting to every slot\<close>

definition slot_fire :: "SignalType \<Rightarrow> 'h SlotState \<Rightarrow> 'h SlotState" where
  "slot_fire ty n = n\<lparr>managers := map (fire (ty AND slot_filter n)) (managers n)\<rparr>"

lemma slot_call_ok:
  assumes "ms_ok (ty AND slot_filter n) (managers n)"
  shows "\<exists>evs. slot_call sid ty n = ok (slot_fire ty n, evs)
     \<and> (\<forall>k i. calls k i evs = (if k = sid \<and> fires (ty AND slot_filter n) (managers n) i then 1 else 0))"
proof -
  obtain evs where w: "walk_managers sid (ty AND slot_filter n) (managers n) =
      ok (map (fire (ty AND slot_filter n)) (managers n), evs)"
    and c: "\<forall>k i. calls k i evs = (if k = sid \<and> fires (ty AND slot_filter n) (managers n) i then 1 else 0)"
    using walk_managers_ok[OF assms] by blast
  then show ?thesis
    by (auto simp: slot_call_def slot_fire_def Let_def calls_Cons split: option.splits)
qed

lemma slot_call_at:
  assumes "ms_ok (ty AND slot_filter n) (managers n)"
  obtains evs where "slot_call sid ty n = ok (slot_fire ty n, evs)"
    and "\<And>k i. calls k i evs = (if k = sid \<and> fires (ty AND slot_filter n) (managers n) i then 1 else 0)"
  using slot_call_ok[OF assms] by blast

lemma emit_slots_ok:
  assumes "\<forall>n < k. ms_ok (ty AND slot_filter (ns ! n)) (managers (ns ! n))" and "k \<le> length ns"
  shows "\<exists>evs. emit_slots ty k ns = ok (map (slot_fire ty) (take k ns) @ drop k ns, evs)
     \<and> (\<forall>n i. calls n i evs =
          (if n < k \<and> fires (ty AND slot_filter (ns ! n)) (managers (ns ! n)) i then 1 else 0))"
  using assms
proof (induction k arbitrary: ns)
  case 0
  then show ?case by simp
next
  case (Suc k)
  obtain evs where s: "slot_call k ty (ns ! k) = ok (slot_fire ty (ns ! k), evs)"
    and c: "\<And>n i. calls n i evs =
      (if n = k \<and> fires (ty AND slot_filter (ns ! k)) (managers (ns ! k)) i then 1 else 0)"
    using Suc.prems by (auto intro: slot_call_at)
  let ?ns = "ns[k := slot_fire ty (ns ! k)]"
  obtain evs' where e: "emit_slots ty k ?ns = ok (map (slot_fire ty) (take k ?ns) @ drop k ?ns, evs')"
    and c': "\<forall>n i. calls n i evs' =
      (if n < k \<and> fires (ty AND slot_filter (?ns ! n)) (managers (?ns ! n)) i then 1 else 0)"
    using Suc.IH[of ?ns] Suc.prems by auto
  have "map (slot_fire ty) (take k ?ns) @ drop k ?ns = map (slot_fire ty) (take (Suc k) ns) @ drop (Suc k) ns"
    using Suc.prems(2) by (simp add: take_Suc_conv_app_nth Cons_nth_drop_Suc[symmetric] drop_update_swap)
  then show ?case using s e c c' Suc.prems(2) by (auto simp: less_Suc_eq)
qed

section \<open>Sessions\<close>

text \<open>
  A session is one signal, the log of the handlers that ran, and whether an emission ever called
  the handler behind \<open>emittedTag\<close>.  Its steps are the public operations.
\<close>

record 'h session =
  sess_signal :: "'h Signal"
  sess_log :: "'h event list"
  crashed :: bool

inductive sess_step :: "'h session \<Rightarrow> 'h session \<Rightarrow> bool" where
  S_regist: "sess_step s (s\<lparr>sess_signal := snd (registSlot flt (sess_signal s))\<rparr>)"
| S_emplace: "sid < length (slots (sess_signal s)) \<Longrightarrow>
    sess_step s (s\<lparr>sess_signal := snd (emplace sid ty h (sess_signal s))\<rparr>)"
| S_clear: "sid < length (slots (sess_signal s)) \<Longrightarrow>
    sess_step s (s\<lparr>sess_signal := snd (clear_handler sid ty (sess_signal s))\<rparr>)"
| S_filter: "sid < length (slots (sess_signal s)) \<Longrightarrow>
    sess_step s (s\<lparr>sess_signal := setFilter sid flt (sess_signal s)\<rparr>)"
| S_chain: "sid < length (slots (sess_signal s)) \<Longrightarrow>
    sess_step s (s\<lparr>sess_signal := chainedSignal sid tgt (sess_signal s)\<rparr>)"
| S_emit: "emits ty (sess_signal s) = ok (v, sg, evs) \<Longrightarrow>
    sess_step s (s\<lparr>sess_signal := sg, sess_log := sess_log s @ evs\<rparr>)"
| S_crash: "emits ty (sess_signal s) = Inl f \<Longrightarrow> sess_step s (s\<lparr>crashed := True\<rparr>)"

definition sess_init :: "'h session \<Rightarrow> bool" where
  "sess_init s \<longleftrightarrow> s = \<lparr>sess_signal = Signal_new, sess_log = [], crashed = False\<rparr>"

definition slot_ok :: "SignalType \<Rightarrow> 'h SlotState \<Rightarrow> bool" where
  "slot_ok st n \<longleftrightarrow> distinct (map fst (managers n))
     \<and> (\<forall>m \<in> set (managers n). fst m < 64 \<and> (snd m = EmittedTag \<longrightarrow> fst m < 32 \<and> bit st (fst m)))"

definition slots_ok :: "'h Signal \<Rightarrow> bool" where
  "slots_ok sg \<longleftrightarrow> (\<forall>n \<in> set (slots sg). slot_ok (sig_state sg) n)"

definition sess_ok :: "'h session \<Rightarrow> bool" where
  "sess_ok s \<longleftrightarrow> \<not> crashed s \<and> slots_ok (sess_signal s)
     \<and> (\<forall>n i. i < 32 \<longrightarrow> calls n i (sess_log s) \<le> (if bit (sig_state (sess_signal s)) i then 1 else 0))"

lemma slots_ok_nth: "slots_ok sg \<Longrightarrow> sid < length (slots sg) \<Longrightarrow> slot_ok (sig_state sg) (slots sg ! sid)"
  by (simp add: slots_ok_def)

lemma slots_ok_upd:
  "slots_ok sg \<Longrightarrow> (sid < length (slots sg) \<Longrightarrow> slot_ok (sig_state sg) (f (slots sg ! sid)))
   \<Longrightarrow> slots_ok (upd_slot sid f sg)"
  by (cases "sid < length (slots sg)")
    (auto simp: slots_ok_def upd_slot_def list_update_beyond dest!: subsetD[OF set_update_subset_insert])

lemma upd_slot_simps [simp]:
  "sig_state (upd_slot sid f sg) = sig_state sg"
  "length (slots (upd_slot sid f sg)) = length (slots sg)"
  "sid < length (slots sg) \<Longrightarrow> slots (upd_slot sid f sg) ! sid = f (slots sg ! sid)"
  by (simp_all add: upd_slot_def)

lemma set_cell_fst [simp]: "map fst (set_cell i c ms) = map fst ms"
  by (induction ms) auto

lemma set_cell_set: "m \<in> set (set_cell i c ms) \<Longrightarrow> m = (i, c) \<or> m \<in> set ms"
  by (induction ms) (auto split: if_splits)

lemma map_of_set_cell: "i \<in> fst ` set ms \<Longrightarrow> map_of (set_cell i c ms) i = Some c"
  by (induction i c ms rule: set_cell.induct) force+

lemma slot_ok_set_cell:
  "slot_ok st n \<Longrightarrow> c \<noteq> EmittedTag \<Longrightarrow> i < 64 \<Longrightarrow> slot_ok st (n\<lparr>managers := set_cell i c (managers n)\<rparr>)"
  by (auto simp: slot_ok_def dest!: set_cell_set)

lemma bits_of_exp: "i < 64 \<Longrightarrow> filter (\<lambda>n. bit (2 ^ i :: 64 word) n) [0..<64] = [i]"
proof -
  assume "i < 64"
  moreover have "filter (\<lambda>n. bit (2 ^ i :: 64 word) n) [0..<64] = filter (\<lambda>n. n = i) [0..<64]"
    by (rule filter_cong) (auto simp: bit_now)
  ultimately show ?thesis by (simp only: filter_upt_single) simp
qed

lemma exp_nz: "i < 64 \<Longrightarrow> (2 :: 64 word) ^ i \<noteq> 0"
  by (auto simp: word_eq_0_bits bit_now)

lemma countr_zero_exp [simp]: "i < 64 \<Longrightarrow> countr_zero (2 ^ i) = i"
  by (simp only: countr_zero_def bits_of_exp exp_nz) simp

lemma popcount_exp [simp]: "i < 64 \<Longrightarrow> std_popcount (2 ^ i) = 1"
  by (simp only: std_popcount_def bits_of_exp) simp

lemma popcount_one: "std_popcount w = 1 \<Longrightarrow> \<exists>i < 64. w = 2 ^ i"
proof -
  assume "std_popcount w = 1"
  then obtain i where i: "filter (\<lambda>n. bit w n) [0..<64] = [i]"
    unfolding std_popcount_def by (metis One_nat_def length_0_conv length_Suc_conv)
  have "i \<in> set (filter (\<lambda>n. bit w n) [0..<64])" by (simp only: i) simp
  then have "i < 64" by simp
  have "bit w n \<longleftrightarrow> n = i" for n
  proof -
    have "bit w n \<longleftrightarrow> n \<in> set (filter (\<lambda>n. bit w n) [0..<64])"
      by (auto dest: bit_imp_le_length)
    then show ?thesis by (simp only: i) simp
  qed
  then have "w = 2 ^ i" using \<open>i < 64\<close> by (intro bit_eqI) (auto simp: bit_now)
  with \<open>i < 64\<close> show ?thesis by blast
qed

lemma one_bit_cases:
  obtains (one) i where "i < 64" "ty = 2 ^ i" | (other) "std_popcount ty \<noteq> 1"
  using popcount_one by blast

text \<open>What the two operations on handlers do, on a type with exactly one bit.\<close>

lemma emplace_exp:
  assumes "i < 64"
  shows "emplace sid (2 ^ i) h sg =
    (let node = snd (loadHandler_emplace i (slots sg ! sid)); s1 = upd_slot sid (\<lambda>_. node) sg
     in if i < 32 \<and> bit (sig_state sg) i \<or> fst (loadHandler_emplace i (slots sg ! sid)) = EmittedTag
        then (ok False, s1)
        else (ok True, upd_slot sid (\<lambda>n. n\<lparr>managers := set_cell i (Handler h) (managers n)\<rparr>) s1))"
proof -
  have "sig_state sg AND 2 ^ i = 0 \<longleftrightarrow> \<not> bit (sig_state sg) i"
    using now_and_state[OF assms, of "sig_state sg"] by (simp add: and.commute)
  then show ?thesis
    using assms
    by (auto simp: emplace_def Let_def multi_trigger_index split: prod.splits cell.splits)
qed

lemma clear_exp:
  assumes "i < 64"
  shows "clear_handler sid (2 ^ i) sg =
    (case map_of (managers (slots sg ! sid)) i of
       Some (Handler h) \<Rightarrow>
         (ok True, upd_slot sid (\<lambda>n. n\<lparr>managers := set_cell i Null (managers n)\<rparr>) sg)
     | _ \<Rightarrow> (ok False, sg))"
  using assms by (simp add: clear_handler_def loadHandler_find_def Let_def split: option.splits cell.splits)

lemma emplace_not_one: "std_popcount ty \<noteq> 1 \<Longrightarrow> snd (emplace sid ty h sg) = sg"
  by (simp add: emplace_def)

lemma clear_not_one: "std_popcount ty \<noteq> 1 \<Longrightarrow> snd (clear_handler sid ty sg) = sg"
  by (simp add: clear_handler_def)

lemma slot_ok_load:
  "slot_ok st n \<Longrightarrow> i < 64 \<Longrightarrow> slot_ok st (snd (loadHandler_emplace i n))"
  by (auto simp: slot_ok_def loadHandler_emplace_def map_of_eq_None_iff image_iff split: option.splits)

lemma load_emitted:
  "slot_ok st n \<Longrightarrow> fst (loadHandler_emplace i n) = EmittedTag \<Longrightarrow> i < 32 \<and> bit st i"
  by (auto simp: slot_ok_def loadHandler_emplace_def split: option.splits dest: map_of_SomeD)

lemma emplace_state: "sig_state (snd (emplace sid ty h sg)) = sig_state sg"
  by (cases ty rule: one_bit_cases) (auto simp: emplace_exp emplace_not_one Let_def)

lemma clear_state: "sig_state (snd (clear_handler sid ty sg)) = sig_state sg"
  by (cases ty rule: one_bit_cases)
    (auto simp: clear_exp clear_not_one split: option.splits cell.splits)

lemma slots_ok_emplace:
  assumes "slots_ok sg"
  shows "slots_ok (snd (emplace sid ty h sg))"
proof (cases ty rule: one_bit_cases)
  case i: (one i)
  let ?s1 = "upd_slot sid (\<lambda>_. snd (loadHandler_emplace i (slots sg ! sid))) sg"
  have s1: "slots_ok ?s1" using assms i(1) by (intro slots_ok_upd) (auto intro: slot_ok_load slots_ok_nth)
  moreover have "slots_ok (upd_slot sid (\<lambda>n. n\<lparr>managers := set_cell i (Handler h) (managers n)\<rparr>) ?s1)"
    using slots_ok_nth[OF s1, of sid] i(1) by (intro slots_ok_upd[OF s1] slot_ok_set_cell) auto
  ultimately show ?thesis by (simp add: i emplace_exp Let_def)
qed (simp add: assms emplace_not_one)

lemma slots_ok_clear:
  assumes "slots_ok sg"
  shows "slots_ok (snd (clear_handler sid ty sg))"
proof (cases ty rule: one_bit_cases)
  case i: (one i)
  have "slots_ok (upd_slot sid (\<lambda>n. n\<lparr>managers := set_cell i Null (managers n)\<rparr>) sg)"
    using slots_ok_nth[OF assms] i(1) by (intro slots_ok_upd[OF assms] slot_ok_set_cell) auto
  then show ?thesis using assms by (simp add: i clear_exp split: option.splits cell.splits)
qed (simp add: assms clear_not_one)

text \<open>Emission: the bits that are delivered, the handlers that run, and what it leaves behind.\<close>

definition delivered :: "SignalType \<Rightarrow> 'h Signal \<Rightarrow> nat \<Rightarrow> nat \<Rightarrow> bool" where
  "delivered v sg n i \<longleftrightarrow> n < length (slots sg)
     \<and> fires (v AND slot_filter (slots sg ! n)) (managers (slots sg ! n)) i"

lemma fire_none: "map (fire 0) ms = ms"
  by (rule map_idI) (simp add: fire_def)

lemma slot_ok_ms_ok:
  assumes "slot_ok st n" and "\<And>i. i < 32 \<Longrightarrow> bit v i \<Longrightarrow> \<not> bit st i"
  shows "ms_ok (v AND slot_filter n) (managers n)"
  using assms by (auto simp: slot_ok_def ms_ok_def bit_and_iff)

lemma slot_ok_fire:
  assumes "slot_ok st n" and "\<And>i. bit v i \<Longrightarrow> bit ty i"
  shows "slot_ok (st OR ty) (slot_fire v n)"
  using assms
  by (auto simp: slot_ok_def slot_fire_def fire_def bit_and_iff bit_or_iff comp_def split: if_splits)

lemma UpdateState_bit: "bit (fst (UpdateState st ty)) i \<longleftrightarrow> bit ty i \<and> (\<not> bit st i \<or> 32 \<le> i)"
  using UpdateState_bits[of i st ty] by (cases "i < 64") (auto dest: bit_imp_le_length)

lemma emits_ok:
  fixes sg :: "'h Signal" and ty :: SignalType
  assumes "slots_ok sg"
  defines "v \<equiv> fst (UpdateState (sig_state sg) ty)"
  shows "\<exists>evs. emits ty sg = ok (v, sg\<lparr>sig_state := sig_state sg OR ty, slots := map (slot_fire v) (slots sg)\<rparr>, evs)
     \<and> (\<forall>n i. calls n i evs = (if delivered v sg n i then 1 else 0))"
proof -
  have "\<forall>n < length (slots sg). ms_ok (v AND slot_filter (slots sg ! n)) (managers (slots sg ! n))"
    by (auto intro!: slot_ok_ms_ok[OF slots_ok_nth[OF assms(1)]] simp: v_def UpdateState_bit)
  then obtain evs where e: "emit_slots v (length (slots sg)) (slots sg) =
      ok (map (slot_fire v) (slots sg), evs)"
    and c: "\<forall>n i. calls n i evs = (if delivered v sg n i then 1 else 0)"
    using emit_slots_ok[of "length (slots sg)" v "slots sg"] by (auto simp: delivered_def)
  have idle: "map (slot_fire 0) (slots sg) = slots sg"
    by (rule map_idI) (simp add: slot_fire_def fire_none)
  show ?thesis
  proof (cases "v = 0")
    case True
    have "ty = 0 \<Longrightarrow> v = 0" by (simp add: v_def UpdateState_def)
    moreover have "sig_state sg OR ty = sig_state sg"
      using True UpdateState_bit[of "sig_state sg" ty]
      by (auto simp: v_def bit_eq_iff bit_or_iff)
    ultimately show ?thesis
      using True idle
      by (auto simp: emits_def v_def UpdateState_state delivered_def fires_def
          split: prod.splits dest: arg_cong[of _ _ snd])
  next
    case False
    then have "ty \<noteq> 0" by (auto simp: v_def UpdateState_def)
    then show ?thesis
      using False e c UpdateState_state[of "sig_state sg" ty]
      by (auto simp: emits_def v_def split: prod.splits)
  qed
qed

lemma slots_ok_emits:
  assumes "slots_ok sg" and "emits ty sg = ok (v, sg', evs)"
  shows "slots_ok sg'"
proof -
  have "sg' = sg\<lparr>sig_state := sig_state sg OR ty, slots := map (slot_fire v) (slots sg)\<rparr>"
    and "v = fst (UpdateState (sig_state sg) ty)"
    using emits_ok[OF assms(1), of ty] assms(2) by auto
  then show ?thesis
    using assms(1) by (auto simp: slots_ok_def UpdateState_bit intro: slot_ok_fire)
qed

lemma sess_init_ok: "sess_init s \<Longrightarrow> sess_ok s"
  by (simp add: sess_init_def sess_ok_def slots_ok_def Signal_new_def)

lemma sess_step_ok:
  assumes "sess_ok s" and "sess_step s t"
  shows "sess_ok t"
  using assms(2,1)
proof (cases rule: sess_step.cases)
  case (S_regist flt)
  then show ?thesis using assms(1) by (auto simp: sess_ok_def slots_ok_def registSlot_def slot_ok_def)
next
  case (S_emplace sid ty h)
  then show ?thesis using assms(1) by (simp add: sess_ok_def slots_ok_emplace emplace_state)
next
  case (S_clear sid ty)
  then show ?thesis using assms(1) by (simp add: sess_ok_def slots_ok_clear clear_state)
next
  case (S_filter sid flt)
  then show ?thesis using assms(1)
    by (auto simp: sess_ok_def setFilter_def slot_ok_def intro!: slots_ok_upd dest: slots_ok_nth)
next
  case (S_chain sid tgt)
  then show ?thesis using assms(1)
    by (auto simp: sess_ok_def chainedSignal_def slot_ok_def intro!: slots_ok_upd dest: slots_ok_nth)
next
  case (S_emit ty v sg evs)
  have ok: "slots_ok (sess_signal s)" using assms(1) by (simp add: sess_ok_def)
  have e: "sig_state sg = sig_state (sess_signal s) OR ty"
      "v = fst (UpdateState (sig_state (sess_signal s)) ty)"
      "\<And>n i. calls n i evs = (if delivered v (sess_signal s) n i then 1 else 0)"
    using emits_ok[OF ok, of ty] S_emit(2) by auto
  have "calls n i (sess_log t) \<le> (if bit (sig_state sg) i then 1 else 0)" if "i < 32" for n i
  proof -
    have "calls n i (sess_log s) \<le> (if bit (sig_state (sess_signal s)) i then 1 else 0)"
      using assms(1) that by (simp add: sess_ok_def)
    moreover have "calls n i evs \<le> (if bit ty i \<and> \<not> bit (sig_state (sess_signal s)) i then 1 else 0)"
      using that e(2) by (simp add: e(3) delivered_def fires_def bit_and_iff UpdateState_bit)
    ultimately show ?thesis using S_emit(1) by (auto simp: e(1) bit_or_iff split: if_splits)
  qed
  then show ?thesis using S_emit assms(1) slots_ok_emits[OF ok S_emit(2)] by (simp add: sess_ok_def)
next
  case (S_crash ty f)
  then show ?thesis using assms(1) emits_ok[of "sess_signal s" ty] by (auto simp: sess_ok_def)
qed

interpretation sess: inv_system sess_init sess_step sess_ok
  by unfold_locales (rule sess_init_ok, assumption, rule sess_step_ok)

section \<open>Properties\<close>

text \<open>
  C11.  Signals and their slots, under any sequence of registrations, handler changes, filter
  changes, chained signals and emissions: an emission never calls the placeholder handler that
  marks an already delivered signal, a handler position for a low signal (index below 32) runs at
  most once in the whole life of the signal, and it has run only if the signal was triggered.
\<close>

theorem signal_trigger_once:
  assumes "reach sess_init sess_step s"
  shows "\<not> crashed s \<and>
    (\<forall>sid i. i < 32 \<longrightarrow> calls sid i (sess_log s) \<le> 1 \<and>
       (0 < calls sid i (sess_log s) \<longrightarrow> bit (sig_state (sess_signal s)) i))"
proof -
  have ok: "sess_ok s" using assms by (rule sess.reach_inv)
  then have "calls sid i (sess_log s) \<le> (if bit (sig_state (sess_signal s)) i then 1 else 0)"
    if "i < 32" for sid i
    using that by (simp add: sess_ok_def)
  then have "calls sid i (sess_log s) \<le> 1 \<and>
      (0 < calls sid i (sess_log s) \<longrightarrow> bit (sig_state (sess_signal s)) i)" if "i < 32" for sid i
    using that by (fastforce split: if_splits)
  then show ?thesis using ok by (simp add: sess_ok_def)
qed

definition demo_sess :: "nat session" where
  "demo_sess = \<lparr>sess_signal = snd (emplace 0 Terminate 7 (snd (registSlot All_signals Signal_new))),
     sess_log = [], crashed = False\<rparr>"

lemma demo_sess_reach: "reach sess_init sess_step demo_sess"
proof -
  let ?a = "\<lparr>sess_signal = Signal_new, sess_log = [], crashed = False\<rparr> :: nat session"
  let ?b = "?a\<lparr>sess_signal := snd (registSlot All_signals (sess_signal ?a))\<rparr>"
  let ?c = "?b\<lparr>sess_signal := snd (emplace 0 Terminate 7 (sess_signal ?b))\<rparr>"
  have "reach sess_init sess_step ?a" by (rule reach_init) (simp add: sess_init_def)
  then have "reach sess_init sess_step ?b" by (rule reach_step) (rule S_regist)
  then have "reach sess_init sess_step ?c"
    by (rule reach_step) (rule S_emplace, simp add: registSlot_def)
  then show ?thesis by (simp add: demo_sess_def)
qed

lemma demo_sess_signal:
  "sess_signal demo_sess =
     \<lparr>sig_state = 0, slots = [\<lparr>managers = [(0, Handler 7)], chained = None, slot_filter = - 1\<rparr>]\<rparr>"
proof -
  have "sess_signal demo_sess = snd (emplace 0 (2 ^ 0) 7 (snd (registSlot All_signals Signal_new)))"
    by (simp add: demo_sess_def)
  also have "\<dots> = \<lparr>sig_state = 0,
      slots = [\<lparr>managers = [(0, Handler 7)], chained = None, slot_filter = - 1\<rparr>]\<rparr>"
    by (subst emplace_exp)
      (simp_all add: registSlot_def Signal_new_def loadHandler_emplace_def upd_slot_def Let_def)
  finally show ?thesis .
qed

theorem signal_trigger_once_witness: "reach sess_init sess_step demo_sess \<and> \<not> crashed demo_sess"
  using signal_trigger_once[OF demo_sess_reach] demo_sess_reach by simp

text \<open>
  C19.  What one emission does in any reachable session: it never fails; it returns exactly the
  requested signals that are new or may trigger repeatedly (index at least 32); the signal's state
  gains exactly the requested bits; and in every slot a handler runs exactly once if its signal is
  returned, passes the slot's filter and has a handler, and otherwise it does not run.
\<close>

theorem emits_delivers:
  assumes "reach sess_init sess_step s" and "sg = sess_signal s"
  shows "\<exists>v sg' evs. emits ty sg = ok (v, sg', evs)
    \<and> (\<forall>i. bit v i = (bit ty i \<and> (\<not> bit (sig_state sg) i \<or> 32 \<le> i)))
    \<and> sig_state sg' = sig_state sg OR ty
    \<and> (\<forall>sid i. calls sid i evs =
         (if sid < length (slots sg) \<and> bit v i \<and> bit (slot_filter (slots sg ! sid)) i
             \<and> (\<exists>h. (i, Handler h) \<in> set (managers (slots sg ! sid))) then 1 else 0))"
proof -
  have "slots_ok sg" using sess.reach_inv[OF assms(1)] assms(2) by (simp add: sess_ok_def)
  then obtain evs where e: "emits ty sg = ok (fst (UpdateState (sig_state sg) ty),
        sg\<lparr>sig_state := sig_state sg OR ty,
           slots := map (slot_fire (fst (UpdateState (sig_state sg) ty))) (slots sg)\<rparr>, evs)"
    and c: "\<forall>sid i. calls sid i evs =
      (if delivered (fst (UpdateState (sig_state sg) ty)) sg sid i then 1 else 0)"
    using emits_ok by blast
  show ?thesis
    by (intro exI conjI, rule e) (simp_all add: c UpdateState_bit delivered_def fires_def bit_and_iff)
qed

theorem emits_delivers_witness:
  "\<exists>v sg' evs. emits Terminate (sess_signal demo_sess) = ok (v, sg', evs) \<and> v = 1
     \<and> sig_state sg' = 1 \<and> calls 0 0 evs = 1"
proof -
  obtain v sg' evs where e: "emits Terminate (sess_signal demo_sess) = ok (v, sg', evs)"
      "\<forall>i. bit v i = (bit (1 :: 64 word) i \<and> (\<not> bit (sig_state (sess_signal demo_sess)) i \<or> 32 \<le> i))"
      "sig_state sg' = sig_state (sess_signal demo_sess) OR 1"
      "\<forall>sid i. calls sid i evs =
         (if sid < length (slots (sess_signal demo_sess)) \<and> bit v i
             \<and> bit (slot_filter (slots (sess_signal demo_sess) ! sid)) i
             \<and> (\<exists>h. (i, Handler h) \<in> set (managers (slots (sess_signal demo_sess) ! sid))) then 1 else 0)"
    using emits_delivers[OF demo_sess_reach refl, of Terminate] by blast
  have "v = 1" using e(2) by (intro bit_word_eqI) (auto simp: demo_sess_signal)
  then show ?thesis using e by (simp add: demo_sess_signal)
qed

text \<open>
  Installing a handler in a reachable session, for a signal with index \<open>i\<close>: \<open>emplace\<close> refuses
  exactly when the signal triggers once and has already been triggered; otherwise the slot holds
  the new handler afterwards, and a following \<open>clear\<close> finds and removes it.  Types with no bit or
  several bits are refused with a logic error.
\<close>

theorem emplace_outcome:
  assumes "reach sess_init sess_step s" and "sg = sess_signal s"
    and "sid < length (slots sg)" and "i < 64"
  shows "fst (emplace sid (2 ^ i) h sg) = ok (\<not> (i < 32 \<and> bit (sig_state sg) i))
    \<and> (\<not> (i < 32 \<and> bit (sig_state sg) i) \<longrightarrow>
        loadHandler_find i (slots (snd (emplace sid (2 ^ i) h sg)) ! sid) = Some (Handler h)
        \<and> fst (clear_handler sid (2 ^ i) (snd (emplace sid (2 ^ i) h sg))) = ok True)
    \<and> (std_popcount ty \<noteq> 1 \<longrightarrow> emplace sid ty h sg =
        (throw (Logic_error ''It's not allow to emplace for multiple signals''), sg))"
proof -
  let ?n = "slots sg ! sid"
  have so: "slot_ok (sig_state sg) ?n"
    using sess.reach_inv[OF assms(1)] assms(2,3) by (auto simp: sess_ok_def intro: slots_ok_nth)
  have dec: "(i < 32 \<and> bit (sig_state sg) i \<or> fst (loadHandler_emplace i ?n) = EmittedTag)
      = (i < 32 \<and> bit (sig_state sg) i)"
    using load_emitted[OF so, of i] by blast
  have "i \<in> fst ` set (managers (snd (loadHandler_emplace i ?n)))"
    by (auto simp: loadHandler_emplace_def image_iff split: option.splits dest!: map_of_SomeD)
      (metis fst_conv)
  then have look: "map_of (set_cell i (Handler h) (managers (snd (loadHandler_emplace i ?n)))) i
      = Some (Handler h)" by (rule map_of_set_cell)
  show ?thesis
  proof (cases "i < 32 \<and> bit (sig_state sg) i")
    case True
    then show ?thesis using assms(4) by (simp add: emplace_exp Let_def) (simp add: emplace_def)
  next
    case False
    let ?s = "upd_slot sid (\<lambda>n. n\<lparr>managers := set_cell i (Handler h) (managers n)\<rparr>)
        (upd_slot sid (\<lambda>_. snd (loadHandler_emplace i ?n)) sg)"
    have e: "emplace sid (2 ^ i) h sg = (ok True, ?s)"
      using False dec assms(4) by (simp add: emplace_exp Let_def)
    have "map_of (managers (slots ?s ! sid)) i = Some (Handler h)"
      using look assms(3) by simp
    then show ?thesis using False assms(4) by (simp add: e clear_exp loadHandler_find_def) (simp add: emplace_def)
  qed
qed

theorem emplace_outcome_witness:
  "fst (emplace 0 Terminate 9 (sess_signal demo_sess)) = ok True"
  using emplace_outcome[OF demo_sess_reach refl, of 0 0 9 0]
  by (simp add: demo_sess_signal)

text \<open>
  Scoped filters nest: inside two guards the slot's filter is the conjunction of the three
  filters, and leaving the scopes in order restores the signal exactly.
\<close>

theorem filter_guards_nest:
  assumes "sid < length (slots sg)"
  shows "let (f1, s1) = FilterGuard_new sid a sg; (f2, s2) = FilterGuard_new sid b s1
    in getFilter sid s2 = getFilter sid sg AND a AND b
       \<and> FilterGuard_delete sid f2 s2 = s1 \<and> FilterGuard_delete sid f1 s1 = sg"
  using assms
  by (simp add: FilterGuard_new_def FilterGuard_delete_def getFilter_def setFilter_def upd_slot_def
      Let_def and.assoc)

theorem filter_guards_nest_witness:
  "getFilter 0 (snd (FilterGuard_new 0 3 (snd (FilterGuard_new 0 5 (sess_signal demo_sess))))) = 1"
  using filter_guards_nest[of 0 "sess_signal demo_sess" 5 3]
  by (simp add: demo_sess_signal getFilter_def split: prod.splits)

text \<open>
  \<open>signalHelper::checkHasCanceled\<close> asks whether \<open>Terminate\<close> was triggered, not whether the
  helper's own signal was.  For the helper of \<open>Terminate\<close> it throws exactly when its handler is
  gone and the signal passed the filter.  For any other signal that has been triggered and passed
  the filter while \<open>Terminate\<close> has not, \<open>hasCanceled\<close> reports the cancellation and
  \<open>checkHasCanceled\<close> does not throw.
\<close>

theorem checkHasCanceled_other_signal:
  assumes "i < 64" and "bit (sig_state sg) i" and "bit (slot_filter (slots sg ! sid)) i"
    and "\<not> bit (sig_state sg) 0"
  shows "hasCanceled (2 ^ i) (Some sid) sg \<and> fst (checkHasCanceled (2 ^ i) (Some sid) msg sg) = ok ()"
proof
  have "bit ((sig_state sg AND 2 ^ i) AND slot_filter (slots sg ! sid)) i"
    using assms by (simp add: bit_and_iff bit_now)
  then show "hasCanceled (2 ^ i) (Some sid) sg"
    by (auto simp: hasCanceled_def hasTriggered_def triggered_def)
  have "\<not> canceled k (sg' :: 'a Signal)" if "sig_state sg' = sig_state sg" for k sg'
  proof -
    have "sig_state sg AND 1 = 0" using assms(4) by (auto simp: word_eq_0_bits bit_and_iff bit_1_iff intro!: gr0I)
    then show ?thesis using that by (simp add: canceled_def hasTriggered_def triggered_def)
  qed
  then show "fst (checkHasCanceled (2 ^ i) (Some sid) msg sg) = ok ()"
    using assms(1) clear_state[of sid "2 ^ i" sg]
    by (auto simp: checkHasCanceled_def clear_exp split: option.splits cell.splits)
qed

theorem checkHasCanceled_other_signal_witness:
  "fst (checkHasCanceled 4 (Some 0) [] \<lparr>sig_state = 4,
     slots = [\<lparr>managers = [], chained = None, slot_filter = - 1\<rparr> :: nat SlotState]\<rparr>) = ok ()"
  using checkHasCanceled_other_signal[of 2 "\<lparr>sig_state = 4,
     slots = [\<lparr>managers = [], chained = None, slot_filter = - 1\<rparr> :: nat SlotState]\<rparr>" 0 "[]"]
  by simp

end
