(* ===== verification/Ownership_Base.thy ===== *)
theory Ownership_Base
  imports Prelude "HOL-Library.Multiset"
begin

text \<open>
  Linear ownership.  A program has a list of objects, and \<open>hold\<close> says which resources an object owns; an
  \<open>empty\<close> object owns none.  The lemmas follow what all objects together own when one of them changes
  or when resources move between two of them.
\<close>

locale owners =
  fixes hold :: "'o \<Rightarrow> 'r multiset"
    and empty :: 'o
  assumes hold_empty: "hold empty = {#}"
begin

lemma total_update:
  "x < length vs \<Longrightarrow> sum_list (map hold (vs[x := v])) + hold (vs ! x) = sum_list (map hold vs) + hold v"
proof (induction vs arbitrary: x)
  case (Cons w vs)
  then show ?case by (cases x) (auto simp: ac_simps)
qed simp

text \<open>What the objects other than \<open>x\<close> own.\<close>

abbreviation others :: "nat \<Rightarrow> 'o list \<Rightarrow> 'r multiset" where
  "others x vs \<equiv> sum_list (map hold (vs[x := empty]))"

lemma total_others:
  assumes "x < length vs"
  shows "sum_list (map hold vs) = others x vs + hold (vs ! x)"
    and "sum_list (map hold (vs[x := v])) = others x vs + hold v"
  using total_update[OF assms, of empty] total_update[of x "vs[x := empty]" v] assms hold_empty
  by simp_all

text \<open>Two objects change and own together what they owned before.\<close>

lemma total_exchange:
  assumes "x < length vs" and "y < length vs" and "x \<noteq> y" and "hold (vs ! x) + hold (vs ! y) = hold v + hold w"
  shows "sum_list (map hold (vs[y := w, x := v])) = sum_list (map hold vs)"
proof -
  let ?T = "\<lambda>us. sum_list (map hold us)"
  have "?T (vs[y := w, x := v]) + hold (vs ! x) = ?T (vs[y := w]) + hold v"
    using total_update[of x "vs[y := w]" v] assms(1,3) by simp
  moreover have "?T (vs[y := w]) + hold (vs ! y) = ?T vs + hold w" by (rule total_update[OF assms(2)])
  ultimately have "?T (vs[y := w, x := v]) + (hold (vs ! x) + hold (vs ! y)) = ?T vs + (hold v + hold w)"
    by (metis (no_types, opaque_lifting) add.assoc add.commute)
  then show ?thesis using assms(4) by simp
qed

lemma total_empty: "set vs \<subseteq> {empty} \<Longrightarrow> sum_list (map hold vs) = {#}"
  by (induction vs) (auto simp: hold_empty)

lemma total_none: "(\<And>v. v \<in> set vs \<Longrightarrow> hold v = {#}) \<Longrightarrow> sum_list (map hold vs) = {#}"
  by (induction vs) auto

lemma held_by_member: "v \<in> set vs \<Longrightarrow> hold v \<subseteq># sum_list (map hold vs)"
  by (induction vs) (auto intro: subset_mset.add_increasing subset_mset.add_increasing2)

end

end
