(* ===== verification/SignalRace_Model.thy ===== *)
theory SignalRace_Model
  imports Signal_Model Ownership_Base
begin

text \<open>
  The race between \<open>Signal::emits\<close> and the operations of a slot (async_simple/Signal.h), at the level of
  their atomic accesses.

  Any number of threads emit one signal; the thread that owns a slot meanwhile installs and clears
  handlers for that signal.  Handlers are numbered as they are made.  \<open>multi\<close> says whether the signal is
  one that can be triggered several times.

  The owner publishes the cell of its first handler with a release store and then reads the state of
  the signal.  With \<open>buffered\<close> that store may stay in the store buffer of the owner's processor until the
  owner's next compare-and-exchange, as the memory orders in the code allow; without it memory is
  sequentially consistent.  The filter of the slot lets the signal through.
\<close>

section \<open>The two sides\<close>

datatype emit_pc =
    E_load
  | E_cas
  | E_walk
  | E_invoke
  | E_call nat
  | E_delete nat
  | E_done bool
  | E_lost

datatype slot_pc =
    O_idle
  | O_state nat
  | O_old nat
  | O_cas nat "nat cell"
  | O_clear
  | O_clear_cas "nat cell"
  | O_delete "nat cell"

record race =
  r_state :: bool
  r_cell :: "nat cell option"
  r_visible :: bool
  r_emit :: "emit_pc list"
  r_slot :: slot_pc
  r_next :: nat
  r_called :: "nat list"
  r_deleted :: "nat list"
  r_true :: "nat list"
  r_refused :: "nat list"
  r_removed :: "nat list"
  r_failure :: "failure option"

definition use_handler :: "nat \<Rightarrow> race \<Rightarrow> race" where
  "use_handler n s =
     (if n \<in> set (r_deleted s) then s\<lparr>r_failure := Some (Undefined ''handler used after delete'')\<rparr>
      else s\<lparr>r_called := r_called s @ [n]\<rparr>)"

definition delete_handler :: "nat \<Rightarrow> race \<Rightarrow> race" where
  "delete_handler n s =
     (if n \<in> set (r_deleted s) then s\<lparr>r_failure := Some (Undefined ''handler deleted twice'')\<rparr>
      else s\<lparr>r_deleted := r_deleted s @ [n]\<rparr>)"

abbreviation at_emit :: "nat \<Rightarrow> emit_pc \<Rightarrow> race \<Rightarrow> race" where
  "at_emit i pc s \<equiv> s\<lparr>r_emit := (r_emit s)[i := pc]\<rparr>"

text \<open>
  \<open>emits\<close> in thread \<open>i\<close>: \<open>UpdateState\<close>, the walk to the handler of the slot, and \<open>invoke\<close>.  \<open>E_done saw\<close>: the
  emission is over, and \<open>saw\<close> says whether it found the cell; \<open>E_lost\<close>: the signal was triggered already.
  \<open>weak_fails\<close> is a spurious failure of the weak compare-and-exchange, which reloads the expected state.
\<close>

definition update_expected :: "bool \<Rightarrow> race \<Rightarrow> emit_pc" where
  "update_expected multi s = (if r_state s then if multi then E_walk else E_lost else E_cas)"

definition emit_step :: "bool \<Rightarrow> bool \<Rightarrow> nat \<Rightarrow> race \<Rightarrow> race option" where
  "emit_step multi weak_fails i s =
     (case r_emit s ! i of
        E_load \<Rightarrow> Some (at_emit i (update_expected multi s) s)
      | E_cas \<Rightarrow>
          if weak_fails \<or> r_state s then Some (at_emit i (update_expected multi s) s)
          else Some (at_emit i E_walk (s\<lparr>r_state := True\<rparr>))
      | E_walk \<Rightarrow> Some (at_emit i (if r_cell s \<noteq> None \<and> r_visible s then E_invoke else E_done False) s)
      | E_invoke \<Rightarrow>
          (case the (r_cell s) of
             Null \<Rightarrow> Some (at_emit i (E_done True) (if multi then s else s\<lparr>r_cell := Some EmittedTag\<rparr>))
           | EmittedTag \<Rightarrow> Some (s\<lparr>r_failure := Some (Throws Bad_function_call)\<rparr>)
           | Handler n \<Rightarrow> Some (at_emit i (E_call n) (if multi then s else s\<lparr>r_cell := Some EmittedTag\<rparr>)))
      | E_call n \<Rightarrow> Some (at_emit i (if multi then E_done True else E_delete n) (use_handler n s))
      | E_delete n \<Rightarrow> Some (at_emit i (E_done True) (delete_handler n s))
      | E_done _ \<Rightarrow> None
      | E_lost \<Rightarrow> None)"

text \<open>
  The owner: \<open>emplace\<close> of a new handler and \<open>clear\<close>.  A handler that is refused dies with its \<open>unique_ptr\<close>.
\<close>

definition refuse :: "nat \<Rightarrow> race \<Rightarrow> race" where
  "refuse n s = (delete_handler n (s\<lparr>r_refused := r_refused s @ [n]\<rparr>))\<lparr>r_slot := O_idle\<rparr>"

fun handlers :: "nat cell \<Rightarrow> nat list" where
  "handlers (Handler n) = [n]"
| "handlers _ = []"

definition emplace_begin :: "bool \<Rightarrow> race \<Rightarrow> race" where
  "emplace_begin buffered s =
     (let s1 = s\<lparr>r_next := r_next s + 1, r_slot := O_state (r_next s)\<rparr>
      in case r_cell s of
           None \<Rightarrow> s1\<lparr>r_cell := Some Null, r_visible := \<not> buffered\<rparr>
         | Some _ \<Rightarrow> s1)"

definition slot_step :: "bool \<Rightarrow> race \<Rightarrow> race option" where
  "slot_step multi s =
     (case r_slot s of
        O_idle \<Rightarrow> None
      | O_state n \<Rightarrow> Some (if \<not> multi \<and> r_state s then refuse n s else s\<lparr>r_slot := O_old n\<rparr>)
      | O_old n \<Rightarrow>
          Some (if the (r_cell s) = EmittedTag then refuse n s else s\<lparr>r_slot := O_cas n (the (r_cell s))\<rparr>)
      | O_cas n old \<Rightarrow>
          Some (if r_cell s = Some old
                then s\<lparr>r_cell := Some (Handler n), r_visible := True, r_true := r_true s @ [n],
                       r_removed := r_removed s @ handlers old, r_slot := O_delete old\<rparr>
                else if r_cell s = Some EmittedTag then refuse n (s\<lparr>r_visible := True\<rparr>)
                else s\<lparr>r_failure := Some (Assert_fail ''oldHandler == &emittedTag'')\<rparr>)
      | O_clear \<Rightarrow>
          Some (case r_cell s of
                  Some (Handler n) \<Rightarrow> s\<lparr>r_slot := O_clear_cas (Handler n)\<rparr> | _ \<Rightarrow> s\<lparr>r_slot := O_idle\<rparr>)
      | O_clear_cas old \<Rightarrow>
          Some (if r_cell s = Some old
                then s\<lparr>r_cell := Some Null, r_visible := True, r_removed := r_removed s @ handlers old, r_slot := O_delete old\<rparr>
                else if r_cell s = Some EmittedTag then s\<lparr>r_visible := True, r_slot := O_idle\<rparr>
                else s\<lparr>r_failure := Some (Assert_fail ''oldHandler == &emittedTag'')\<rparr>)
      | O_delete old \<Rightarrow> Some ((fold delete_handler (handlers old) s)\<lparr>r_slot := O_idle\<rparr>))"

inductive race_step :: "bool \<Rightarrow> bool \<Rightarrow> race \<Rightarrow> race \<Rightarrow> bool" for multi buffered where
  emitter: "i < length (r_emit s) \<Longrightarrow> emit_step multi weak_fails i s = Some t \<Longrightarrow> race_step multi buffered s t"
| owner: "slot_step multi s = Some t \<Longrightarrow> race_step multi buffered s t"
| emplace: "r_slot s = O_idle \<Longrightarrow> race_step multi buffered s (emplace_begin buffered s)"
| clear: "r_slot s = O_idle \<Longrightarrow> race_step multi buffered s (s\<lparr>r_slot := O_clear\<rparr>)"
| drain: "r_cell s \<noteq> None \<Longrightarrow> race_step multi buffered s (s\<lparr>r_visible := True\<rparr>)"

definition race_new :: "nat \<Rightarrow> race" where
  "race_new k =
     \<lparr>r_state = False, r_cell = None, r_visible = False, r_emit = replicate k E_load, r_slot = O_idle, r_next = 0, r_called = [],
      r_deleted = [], r_true = [], r_refused = [], r_removed = [], r_failure = None\<rparr>"

definition race_init :: "race \<Rightarrow> bool" where
  "race_init s \<longleftrightarrow> (\<exists>k. s = race_new k)"

section \<open>Invariant of a one-shot signal in consistent memory\<close>

fun won :: "emit_pc \<Rightarrow> bool" where
  "won E_load = False"
| "won E_cas = False"
| "won E_lost = False"
| "won _ = True"

text \<open>What an emitter, the owner and the cell hold: handlers to be called, and handlers to be deleted.\<close>

fun call_hand :: "emit_pc \<Rightarrow> nat multiset" where
  "call_hand (E_call n) = {#n#}"
| "call_hand _ = {#}"

fun free_hand :: "emit_pc \<Rightarrow> nat multiset" where
  "free_hand (E_call n) = {#n#}"
| "free_hand (E_delete n) = {#n#}"
| "free_hand _ = {#}"

fun slot_new :: "slot_pc \<Rightarrow> nat multiset" where
  "slot_new (O_state n) = {#n#}"
| "slot_new (O_old n) = {#n#}"
| "slot_new (O_cas n _) = {#n#}"
| "slot_new _ = {#}"

fun slot_old :: "slot_pc \<Rightarrow> nat multiset" where
  "slot_old (O_delete old) = mset (handlers old)"
| "slot_old _ = {#}"

fun cell_hand :: "nat cell option \<Rightarrow> nat multiset" where
  "cell_hand (Some c) = mset (handlers c)"
| "cell_hand None = {#}"

interpretation ch: owners call_hand E_load
  by unfold_locales simp

interpretation fh: owners free_hand E_load
  by unfold_locales simp

text \<open>
  Every handler made is deleted or held by one party; it was installed, refused, or its \<open>emplace\<close> is not
  over; and an installed one was called, was removed, or is still to be called.
\<close>

definition made :: "nat \<Rightarrow> nat multiset" where
  "made k = mset [0..<k]"

definition mem_ok :: "race \<Rightarrow> bool" where
  "mem_ok s \<longleftrightarrow> made (r_next s) = mset (r_deleted s)
     + (cell_hand (r_cell s) + sum_list (map free_hand (r_emit s)) + slot_new (r_slot s) + slot_old (r_slot s))"

definition made_ok :: "race \<Rightarrow> bool" where
  "made_ok s \<longleftrightarrow> made (r_next s) = mset (r_true s) + (mset (r_refused s) + slot_new (r_slot s))"

definition inst_ok :: "race \<Rightarrow> bool" where
  "inst_ok s \<longleftrightarrow>
     mset (r_true s) = mset (r_called s) + mset (r_removed s) + cell_hand (r_cell s) + sum_list (map call_hand (r_emit s))"

fun emit_ok :: "nat cell option \<Rightarrow> slot_pc \<Rightarrow> emit_pc \<Rightarrow> bool" where
  "emit_ok c pc E_walk = (c \<noteq> Some EmittedTag)"
| "emit_ok c pc E_invoke = (c \<noteq> None \<and> c \<noteq> Some EmittedTag)"
| "emit_ok c pc (E_call n) = (c = Some EmittedTag)"
| "emit_ok c pc (E_delete n) = (c = Some EmittedTag)"
| "emit_ok c pc (E_done saw) =
     (if saw then c = Some EmittedTag
      else (c = None \<or> c = Some Null) \<and> (\<forall>n old. pc \<noteq> O_old n \<and> pc \<noteq> O_cas n old \<and> pc \<noteq> O_clear_cas old))"
| "emit_ok c pc _ = True"

fun slot_pc_ok :: "nat cell option \<Rightarrow> slot_pc \<Rightarrow> bool" where
  "slot_pc_ok c (O_state n) = (c \<noteq> None)"
| "slot_pc_ok c (O_old n) = (c \<noteq> None)"
| "slot_pc_ok c (O_cas n old) = (old \<noteq> EmittedTag \<and> (c = Some old \<or> c = Some EmittedTag))"
| "slot_pc_ok c (O_clear_cas old) = ((\<exists>m. old = Handler m) \<and> (c = Some old \<or> c = Some EmittedTag))"
| "slot_pc_ok c _ = True"

definition control_ok :: "race \<Rightarrow> bool" where
  "control_ok s \<longleftrightarrow> r_failure s = None \<and> cnt won (r_emit s) = (if r_state s then 1 else 0)
     \<and> (\<forall>e \<in> set (r_emit s). emit_ok (r_cell s) (r_slot s) e) \<and> slot_pc_ok (r_cell s) (r_slot s)
     \<and> (\<not> r_state s \<longrightarrow> r_cell s \<noteq> Some EmittedTag) \<and> (r_cell s \<noteq> None \<longrightarrow> r_visible s)"

definition race_inv :: "race \<Rightarrow> bool" where
  "race_inv s \<longleftrightarrow> mem_ok s \<and> made_ok s \<and> inst_ok s \<and> control_ok s"

lemma race_invD:
  assumes "race_inv s"
  shows "mem_ok s" "made_ok s" "inst_ok s" "control_ok s"
  using assms by (simp_all add: race_inv_def)

lemma made_Suc: "made (Suc k) = add_mset k (made k)"
  by (simp add: made_def del: mset_upt)

lemma made_once:
  assumes "made k = mset xs + M"
  shows "n \<in># M \<Longrightarrow> n \<notin> set xs" and "distinct xs"
proof -
  have c: "count (mset xs) n + count M n \<le> 1" for n
  proof -
    have "count (made k) n \<le> 1" using distinct_count_atmost_1[of "[0..<k]"] by (auto simp: made_def simp del: mset_upt)
    then show ?thesis using assms by simp
  qed
  show "n \<in># M \<Longrightarrow> n \<notin> set xs"
    using c[of n] count_greater_zero_iff[of M n] count_greater_zero_iff[of "mset xs" n] by fastforce
  show "distinct xs" using c by (metis add_leD1 count_mset distinct_count_atmost_1 count_greater_eq_one_iff le_antisym not_in_iff set_mset_mset)
qed

lemma not_deleted:
  assumes "mem_ok s" and "n \<in># sum_list (map free_hand (r_emit s)) + slot_new (r_slot s) + slot_old (r_slot s)"
  shows "n \<notin> set (r_deleted s)"
proof -
  have "n \<in># cell_hand (r_cell s) + sum_list (map free_hand (r_emit s)) + slot_new (r_slot s) + slot_old (r_slot s)" using assms(2) by auto
  then show ?thesis using made_once(1) assms(1) unfolding mem_ok_def by blast
qed

text \<open>A refused handler is deleted.\<close>

lemma refuse_eq:
  assumes "mem_ok s" and "n \<in># slot_new (r_slot s)"
  shows "refuse n s = s\<lparr>r_refused := r_refused s @ [n], r_deleted := r_deleted s @ [n], r_slot := O_idle\<rparr>"
proof -
  have "n \<notin> set (r_deleted s)" using assms by (intro not_deleted[OF assms(1)]) simp
  then show ?thesis by (simp add: refuse_def delete_handler_def)
qed

lemmas hand_defs = mem_ok_def made_ok_def inst_ok_def

lemma emit_ok_owner:
  assumes "emit_ok c pc e" and "\<And>n old. pc' \<noteq> O_old n \<and> pc' \<noteq> O_cas n old \<and> pc' \<noteq> O_clear_cas old"
  shows "emit_ok c pc' e"
  using assms by (cases e) auto

text \<open>The steps of the owner.\<close>

lemma refuse_inv:
  assumes "race_inv s" and "r_slot s = O_state n \<or> r_slot s = O_old n \<or> r_slot s = O_cas n old" and "r_slot s \<noteq> O_idle"
  shows "race_inv (refuse n s)"
proof -
  note i = race_invD[OF assms(1)]
  have t: "refuse n s = s\<lparr>r_refused := r_refused s @ [n], r_deleted := r_deleted s @ [n], r_slot := O_idle\<rparr>"
    using assms(2) by (intro refuse_eq[OF i(1)]) auto
  have n: "slot_new (r_slot s) = {#n#}" "slot_old (r_slot s) = {#}" using assms(2) by auto
  have "emit_ok (r_cell s) O_idle e" if "e \<in> set (r_emit s)" for e
  proof (rule emit_ok_owner)
    show "emit_ok (r_cell s) (r_slot s) e" using i(4) that by (simp add: control_ok_def)
  qed simp
  then have "control_ok (refuse n s)" using i(4) unfolding t by (simp add: control_ok_def)
  moreover have "mem_ok (refuse n s)" using i(1) n unfolding t by (simp add: mem_ok_def)
  moreover have "made_ok (refuse n s)" using i(2) n unfolding t by (simp add: made_ok_def)
  moreover have "inst_ok (refuse n s)" using i(3) unfolding t by (simp add: inst_ok_def)
  ultimately show ?thesis by (simp add: race_inv_def)
qed

lemma emitters_ok:
  assumes "control_ok s" and "e \<in> set (r_emit s)"
  shows "emit_ok (r_cell s) (r_slot s) e" and "\<not> r_state s \<Longrightarrow> \<not> won e"
  using assms by (auto simp: control_ok_def cnt_0)

lemma hands_pc:
  assumes "mem_ok s" and "made_ok s" and "inst_ok s" and "slot_new pc = slot_new (r_slot s)" and "slot_old pc = slot_old (r_slot s)"
  shows "mem_ok (s\<lparr>r_slot := pc\<rparr>)" and "made_ok (s\<lparr>r_slot := pc\<rparr>)" and "inst_ok (s\<lparr>r_slot := pc\<rparr>)"
  using assms unfolding hand_defs by simp_all

lemma move_owner:
  assumes "race_inv s" and "slot_new pc = slot_new (r_slot s)" and "slot_old pc = slot_old (r_slot s)" and "slot_pc_ok (r_cell s) pc"
    and "\<And>e. e \<in> set (r_emit s) \<Longrightarrow> emit_ok (r_cell s) (r_slot s) e \<Longrightarrow> (\<not> r_state s \<Longrightarrow> \<not> won e) \<Longrightarrow> emit_ok (r_cell s) pc e"
  shows "race_inv (s\<lparr>r_slot := pc\<rparr>)"
proof -
  note i = race_invD[OF assms(1)]
  have "emit_ok (r_cell s) pc e" if "e \<in> set (r_emit s)" for e using assms(5)[OF that] emitters_ok[OF i(4) that] by blast
  then have "control_ok (s\<lparr>r_slot := pc\<rparr>)" using i(4) assms(4) by (simp add: control_ok_def)
  then show ?thesis using hands_pc[OF i(1-3) assms(2,3)] by (simp add: race_inv_def)
qed

lemma already_visible: "control_ok s \<Longrightarrow> r_cell s \<noteq> None \<Longrightarrow> s\<lparr>r_visible := True\<rparr> = s"
  by (cases s) (auto simp: control_ok_def)

lemma emplaced_inv:
  assumes "race_inv s" and "r_slot s = O_cas n old" and "r_cell s = Some old"
  shows "race_inv (s\<lparr>r_cell := Some (Handler n), r_visible := True, r_true := r_true s @ [n],
    r_removed := r_removed s @ handlers old, r_slot := O_delete old\<rparr>)" (is "race_inv ?t")
proof -
  note i = race_invD[OF assms(1)]
  have o: "old \<noteq> EmittedTag" using i(4) assms(2) by (simp add: control_ok_def)
  have "emit_ok (Some (Handler n)) (O_delete old) e" if "e \<in> set (r_emit s)" for e
    using emitters_ok(1)[OF i(4) that] assms(2,3) o by (cases e) (auto split: if_splits)
  then have "control_ok ?t" using i(4) by (simp add: control_ok_def)
  moreover have "mem_ok ?t" using i(1) assms(2,3) by (simp add: mem_ok_def ac_simps)
  moreover have "made_ok ?t" using i(2) assms(2) by (simp add: made_ok_def)
  moreover have "inst_ok ?t" using i(3) assms(3) by (simp add: inst_ok_def ac_simps)
  ultimately show ?thesis by (simp add: race_inv_def)
qed

lemma cleared_inv:
  assumes "race_inv s" and "r_slot s = O_clear_cas old" and "r_cell s = Some old"
  shows "race_inv (s\<lparr>r_cell := Some Null, r_visible := True, r_removed := r_removed s @ handlers old, r_slot := O_delete old\<rparr>)"
    (is "race_inv ?t")
proof -
  note i = race_invD[OF assms(1)]
  have o: "old \<noteq> EmittedTag" using i(4) assms(2) by (auto simp: control_ok_def)
  have "emit_ok (Some Null) (O_delete old) e" if "e \<in> set (r_emit s)" for e
    using emitters_ok(1)[OF i(4) that] assms(2,3) o by (cases e) (auto split: if_splits)
  then have "control_ok ?t" using i(4) by (simp add: control_ok_def)
  moreover have "mem_ok ?t" using i(1) assms(2,3) by (simp add: mem_ok_def ac_simps)
  moreover have "made_ok ?t" using i(2) assms(2) by (simp add: made_ok_def)
  moreover have "inst_ok ?t" using i(3) assms(3) by (simp add: inst_ok_def ac_simps)
  ultimately show ?thesis by (simp add: race_inv_def)
qed

lemma deleted_inv:
  assumes "race_inv s" and "r_slot s = O_delete old"
  shows "race_inv ((fold delete_handler (handlers old) s)\<lparr>r_slot := O_idle\<rparr>)" (is "race_inv ?t")
proof -
  note i = race_invD[OF assms(1)]
  have "n \<notin> set (r_deleted s)" if "old = Handler n" for n using assms(2) that by (intro not_deleted[OF i(1)]) simp
  then have t: "?t = s\<lparr>r_deleted := r_deleted s @ handlers old, r_slot := O_idle\<rparr>"
    by (cases old; cases s) (auto simp: delete_handler_def)
  have "emit_ok (r_cell s) O_idle e" if "e \<in> set (r_emit s)" for e
  proof (rule emit_ok_owner)
    show "emit_ok (r_cell s) (r_slot s) e" using that by (rule emitters_ok(1)[OF i(4)])
  qed simp
  then have "control_ok ?t" using i(4) unfolding t by (simp add: control_ok_def)
  moreover have "mem_ok ?t" using i(1) assms(2) unfolding t by (simp add: mem_ok_def ac_simps)
  moreover have "made_ok ?t" using i(2) assms(2) unfolding t by (simp add: made_ok_def)
  moreover have "inst_ok ?t" using i(3) unfolding t by (simp add: inst_ok_def)
  ultimately show ?thesis by (simp add: race_inv_def)
qed

lemma owner_inv:
  assumes "race_inv s" and "slot_step False s = Some t"
  shows "race_inv t"
proof -
  note i = race_invD[OF assms(1)]
  note e = emitters_ok[OF i(4)]
  have idle: "race_inv (s\<lparr>r_slot := O_idle\<rparr>)" if "r_slot s = O_clear \<or> (\<exists>old. r_slot s = O_clear_cas old)"
  proof (rule move_owner[OF assms(1)])
    fix e assume "emit_ok (r_cell s) (r_slot s) e"
    then show "emit_ok (r_cell s) O_idle e" by (rule emit_ok_owner) simp
  qed (use that in auto)
  show ?thesis
  proof (cases "r_slot s")
    case (O_state n)
    have "race_inv (s\<lparr>r_slot := O_old n\<rparr>)" if "\<not> r_state s"
    proof (rule move_owner[OF assms(1)])
      fix e assume "\<not> r_state s \<Longrightarrow> \<not> won e"
      then show "emit_ok (r_cell s) (O_old n) e" using that by (cases e) simp_all
    qed (use i(4) O_state in \<open>simp_all add: control_ok_def\<close>)
    then show ?thesis using assms O_state refuse_inv[OF assms(1), of n] by (auto simp: slot_step_def split: if_splits)
  next
    case (O_old n)
    have "race_inv (s\<lparr>r_slot := O_cas n (the (r_cell s))\<rparr>)" if "the (r_cell s) \<noteq> EmittedTag"
    proof (rule move_owner[OF assms(1)])
      fix e assume "emit_ok (r_cell s) (r_slot s) e"
      then show "emit_ok (r_cell s) (O_cas n (the (r_cell s))) e" using O_old by (cases e) (simp_all split: if_splits)
    qed (use i(4) O_old that in \<open>auto simp: control_ok_def\<close>)
    then show ?thesis using assms O_old refuse_inv[OF assms(1), of n] by (auto simp: slot_step_def split: if_splits)
  next
    case (O_cas n old)
    then have "r_cell s = Some old \<or> r_cell s = Some EmittedTag" using i(4) by (simp add: control_ok_def)
    then show ?thesis
      using assms(2) O_cas emplaced_inv[OF assms(1) O_cas] refuse_inv[OF assms(1), of n old] already_visible[OF i(4)]
      by (auto simp: slot_step_def)
  next
    case O_clear
    have "race_inv (s\<lparr>r_slot := O_clear_cas (Handler n)\<rparr>)" if c: "r_cell s = Some (Handler n)" for n
    proof (rule move_owner[OF assms(1)])
      fix e assume "emit_ok (r_cell s) (r_slot s) e"
      then show "emit_ok (r_cell s) (O_clear_cas (Handler n)) e" using c by (cases e) (simp_all split: if_splits)
    qed (use O_clear c in simp_all)
    then show ?thesis using assms(2) O_clear idle by (auto simp: slot_step_def split: option.splits cell.splits)
  next
    case (O_clear_cas old)
    then have c: "r_cell s = Some old \<or> r_cell s = Some EmittedTag" using i(4) by (simp add: control_ok_def)
    show ?thesis
    proof (cases "r_cell s = Some old")
      case True
      then show ?thesis using assms(2) O_clear_cas cleared_inv[OF assms(1) O_clear_cas] by (simp add: slot_step_def)
    next
      case False
      then have "s\<lparr>r_visible := True\<rparr> = s" using c by (intro already_visible[OF i(4)]) auto
      then have "s\<lparr>r_visible := True, r_slot := O_idle\<rparr> = s\<lparr>r_slot := O_idle\<rparr>" by (metis (no_types) race.update_convs(5))
      then show ?thesis using assms(2) False c O_clear_cas idle by (simp add: slot_step_def)
    qed
  next
    case (O_delete old)
    then show ?thesis using assms(2) deleted_inv[OF assms(1)] by (simp add: slot_step_def)
  qed (use assms(2) in \<open>simp add: slot_step_def\<close>)
qed

text \<open>The start of an operation.\<close>

lemma begin_inv:
  assumes "race_inv s" and "r_slot s = O_idle"
  shows "race_inv (emplace_begin False s)" and "race_inv (s\<lparr>r_slot := O_clear\<rparr>)"
proof -
  note i = race_invD[OF assms(1)]
  let ?c = "case r_cell s of None \<Rightarrow> Some Null | Some c \<Rightarrow> Some c"
  have t: "emplace_begin False s = s\<lparr>r_next := Suc (r_next s), r_slot := O_state (r_next s), r_cell := ?c, r_visible := True\<rparr>"
    using i(4) by (cases s) (auto simp: emplace_begin_def control_ok_def split: option.splits)
  have h: "cell_hand ?c = cell_hand (r_cell s)" by (simp split: option.splits)
  have "emit_ok ?c (O_state (r_next s)) e" if "e \<in> set (r_emit s)" for e
    using emitters_ok(1)[OF i(4) that] by (cases e) (auto split: option.splits if_splits)
  then have "control_ok (emplace_begin False s)"
    using i(4) unfolding t by (auto simp: control_ok_def split: option.splits)
  moreover have "mem_ok (emplace_begin False s)"
    using i(1) assms(2) h unfolding t by (simp add: mem_ok_def made_Suc)
  moreover have "made_ok (emplace_begin False s)" using i(2) assms(2) unfolding t by (simp add: made_ok_def made_Suc)
  moreover have "inst_ok (emplace_begin False s)" using i(3) h unfolding t by (simp add: inst_ok_def)
  ultimately show "race_inv (emplace_begin False s)" by (simp add: race_inv_def)
  show "race_inv (s\<lparr>r_slot := O_clear\<rparr>)"
  proof (rule move_owner[OF assms(1)])
    fix e assume "emit_ok (r_cell s) (r_slot s) e"
    then show "emit_ok (r_cell s) O_clear e" by (rule emit_ok_owner) simp
  qed (use assms(2) in simp_all)
qed

text \<open>The steps of an emitter.  While one emission has won, no other emitter has.\<close>

lemma only_winner:
  assumes "control_ok s" and "i < length (r_emit s)" and "won (r_emit s ! i)"
  shows "r_state s" and "e \<in> set ((r_emit s)[i := pc]) \<Longrightarrow> e = pc \<or> \<not> won e"
proof -
  have c: "cnt won (r_emit s) = (if r_state s then 1 else 0)" using assms(1) by (simp add: control_ok_def)
  then show "r_state s" using cnt_pos[OF assms(2), of won, OF assms(3)] by (simp split: if_splits)
  assume "e \<in> set ((r_emit s)[i := pc])"
  then obtain j where j: "j < length (r_emit s)" "e = (r_emit s)[i := pc] ! j" by (metis in_set_conv_nth length_list_update)
  show "e = pc \<or> \<not> won e"
  proof (cases "j = i")
    case True
    then show ?thesis using j by simp
  next
    case False
    then have "e = r_emit s ! j" using j by simp
    moreover have "\<not> won (r_emit s ! j)" using cnt_unique[of won "r_emit s" j i] c j(1) assms(2,3) False by (auto split: if_splits)
    ultimately show ?thesis by simp
  qed
qed

lemma not_won_ok: "\<not> won e \<Longrightarrow> emit_ok c pc e"
  by (cases e) simp_all

lemma emit_hands:
  assumes "i < length (r_emit s)"
  shows "sum_list (map free_hand ((r_emit s)[i := pc])) + free_hand (r_emit s ! i) = sum_list (map free_hand (r_emit s)) + free_hand pc"
    and "sum_list (map call_hand ((r_emit s)[i := pc])) + call_hand (r_emit s ! i) = sum_list (map call_hand (r_emit s)) + call_hand pc"
  by (rule fh.total_update[OF assms], rule ch.total_update[OF assms])

lemma move_emitter:
  assumes "race_inv s" and "i < length (r_emit s)" and "free_hand pc = free_hand (r_emit s ! i)"
    and "call_hand pc = call_hand (r_emit s ! i)" and "won pc = won (r_emit s ! i)" and "emit_ok (r_cell s) (r_slot s) pc"
  shows "race_inv (at_emit i pc s)"
proof -
  note i = race_invD[OF assms(1)]
  have h: "sum_list (map free_hand ((r_emit s)[i := pc])) = sum_list (map free_hand (r_emit s))"
    "sum_list (map call_hand ((r_emit s)[i := pc])) = sum_list (map call_hand (r_emit s))"
    using emit_hands[OF assms(2), of pc] assms(3,4) by simp_all
  have "emit_ok (r_cell s) (r_slot s) e" if "e \<in> set ((r_emit s)[i := pc])" for e
    using that assms(6) emitters_ok(1)[OF i(4)] set_update_subset_insert[of "r_emit s" i pc] by blast
  moreover have "cnt won ((r_emit s)[i := pc]) = cnt won (r_emit s)" using cnt_update[OF assms(2), of won pc] assms(5) by simp
  ultimately have "control_ok (at_emit i pc s)" using i(4) by (simp add: control_ok_def)
  then show ?thesis using i(1-3) h by (simp add: race_inv_def mem_ok_def made_ok_def inst_ok_def)
qed

text \<open>The control part of the invariant after a step of the winner.\<close>

lemma winner_control:
  assumes "control_ok s" and "i < length (r_emit s)" and "won (r_emit s ! i)" and "won pc" and "c = r_cell s \<or> c = Some EmittedTag"
    and "c = Some EmittedTag \<Longrightarrow> r_cell s \<noteq> None" and "emit_ok c (r_slot s) pc"
    and "r_state t" "r_cell t = c" "r_visible t = r_visible s" "r_slot t = r_slot s" "r_emit t = (r_emit s)[i := pc]" "r_failure t = None"
  shows "control_ok t"
proof -
  note w = only_winner[OF assms(1-3)]
  have "emit_ok c (r_slot s) e" if "e \<in> set ((r_emit s)[i := pc])" for e using w(2)[OF that] assms(7) not_won_ok by blast
  moreover have "cnt won ((r_emit s)[i := pc]) = 1"
    using cnt_update[OF assms(2), of won pc] assms(1,3,4) w(1) by (simp add: control_ok_def)
  moreover have "slot_pc_ok c (r_slot s)" using assms(1,5) by (cases "r_slot s") (auto simp: control_ok_def)
  ultimately show ?thesis using assms(1,5,6,8-13) by (auto simp: control_ok_def)
qed

lemma win_inv:
  assumes "race_inv s" and "i < length (r_emit s)" and "r_emit s ! i = E_cas" and "\<not> r_state s"
  shows "race_inv (at_emit i E_walk (s\<lparr>r_state := True\<rparr>))" (is "race_inv ?t")
proof -
  note i = race_invD[OF assms(1)]
  have h: "sum_list (map free_hand ((r_emit s)[i := E_walk])) = sum_list (map free_hand (r_emit s))"
    "sum_list (map call_hand ((r_emit s)[i := E_walk])) = sum_list (map call_hand (r_emit s))"
    using emit_hands[OF assms(2), of E_walk] assms(3) by simp_all
  have "emit_ok (r_cell s) (r_slot s) e" if "e \<in> set ((r_emit s)[i := E_walk])" for e
  proof -
    have "emit_ok (r_cell s) (r_slot s) E_walk" using i(4) assms(4) by (simp add: control_ok_def)
    then show ?thesis using that emitters_ok(1)[OF i(4)] set_update_subset_insert[of "r_emit s" i E_walk] by blast
  qed
  moreover have "cnt won ((r_emit s)[i := E_walk]) = 1"
    using cnt_update[OF assms(2), of won E_walk] i(4) assms(3,4) by (simp add: control_ok_def)
  ultimately have "control_ok ?t" using i(4) by (simp add: control_ok_def)
  then show ?thesis using i(1-3) h by (simp add: race_inv_def mem_ok_def made_ok_def inst_ok_def)
qed

lemma taken_inv:
  assumes "race_inv s" and "i < length (r_emit s)" and "r_emit s ! i = E_invoke" and "r_cell s = Some c"
    and "pc = (case c of Handler n \<Rightarrow> E_call n | _ \<Rightarrow> E_done True)"
  shows "race_inv (at_emit i pc (s\<lparr>r_cell := Some EmittedTag\<rparr>))" (is "race_inv ?t")
proof -
  note i = race_invD[OF assms(1)]
  have k: "free_hand pc = mset (handlers c)" "call_hand pc = mset (handlers c)" "won pc" "emit_ok (Some EmittedTag) (r_slot s) pc"
    using assms(5) by (simp_all split: cell.splits)
  have "control_ok ?t"
    by (rule winner_control[OF i(4) assms(2), of pc "Some EmittedTag"])
      (use k(3,4) assms(3,4) i(4) only_winner(1)[OF i(4) assms(2)] in \<open>simp_all add: control_ok_def\<close>)
  moreover have "sum_list (map free_hand ((r_emit s)[i := pc])) = sum_list (map free_hand (r_emit s)) + mset (handlers c)"
    "sum_list (map call_hand ((r_emit s)[i := pc])) = sum_list (map call_hand (r_emit s)) + mset (handlers c)"
    using emit_hands[OF assms(2), of pc] assms(3) k by simp_all
  ultimately show ?thesis using i(1-3) assms(4) by (simp add: race_inv_def mem_ok_def made_ok_def inst_ok_def ac_simps)
qed

lemma called_inv:
  assumes "race_inv s" and "i < length (r_emit s)" and "r_emit s ! i = E_call n"
  shows "race_inv (at_emit i (E_delete n) (use_handler n s))" (is "race_inv ?t")
proof -
  note i = race_invD[OF assms(1)]
  have "free_hand (r_emit s ! i) \<subseteq># sum_list (map free_hand (r_emit s))" by (rule fh.held_by_member[OF nth_mem[OF assms(2)]])
  then have "n \<in># sum_list (map free_hand (r_emit s))" using assms(3) by simp
  then have u: "use_handler n s = s\<lparr>r_called := r_called s @ [n]\<rparr>" using not_deleted[OF i(1), of n] by (simp add: use_handler_def)
  have "control_ok ?t" unfolding u
    by (rule winner_control[OF i(4) assms(2), of "E_delete n" "r_cell s"])
      (use assms(3) i(4) only_winner(1)[OF i(4) assms(2)] emitters_ok(1)[OF i(4) nth_mem[OF assms(2)]] in \<open>simp_all add: control_ok_def\<close>)
  moreover have "sum_list (map free_hand ((r_emit s)[i := E_delete n])) = sum_list (map free_hand (r_emit s))"
    "sum_list (map call_hand (r_emit s)) = sum_list (map call_hand ((r_emit s)[i := E_delete n])) + {#n#}"
    using emit_hands[OF assms(2), of "E_delete n"] assms(3) by simp_all
  ultimately show ?thesis using i(1-3) unfolding u by (simp add: race_inv_def mem_ok_def made_ok_def inst_ok_def ac_simps)
qed

lemma freed_inv:
  assumes "race_inv s" and "i < length (r_emit s)" and "r_emit s ! i = E_delete n"
  shows "race_inv (at_emit i (E_done True) (delete_handler n s))" (is "race_inv ?t")
proof -
  note i = race_invD[OF assms(1)]
  have "free_hand (r_emit s ! i) \<subseteq># sum_list (map free_hand (r_emit s))" by (rule fh.held_by_member[OF nth_mem[OF assms(2)]])
  then have "n \<in># sum_list (map free_hand (r_emit s))" using assms(3) by simp
  then have u: "delete_handler n s = s\<lparr>r_deleted := r_deleted s @ [n]\<rparr>" using not_deleted[OF i(1), of n] by (simp add: delete_handler_def)
  have "control_ok ?t" unfolding u
    by (rule winner_control[OF i(4) assms(2), of "E_done True" "r_cell s"])
      (use assms(3) i(4) only_winner(1)[OF i(4) assms(2)] emitters_ok(1)[OF i(4) nth_mem[OF assms(2)]] in \<open>simp_all add: control_ok_def\<close>)
  moreover have "sum_list (map free_hand (r_emit s)) = sum_list (map free_hand ((r_emit s)[i := E_done True])) + {#n#}"
    "sum_list (map call_hand ((r_emit s)[i := E_done True])) = sum_list (map call_hand (r_emit s))"
    using emit_hands[OF assms(2), of "E_done True"] assms(3) by simp_all
  ultimately show ?thesis using i(1-3) unfolding u by (simp add: race_inv_def mem_ok_def made_ok_def inst_ok_def ac_simps)
qed

lemma emitter_inv:
  assumes "race_inv s" and "i < length (r_emit s)" and "emit_step False w i s = Some t"
  shows "race_inv t"
proof -
  note i = race_invD[OF assms(1)]
  note e = emitters_ok(1)[OF i(4) nth_mem[OF assms(2)]]
  have exp: "race_inv (at_emit i (update_expected False s) s)" if "r_emit s ! i = E_load \<or> r_emit s ! i = E_cas"
    by (rule move_emitter[OF assms(1,2)]) (use that in \<open>auto simp: update_expected_def\<close>)
  show ?thesis
  proof (cases "r_emit s ! i")
    case E_cas
    then show ?thesis using assms(3) exp win_inv[OF assms(1,2)] by (simp add: emit_step_def split: if_splits)
  next
    case E_walk
    have "slot_pc_ok (r_cell s) (r_slot s)" "r_cell s \<noteq> None \<longrightarrow> r_visible s" using i(4) by (simp_all add: control_ok_def)
    then have "emit_ok (r_cell s) (r_slot s) (if r_cell s \<noteq> None \<and> r_visible s then E_invoke else E_done False)"
      using e E_walk by (cases "r_slot s") auto
    then show ?thesis using assms(3) E_walk by (auto simp: emit_step_def intro!: move_emitter[OF assms(1,2)])
  next
    case E_invoke
    then obtain c where c: "r_cell s = Some c" "c \<noteq> EmittedTag" using e by auto
    show ?thesis
      using assms(3) E_invoke c taken_inv[OF assms(1,2) E_invoke c(1) refl] by (cases c) (simp_all add: emit_step_def)
  next
    case (E_call n)
    then show ?thesis using assms(3) called_inv[OF assms(1,2)] by (simp add: emit_step_def)
  next
    case (E_delete n)
    then show ?thesis using assms(3) freed_inv[OF assms(1,2)] by (simp add: emit_step_def)
  qed (use assms(3) exp in \<open>simp_all add: emit_step_def\<close>)
qed

interpretation race: inv_system race_init "race_step False False" race_inv
proof unfold_locales
  fix s assume "race_init s"
  then obtain k where "s = race_new k" by (auto simp: race_init_def)
  moreover have "set (replicate k E_load) \<subseteq> {E_load}" by auto
  ultimately show "race_inv s"
    by (auto simp: race_inv_def mem_ok_def made_ok_def inst_ok_def control_ok_def race_new_def made_def cnt_replicate
        fh.total_empty ch.total_empty simp del: map_replicate)
next
  fix s t assume i: "race_inv s" and st: "race_step False False s t"
  from st show "race_inv t"
  proof cases
    case drain
    then show ?thesis using already_visible[OF race_invD(4)[OF i]] i by simp
  next
    case (emitter n w)
    then show ?thesis using emitter_inv[OF i] by blast
  next
    case owner
    then show ?thesis by (rule owner_inv[OF i])
  qed (use begin_inv[OF i] in simp_all)
qed

text \<open>Schedules, to exhibit runs.\<close>

datatype move = Emit nat | Own | Emplace | Clear

fun play :: "bool \<Rightarrow> bool \<Rightarrow> move list \<Rightarrow> race \<Rightarrow> race option" where
  "play multi buffered [] s = Some s"
| "play multi buffered (Emit i # ms) s =
     (if i < length (r_emit s) then Option.bind (emit_step multi False i s) (play multi buffered ms) else None)"
| "play multi buffered (Own # ms) s = Option.bind (slot_step multi s) (play multi buffered ms)"
| "play multi buffered (Emplace # ms) s =
     (if r_slot s = O_idle then play multi buffered ms (emplace_begin buffered s) else None)"
| "play multi buffered (Clear # ms) s =
     (if r_slot s = O_idle then play multi buffered ms (s\<lparr>r_slot := O_clear\<rparr>) else None)"

lemma play_reach:
  assumes "play multi buffered ms s = Some t" and "reach race_init (race_step multi buffered) s"
  shows "reach race_init (race_step multi buffered) t"
  using assms
  by (induction multi buffered ms s rule: play.induct)
    (auto split: if_splits Option.bind_splits intro: reach.reach_step race_step.intros)

lemma play_new:
  assumes "play multi buffered ms (race_new k) = Some t"
  shows "reach race_init (race_step multi buffered) t"
proof (rule play_reach[OF assms])
  show "reach race_init (race_step multi buffered) (race_new k)" by (rule reach.reach_init) (auto simp: race_init_def)
qed

lemmas play_defs = race_new_def emplace_begin_def emit_step_def slot_step_def update_expected_def refuse_def use_handler_def
  delete_handler_def

definition race_end :: race where
  "race_end = the (play False False [Emplace, Own, Own, Own, Own, Emit 0, Emit 1, Emit 0, Emit 0, Emit 1, Emit 0, Emit 0, Emit 0] (race_new 2))"

lemma race_end_eq:
  "play False False [Emplace, Own, Own, Own, Own, Emit 0, Emit 1, Emit 0, Emit 0, Emit 1, Emit 0, Emit 0, Emit 0] (race_new 2) = Some race_end"
  "r_emit race_end = [E_done True, E_lost]" "r_called race_end = [0]" "r_true race_end = [0]" "r_removed race_end = []"
  "r_slot race_end = O_idle" "r_next race_end = 1"
  unfolding race_end_def by (simp_all add: play_defs numeral_2_eq_2)

section \<open>What an emission and a slot guarantee each other\<close>

text \<open>An emission that is over leaves no handler in the cell or in the hands of an emitter.\<close>

lemma emission_over:
  assumes "race_inv s" and "E_done saw \<in> set (r_emit s)"
  shows "cell_hand (r_cell s) = {#}" and "sum_list (map call_hand (r_emit s)) = {#}" and "sum_list (map free_hand (r_emit s)) = {#}"
proof -
  note i = race_invD(4)[OF assms(1)]
  show "cell_hand (r_cell s) = {#}" using emitters_ok(1)[OF i assms(2)] by (auto split: if_splits)
  obtain j where j: "j < length (r_emit s)" "r_emit s ! j = E_done saw" using assms(2) by (metis in_set_conv_nth)
  have "call_hand e = {#} \<and> free_hand e = {#}" if "e \<in> set (r_emit s)" for e
  proof -
    have "e = E_done saw \<or> \<not> won e" using only_winner(2)[OF i j(1), of e "E_done saw"] j that list_update_id[of "r_emit s" j] by simp
    then show ?thesis by (cases e) auto
  qed
  then show "sum_list (map call_hand (r_emit s)) = {#}" "sum_list (map free_hand (r_emit s)) = {#}"
    by (simp_all add: ch.total_none fh.total_none)
qed

text \<open>
  C12.  A one-shot signal raced by its slot, in sequentially consistent memory.  However many threads emit
  the signal while the owner of the slot installs and clears handlers, at most one emission wins, no
  handler is used or deleted after its deletion and no assertion fails; no handler is called twice, nor
  called after it was replaced or cleared, and only handlers whose \<open>emplace\<close> reaches its successful
  exchange are called.  Once the winning emission is over, every handler for which \<open>emplace\<close> answers true has been called or
  was replaced or cleared before, and when the owner is idle too every handler ever made is deleted.
\<close>

theorem signal_race_safe:
  assumes "reach race_init (race_step False False) s"
  shows "r_failure s = None \<and> cnt won (r_emit s) \<le> 1
    \<and> distinct (r_called s @ r_removed s) \<and> distinct (r_deleted s)
    \<and> set (r_called s) \<subseteq> set (r_true s)
    \<and> (E_done saw \<in> set (r_emit s) \<longrightarrow> mset (r_true s) = mset (r_called s) + mset (r_removed s))
    \<and> (E_done saw \<in> set (r_emit s) \<and> r_slot s = O_idle \<longrightarrow> mset (r_deleted s) = mset [0..<r_next s])"
proof -
  have i: "race_inv s" using assms by (rule race.reach_inv)
  note j = race_invD[OF i]
  have made: "made (r_next s) = mset (r_called s @ r_removed s)
    + (cell_hand (r_cell s) + sum_list (map call_hand (r_emit s)) + mset (r_refused s) + slot_new (r_slot s))"
    using j(2,3) unfolding made_ok_def inst_ok_def by (simp add: ac_simps)
  have "distinct (r_called s @ r_removed s)" using made by (rule made_once(2))
  moreover have "distinct (r_deleted s)" using j(1) unfolding mem_ok_def by (rule made_once(2))
  moreover have "set (r_called s) \<subseteq> set (r_true s)"
  proof -
    have "set_mset (mset (r_called s)) \<subseteq> set_mset (mset (r_true s))" using j(3) unfolding inst_ok_def by auto
    then show ?thesis by simp
  qed
  moreover have "mset (r_true s) = mset (r_called s) + mset (r_removed s)" if "E_done saw \<in> set (r_emit s)"
    using j(3) emission_over[OF i that] unfolding inst_ok_def by simp
  moreover have "mset (r_deleted s) = mset [0..<r_next s]" if "E_done saw \<in> set (r_emit s)" "r_slot s = O_idle"
    using j(1) emission_over[OF i that(1)] that(2) unfolding mem_ok_def made_def by simp
  moreover have "r_failure s = None \<and> cnt won (r_emit s) \<le> 1" using j(4) by (simp add: control_ok_def)
  ultimately show ?thesis by blast
qed

theorem signal_race_safe_witness:
  "r_failure race_end = None \<and> r_emit race_end = [E_done True, E_lost] \<and> r_called race_end = [0]
    \<and> mset (r_true race_end) = mset (r_called race_end) + mset (r_removed race_end) \<and> mset (r_deleted race_end) = {#0#}"
  using signal_race_safe[OF play_new[OF race_end_eq(1)], of True] by (simp add: race_end_eq)

text \<open>
  C36.  With the memory orders of the code a handler can be lost: the store that publishes the first cell is
  delayed past the load of the state, the emission finds no cell and ends, and \<open>emplace\<close> then answers true
  for a handler that is never called.
\<close>

theorem emplace_lost:
  "\<exists>s. reach race_init (race_step False True) s \<and> r_emit s = [E_done False] \<and> r_slot s = O_idle
    \<and> r_true s = [0] \<and> r_called s = [] \<and> r_removed s = []"
proof -
  obtain s where "play False True [Emplace, Own, Emit 0, Emit 0, Emit 0, Own, Own, Own] (race_new 1) = Some s"
    and "r_emit s = [E_done False] \<and> r_slot s = O_idle \<and> r_true s = [0] \<and> r_called s = [] \<and> r_removed s = []"
    by (simp add: play_defs)
  then show ?thesis using play_new by blast
qed

text \<open>
  C37.  A signal that can be triggered several times leaves its handler in the cell while it calls it: \<open>clear\<close>
  between the load and the call deletes the handler that the emission then calls.
\<close>

theorem repeated_handler_race:
  "\<exists>s. reach race_init (race_step True False) s \<and> r_failure s = Some (Undefined ''handler used after delete'')"
proof -
  obtain s where "play True False [Emplace, Own, Own, Own, Own, Emit 0, Emit 0, Emit 0, Emit 0, Clear, Own, Own, Own, Emit 0] (race_new 1) = Some s"
    and "r_failure s = Some (Undefined ''handler used after delete'')"
    by (simp add: play_defs)
  then show ?thesis using play_new by blast
qed

end
