(* ===== verification/Queue_Model.thy ===== *)
theory Queue_Model
  imports Prelude
begin

text \<open>
  The blocking queue (async_simple/util/Queue.h) and the counting condition
  (async_simple/util/Condition.h, the fallback without \<open>std::binary_semaphore\<close>).

  Every operation holds the mutex from start to end, so each is one atomic function.  \<open>got_lock\<close> is
  what \<open>std::try_to_lock\<close> answers.  An operation that would wait on the condition variable
  returns \<open>None\<close>: it is not enabled in that state.  The interface \<open>fifo\<close> is what the thread
  pool uses of a queue.
\<close>

section \<open>Queue\<close>

record 'a Queue =
  q_items :: "'a list"
  q_stop :: bool

definition Queue_new :: "'a Queue" where
  "Queue_new = \<lparr>q_items = [], q_stop = False\<rparr>"

definition push :: "'a \<Rightarrow> 'a Queue \<Rightarrow> 'a Queue" where
  "push item q = q\<lparr>q_items := q_items q @ [item]\<rparr>"

definition try_push :: "bool \<Rightarrow> 'a \<Rightarrow> 'a Queue \<Rightarrow> bool \<times> 'a Queue" where
  "try_push got_lock item q = (if \<not> got_lock then (False, q) else (True, push item q))"

definition pop :: "'a Queue \<Rightarrow> ('a option \<times> 'a Queue) option" where
  "pop q =
     (if q_items q \<noteq> [] \<or> q_stop q
      then Some (if q_items q = [] then (None, q)
                 else (Some (hd (q_items q)), q\<lparr>q_items := tl (q_items q)\<rparr>))
      else None)"

definition try_pop_if :: "bool \<Rightarrow> ('a \<Rightarrow> bool) option \<Rightarrow> 'a Queue \<Rightarrow> 'a option \<times> 'a Queue" where
  "try_pop_if got_lock predict q =
     (if \<not> got_lock \<or> q_items q = [] then (None, q)
      else if (case predict of Some p \<Rightarrow> \<not> p (hd (q_items q)) | None \<Rightarrow> False) then (None, q)
      else (Some (hd (q_items q)), q\<lparr>q_items := tl (q_items q)\<rparr>))"

definition try_pop :: "bool \<Rightarrow> 'a Queue \<Rightarrow> 'a option \<times> 'a Queue" where
  "try_pop got_lock q =
     (if \<not> got_lock \<or> q_items q = [] then (None, q)
      else (Some (hd (q_items q)), q\<lparr>q_items := tl (q_items q)\<rparr>))"

definition q_size :: "'a Queue \<Rightarrow> nat" where
  "q_size q = length (q_items q)"

definition q_empty :: "'a Queue \<Rightarrow> bool" where
  "q_empty q = (q_items q = [])"

definition stop_queue :: "'a Queue \<Rightarrow> 'a Queue" where
  "stop_queue q = q\<lparr>q_stop := True\<rparr>"

section \<open>Condition\<close>

record Condition =
  cond_count :: "64 word"

definition cond_release :: "Condition \<Rightarrow> Condition" where
  "cond_release c = c\<lparr>cond_count := cond_count c + 1\<rparr>"

definition cond_acquire :: "Condition \<Rightarrow> Condition option" where
  "cond_acquire c = (if 0 < cond_count c then Some (c\<lparr>cond_count := cond_count c - 1\<rparr>) else None)"

section \<open>The interface of a queue\<close>

text \<open>
  \<open>contents\<close> abstracts a queue to the list of its items; \<open>take\<close> is any operation that removes an item
  (blocking or not), with the reason it may give up left open.
\<close>

locale fifo =
  fixes contents :: "'q \<Rightarrow> 'a list"
    and add :: "'a \<Rightarrow> 'q \<Rightarrow> 'q"
    and remove :: "'q \<Rightarrow> ('a option \<times> 'q) option"
  assumes contents_add: "contents (add x q) = contents q @ [x]"
    and remove_some: "remove q = Some (Some x, q') \<Longrightarrow> contents q = x # contents q'"
    and remove_none: "remove q = Some (None, q') \<Longrightarrow> q' = q \<and> contents q = []"
    and remove_ready: "contents q \<noteq> [] \<Longrightarrow> \<exists>x q'. remove q = Some (Some x, q')"
begin

fun add_all :: "'a list \<Rightarrow> 'q \<Rightarrow> 'q" where
  "add_all [] q = q"
| "add_all (x # xs) q = add_all xs (add x q)"

fun drain :: "nat \<Rightarrow> 'q \<Rightarrow> 'a list \<times> 'q" where
  "drain 0 q = ([], q)"
| "drain (Suc n) q =
     (case remove q of
        Some (Some x, q') \<Rightarrow> (let (xs, q'') = drain n q' in (x # xs, q''))
      | _ \<Rightarrow> ([], q))"

lemma contents_add_all: "contents (add_all xs q) = contents q @ xs"
  by (induction xs arbitrary: q) (simp_all add: contents_add)

lemma drain_prefix:
  "n \<le> length (contents q) \<Longrightarrow>
   fst (drain n q) = take n (contents q) \<and> contents (snd (drain n q)) = drop n (contents q)"
proof (induction n arbitrary: q)
  case 0
  then show ?case by simp
next
  case (Suc n)
  then have "contents q \<noteq> []" by auto
  then obtain x q' where r: "remove q = Some (Some x, q')" using remove_ready by blast
  then have c: "contents q = x # contents q'" by (rule remove_some)
  then show ?case using Suc.IH[of q'] Suc.prems r by (auto split: prod.splits)
qed

lemma fifo_order:
  "contents q = [] \<Longrightarrow> fst (drain (length xs) (add_all xs q)) = xs"
  using drain_prefix[of "length xs" "add_all xs q"] by (simp add: contents_add_all)

end

lemma pop_some: "pop q = Some (Some x, q') \<Longrightarrow> q_items q = x # q_items q' \<and> q_stop q' = q_stop q"
  by (auto simp: pop_def split: if_splits)

lemma pop_false: "pop q = Some (None, q') \<longleftrightarrow> q' = q \<and> q_items q = [] \<and> q_stop q"
  by (auto simp: pop_def)

lemma pop_blocks: "pop q = None \<longleftrightarrow> q_items q = [] \<and> \<not> q_stop q"
  by (simp add: pop_def)

interpretation wq: fifo q_items push pop
proof
  show "q_items (push x q) = q_items q @ [x]" for x :: 'b and q by (simp add: push_def)
  show "pop q = Some (Some x, q') \<Longrightarrow> q_items q = x # q_items q'" for q :: "'b Queue" and x q'
    by (simp add: pop_some)
  show "pop q = Some (None, q') \<Longrightarrow> q' = q \<and> q_items q = []" for q q' :: "'b Queue"
    by (simp add: pop_false)
  show "q_items q \<noteq> [] \<Longrightarrow> \<exists>x q'. pop q = Some (Some x, q')" for q :: "'b Queue"
    by (simp add: pop_def)
qed

lemma push_simps [simp]:
  "q_items (push x q) = q_items q @ [x]" "q_stop (push x q) = q_stop q"
  by (simp_all add: push_def)

lemma stop_queue_simps [simp]:
  "q_items (stop_queue q) = q_items q" "q_stop (stop_queue q)"
  by (simp_all add: stop_queue_def)

lemma try_pop_if_some:
  "try_pop_if l p q = (Some x, q') \<Longrightarrow>
   q_items q = x # q_items q' \<and> q_stop q' = q_stop q \<and> (\<forall>f. p = Some f \<longrightarrow> f x)"
  by (cases "q_items q") (auto simp: try_pop_if_def split: if_splits option.splits)

lemma try_pop_if_none: "try_pop_if l p q = (None, q') \<Longrightarrow> q' = q"
  by (auto simp: try_pop_if_def split: if_splits)

section \<open>Properties\<close>

text \<open>\<open>n\<close> calls of \<open>pop\<close> in a row, as far as they return an item.\<close>

fun pop_n :: "nat \<Rightarrow> 'a Queue \<Rightarrow> 'a list \<times> 'a Queue" where
  "pop_n 0 q = ([], q)"
| "pop_n (Suc n) q =
     (case pop q of
        Some (Some x, q') \<Rightarrow> (let (xs, q'') = pop_n n q' in (x # xs, q''))
      | _ \<Rightarrow> ([], q))"

lemma pop_n_drain: "pop_n n q = wq.drain n q"
  by (induction n arbitrary: q) (simp_all split: option.splits prod.splits)

lemma pop_n_stop: "q_stop (snd (pop_n n q)) = q_stop q"
proof (induction n arbitrary: q)
  case 0
  then show ?case by simp
next
  case (Suc n)
  show ?case
  proof (cases "\<exists>x q'. pop q = Some (Some x, q')")
    case True
    then obtain x q' where r: "pop q = Some (Some x, q')" by blast
    then have "q_stop q' = q_stop q" using pop_some[OF r] by simp
    then show ?thesis using Suc.IH[of q'] r by (simp add: case_prod_unfold Let_def)
  next
    case False
    then show ?thesis by (simp split: option.splits prod.splits)
  qed
qed

lemma fold_push: "fold push xs q = q\<lparr>q_items := q_items q @ xs\<rparr>"
  by (induction xs arbitrary: q) (simp_all add: push_def)

text \<open>
  First in, first out: items pushed into an empty queue and then popped one by one come out in
  the order they went in, no pop blocks, and the queue is empty again, where a further pop blocks;
  stopping the queue wakes it with \<open>false\<close>.
\<close>

theorem queue_fifo:
  "\<exists>q. pop_n (length xs) (fold push xs (Queue_new :: 'a Queue)) = (xs, q) \<and> q_items q = []
     \<and> pop q = None \<and> pop (stop_queue q) = Some (None, stop_queue q)"
proof -
  let ?q = "fold push xs (Queue_new :: 'a Queue)"
  obtain ys q where d: "pop_n (length xs) ?q = (ys, q)" by (cases "pop_n (length xs) ?q")
  then have "ys = xs" "q_items q = []"
    using wq.drain_prefix[of "length xs" ?q] by (simp_all add: pop_n_drain fold_push Queue_new_def)
  moreover have "\<not> q_stop q"
    using pop_n_stop[of "length xs" ?q] d by (simp add: fold_push Queue_new_def)
  ultimately show ?thesis using d by (simp add: pop_blocks pop_false)
qed

end
