(* ===== verification/ThreadPool_Model.thy ===== *)
theory ThreadPool_Model
  imports Queue_Model "HOL-Library.Multiset"
begin

text \<open>
  The thread pool (async_simple/util/ThreadPool.h).

  \<open>scheduleById\<close>, the constructor and the accessors are functions on the record \<open>ThreadPool\<close>.  The
  body of a worker thread is \<open>worker_step\<close>, one step per queue operation, and \<open>pool_step\<close>
  interleaves the workers, the clients (which check \<open>_stop\<close> and push in two steps) and the
  destructor (which sets \<open>_stop\<close> and then stops the queues one by one).  The system keeps ghost
  logs of what was pushed into and popped from which queue and of what was executed by whom.
\<close>

section \<open>The pool\<close>

record 'f WorkItem =
  canSteal :: bool
  wfn :: "'f option"

datatype ERROR_TYPE = ERROR_NONE | ERROR_POOL_HAS_STOP | ERROR_POOL_ITEM_IS_NULL

record 'f ThreadPool =
  threadNum :: int
  tqueues :: "'f WorkItem Queue list"
  tp_stop :: bool
  enableWorkSteal :: bool
  enableCoreBindings :: bool

definition ThreadPool_new :: "64 word \<Rightarrow> 64 word \<Rightarrow> bool \<Rightarrow> bool \<Rightarrow> 'f ThreadPool" where
  "ThreadPool_new hardware_concurrency num steal bindings =
     (let n = sint (ucast (if num \<noteq> 0 then num else hardware_concurrency) :: 32 word)
      in \<lparr>threadNum = n, tqueues = replicate (nat n) Queue_new, tp_stop = False,
          enableWorkSteal = steal, enableCoreBindings = bindings\<rparr>)"

abbreviation tnum :: "'f ThreadPool \<Rightarrow> nat" where
  "tnum p \<equiv> nat (threadNum p)"

definition push_at :: "nat \<Rightarrow> 'f WorkItem \<Rightarrow> 'f ThreadPool \<Rightarrow> 'f ThreadPool" where
  "push_at i item p = p\<lparr>tqueues := (tqueues p)[i := push item (tqueues p ! i)]\<rparr>"

text \<open>The loop that looks for a queue that is not locked: \<open>got_lock n\<close> answers the \<open>n\<close>-th attempt.\<close>

fun try_push_all ::
  "(nat \<Rightarrow> bool) \<Rightarrow> 'f WorkItem \<Rightarrow> nat list \<Rightarrow> 'f ThreadPool \<Rightarrow> nat option \<times> 'f ThreadPool" where
  "try_push_all got_lock item [] p = (None, p)"
| "try_push_all got_lock item (n # ns) p =
     (let i = n mod tnum p; (got, q) = try_push (got_lock n) item (tqueues p ! i)
      in if got then (Some i, p\<lparr>tqueues := (tqueues p)[i := q]\<rparr>)
         else try_push_all got_lock item ns p)"

text \<open>
  The part of \<open>scheduleById\<close> after its checks: it returns the queue it chose and the item.
\<close>

definition place ::
  "(nat \<Rightarrow> bool) \<Rightarrow> nat \<Rightarrow> 'f \<Rightarrow> int \<Rightarrow> 'f ThreadPool \<Rightarrow> ('f ThreadPool, nat \<times> 'f WorkItem) call" where
  "place got_lock rnd fn tid p =
     (if tid = -1
      then let item = \<lparr>canSteal = True, wfn = Some fn\<rparr>;
               (at, p') = (if enableWorkSteal p
                           then try_push_all got_lock item [0..<tnum p * 2] p else (None, p))
           in (case at of
                 Some i \<Rightarrow> (ok (i, item), p')
               | None \<Rightarrow>
                   (if threadNum p = 0 then (Inl (Undefined ''rand() % 0''), p)
                    else let i = rnd mod tnum p;
                             item' = \<lparr>canSteal = enableWorkSteal p, wfn = Some fn\<rparr>
                         in (ok (i, item'), push_at i item' p)))
      else if \<not> tid < threadNum p then (Inl (Assert_fail ''id < _threadNum''), p)
      else if tid < 0 then (Inl (Undefined ''_queues[id] with a negative id''), p)
      else let item = \<lparr>canSteal = False, wfn = Some fn\<rparr>
           in (ok (nat tid, item), push_at (nat tid) item p))"

definition scheduleById ::
  "(nat \<Rightarrow> bool) \<Rightarrow> nat \<Rightarrow> 'f option \<Rightarrow> int \<Rightarrow> 'f ThreadPool \<Rightarrow> ('f ThreadPool, ERROR_TYPE) call" where
  "scheduleById got_lock rnd fn tid p =
     (case fn of
        None \<Rightarrow> (ok ERROR_POOL_ITEM_IS_NULL, p)
      | Some f \<Rightarrow>
          if tp_stop p then (ok ERROR_POOL_HAS_STOP, p)
          else bind_st (place got_lock rnd f tid p) (\<lambda>_ p'. (ok ERROR_NONE, p')))"

text \<open>
  \<open>getCurrentId\<close> reads a thread-local pair of a thread number and a pool; \<open>me\<close> is the pool itself.
\<close>

definition getCurrentId :: "(64 word \<times> nat option) \<Rightarrow> nat \<Rightarrow> 32 word" where
  "getCurrentId current me = (if snd current = Some me then ucast (fst current) else - 1)"

definition getItemCount :: "'f ThreadPool \<Rightarrow> nat" where
  "getItemCount p = sum_list (map q_size (tqueues p))"

section \<open>Core bindings\<close>

text \<open>
  \<open>getCurrentCpus\<close> lists the processors the process may use; \<open>None\<close> is the answer of a failing
  \<open>sched_getaffinity\<close>.  \<open>bind_threads ids n\<close> is the processor each of the first \<open>n\<close> threads is bound to.
\<close>

definition CPU_SETSIZE :: nat where
  "CPU_SETSIZE = 1024"

definition getCurrentCpus :: "(nat \<Rightarrow> bool) option \<Rightarrow> nat list" where
  "getCurrentCpus affinity = (case affinity of None \<Rightarrow> [] | Some isset \<Rightarrow> filter isset [0..<CPU_SETSIZE])"

fun bind_threads :: "nat list \<Rightarrow> nat \<Rightarrow> nat list result" where
  "bind_threads cpu_ids 0 = ok []"
| "bind_threads cpu_ids (Suc i) =
     (case bind_threads cpu_ids i of
        Inl e \<Rightarrow> Inl e
      | Inr cs \<Rightarrow>
          if length cpu_ids = 0 then Inl (Undefined ''modulo zero'') else ok (cs @ [cpu_ids ! (i mod length cpu_ids)]))"

definition start_threads :: "(nat \<Rightarrow> bool) option \<Rightarrow> 'f ThreadPool \<Rightarrow> nat list result" where
  "start_threads affinity p = (if enableCoreBindings p then bind_threads (getCurrentCpus affinity) (tnum p) else ok [])"

lemma bind_threads_ok: "ids \<noteq> [] \<Longrightarrow> bind_threads ids n = ok (map (\<lambda>i. ids ! (i mod length ids)) [0..<n])"
  by (induction n) auto

text \<open>
  Each thread is bound to a processor the process may use, in turn; when the affinity cannot be read
  the first thread already computes a remainder modulo zero.
\<close>

lemma core_bindings:
  assumes "enableCoreBindings p"
  shows "affinity = Some isset \<Longrightarrow> c < CPU_SETSIZE \<Longrightarrow> isset c \<Longrightarrow>
      \<exists>cs. start_threads affinity p = ok cs \<and> length cs = tnum p \<and> (\<forall>x \<in> set cs. isset x \<and> x < CPU_SETSIZE)"
    and "affinity = None \<Longrightarrow> 0 < threadNum p \<Longrightarrow> start_threads affinity p = Inl (Undefined ''modulo zero'')"
proof -
  assume a: "affinity = Some isset" "c < CPU_SETSIZE" "isset c"
  let ?ids = "getCurrentCpus affinity"
  have ids: "?ids \<noteq> []" "\<forall>x \<in> set ?ids. isset x \<and> x < CPU_SETSIZE" using a by (auto simp: getCurrentCpus_def filter_empty_conv)
  then have "?ids ! (i mod length ?ids) \<in> set ?ids" for i by simp
  then show "\<exists>cs. start_threads affinity p = ok cs \<and> length cs = tnum p \<and> (\<forall>x \<in> set cs. isset x \<and> x < CPU_SETSIZE)"
    using assms ids bind_threads_ok[OF ids(1)] by (auto simp: start_threads_def)
next
  assume a: "affinity = None" "0 < threadNum p"
  have "bind_threads [] (Suc n) = Inl (Undefined ''modulo zero'')" for n by (induction n) auto
  then show "start_threads affinity p = Inl (Undefined ''modulo zero'')"
    using assms a by (cases "tnum p") (auto simp: start_threads_def getCurrentCpus_def)
qed

section \<open>Workers\<close>

datatype 'f wpc =
    W_top
  | W_steal nat
  | W_pop
  | W_check
  | W_run "'f WorkItem"
  | W_exit

text \<open>
  A step returns the next program point, the pool, what it took from which queue, and the function
  it ran.  \<open>None\<close>: the worker is blocked in \<open>pop\<close> or has left its loop.
\<close>

fun worker_step ::
  "bool \<Rightarrow> nat \<Rightarrow> 'f wpc \<Rightarrow> 'f ThreadPool \<Rightarrow>
     ('f wpc \<times> 'f ThreadPool \<times> (nat \<times> 'f WorkItem) list \<times> 'f list) option" where
  "worker_step got_lock tid W_top p = Some (if enableWorkSteal p then W_steal 0 else W_pop, p, [], [])"
| "worker_step got_lock tid (W_steal n) p =
     (if n < tnum p * 2
      then let i = (tid + n) mod tnum p
           in case try_pop_if got_lock (Some canSteal) (tqueues p ! i) of
                (Some item, q) \<Rightarrow>
                  Some (if wfn item = None then W_pop else W_run item,
                        p\<lparr>tqueues := (tqueues p)[i := q]\<rparr>, [(i, item)], [])
              | (None, q) \<Rightarrow> Some (W_steal (Suc n), p, [], [])
      else Some (W_pop, p, [], []))"
| "worker_step got_lock tid W_pop p =
     (case pop (tqueues p ! tid) of
        None \<Rightarrow> None
      | Some (None, q) \<Rightarrow> Some (W_check, p, [], [])
      | Some (Some item, q) \<Rightarrow>
          Some (W_run item, p\<lparr>tqueues := (tqueues p)[tid := q]\<rparr>, [(tid, item)], []))"
| "worker_step got_lock tid W_check p = Some (if tp_stop p then W_exit else W_top, p, [], [])"
| "worker_step got_lock tid (W_run item) p =
     Some (W_top, p, [], case wfn item of None \<Rightarrow> [] | Some f \<Rightarrow> [f])"
| "worker_step got_lock tid W_exit p = None"

section \<open>The system\<close>

record 'f pool_sys =
  pool :: "'f ThreadPool"
  workers :: "'f wpc list"
  clients :: "('f \<times> int) list"
  pushed :: "(nat \<times> 'f WorkItem) list"
  popped :: "(nat \<times> 'f WorkItem) list"
  executed :: "(nat \<times> 'f) list"
  late :: bool

definition valid_id :: "int \<Rightarrow> 'f ThreadPool \<Rightarrow> bool" where
  "valid_id tid p \<longleftrightarrow> tid = -1 \<or> 0 \<le> tid \<and> tid < threadNum p"

inductive worker_trans :: "'f pool_sys \<Rightarrow> 'f pool_sys \<Rightarrow> bool" where
  P_work: "i < length (workers s) \<Longrightarrow>
    worker_step got_lock i (workers s ! i) (pool s) = Some (pc, p, took, fs) \<Longrightarrow>
    worker_trans s (s\<lparr>pool := p, workers := (workers s)[i := pc], popped := popped s @ took,
                      executed := executed s @ map (Pair i) fs\<rparr>)"

inductive pool_step :: "'f pool_sys \<Rightarrow> 'f pool_sys \<Rightarrow> bool" where
  P_worker: "worker_trans s t \<Longrightarrow> pool_step s t"
| P_call: "\<not> tp_stop (pool s) \<Longrightarrow> valid_id tid (pool s) \<Longrightarrow>
    pool_step s (s\<lparr>clients := (f, tid) # clients s\<rparr>)"
| P_push: "(f, tid) \<in> set (clients s) \<Longrightarrow>
    place got_lock rnd f tid (pool s) = (ok (i, item), p) \<Longrightarrow>
    pool_step s (s\<lparr>clients := remove1 (f, tid) (clients s), pool := p,
                   pushed := pushed s @ [(i, item)], late := (late s \<or> tp_stop (pool s))\<rparr>)"
| P_stop: "pool_step s (s\<lparr>pool := (pool s)\<lparr>tp_stop := True\<rparr>\<rparr>)"
| P_stopq: "tp_stop (pool s) \<Longrightarrow> i < length (tqueues (pool s)) \<Longrightarrow>
    pool_step s (s\<lparr>pool := (pool s)\<lparr>tqueues := (tqueues (pool s))[i := stop_queue (tqueues (pool s) ! i)]\<rparr>\<rparr>)"

definition pool_init :: "'f pool_sys \<Rightarrow> bool" where
  "pool_init s \<longleftrightarrow> 0 < threadNum (pool s) \<and> tqueues (pool s) = replicate (tnum (pool s)) Queue_new
     \<and> \<not> tp_stop (pool s) \<and> workers s = replicate (tnum (pool s)) W_top
     \<and> clients s = [] \<and> pushed s = [] \<and> popped s = [] \<and> executed s = [] \<and> \<not> late s"

section \<open>Placing an item\<close>

lemma try_push_all_ok:
  assumes "0 < tnum p"
  shows "try_push_all got_lock item ns p =
    (case find got_lock ns of
       None \<Rightarrow> (None, p) | Some n \<Rightarrow> (Some (n mod tnum p), push_at (n mod tnum p) item p))"
  using assms by (induction ns) (simp_all add: try_push_def push_at_def Let_def)

lemma place_ok:
  assumes "0 < threadNum p" and "valid_id tid p"
  shows "\<exists>i item. place got_lock rnd f tid p = (ok (i, item), push_at i item p)
    \<and> i < tnum p \<and> wfn item = Some f \<and> (tid \<noteq> -1 \<longrightarrow> i = nat tid)"
proof (cases "tid = -1")
  case True
  then show ?thesis
    using assms by (auto simp: place_def try_push_all_ok Let_def split: option.splits)
next
  case False
  then show ?thesis using assms by (simp add: place_def valid_id_def Let_def)
qed

lemma place_cases:
  assumes "place got_lock rnd f tid p = (ok (i, item), p')" and "0 < threadNum p" and "valid_id tid p"
  shows "p' = push_at i item p \<and> i < tnum p \<and> wfn item = Some f"
  using place_ok[OF assms(2,3), of got_lock rnd f] assms(1) by auto

section \<open>Invariant\<close>

definition of_queue :: "nat \<Rightarrow> (nat \<times> 'a) list \<Rightarrow> 'a list" where
  "of_queue i l = map snd (filter (\<lambda>p. fst p = i) l)"

definition queued :: "'f ThreadPool \<Rightarrow> 'f WorkItem multiset" where
  "queued p = sum_list (map (\<lambda>q. mset (q_items q)) (tqueues p))"

fun hand :: "'f wpc \<Rightarrow> 'f WorkItem multiset" where
  "hand (W_run item) = {#item#}"
| "hand _ = {#}"

definition in_hand :: "'f wpc list \<Rightarrow> 'f WorkItem multiset" where
  "in_hand ws = sum_list (map hand ws)"

fun wpc_ok :: "'f ThreadPool \<Rightarrow> bool \<Rightarrow> 'f WorkItem Queue \<Rightarrow> 'f wpc \<Rightarrow> bool" where
  "wpc_ok p l q (W_steal n) = (n \<le> tnum p * 2)"
| "wpc_ok p l q W_check = (q_stop q \<and> (\<not> l \<longrightarrow> q_items q = []))"
| "wpc_ok p l q (W_run item) = (wfn item \<noteq> None)"
| "wpc_ok p l q W_exit = (q_stop q \<and> (\<not> l \<longrightarrow> q_items q = []))"
| "wpc_ok p l q _ = True"

definition shape_ok :: "'f pool_sys \<Rightarrow> bool" where
  "shape_ok s \<longleftrightarrow> 0 < threadNum (pool s) \<and> length (tqueues (pool s)) = tnum (pool s)
     \<and> length (workers s) = tnum (pool s) \<and> (\<forall>c \<in> set (clients s). valid_id (snd c) (pool s))"

definition queues_ok :: "'f pool_sys \<Rightarrow> bool" where
  "queues_ok s \<longleftrightarrow> (\<forall>i < tnum (pool s).
       of_queue i (pushed s) = of_queue i (popped s) @ q_items (tqueues (pool s) ! i)
     \<and> (\<forall>item \<in> set (q_items (tqueues (pool s) ! i)). wfn item \<noteq> None)
     \<and> (q_stop (tqueues (pool s) ! i) \<longrightarrow> tp_stop (pool s))
     \<and> wpc_ok (pool s) (late s) (tqueues (pool s) ! i) (workers s ! i))"

definition items_ok :: "'f pool_sys \<Rightarrow> bool" where
  "items_ok s \<longleftrightarrow> mset (map snd (pushed s)) = mset (map snd (popped s)) + queued (pool s)
     \<and> image_mset wfn (mset (map snd (popped s))) =
         image_mset wfn (in_hand (workers s)) + mset (map (Some \<circ> snd) (executed s))"

definition pool_inv :: "'f pool_sys \<Rightarrow> bool" where
  "pool_inv s \<longleftrightarrow> shape_ok s \<and> queues_ok s \<and> items_ok s"

lemma of_queue_append [simp]: "of_queue i (xs @ ys) = of_queue i xs @ of_queue i ys"
  by (simp add: of_queue_def)

lemma of_queue_simps [simp]:
  "of_queue i [] = []"
  "of_queue i ((j, x) # xs) = (if i = j then x # of_queue i xs else of_queue i xs)"
  by (simp_all add: of_queue_def)

lemma sum_list_update_mset:
  "i < length xs \<Longrightarrow> sum_list (map f (xs[i := x])) + f (xs ! i) = sum_list (map f xs) + (f x :: 'b multiset)"
proof (induction xs arbitrary: i)
  case Nil
  then show ?case by simp
next
  case (Cons y ys)
  then show ?case by (cases i) (auto simp: add_ac)
qed

lemma sum_list_no_items: "(\<And>x. x \<in> set xs \<Longrightarrow> f x = {#}) \<Longrightarrow> sum_list (map f xs) = {#}"
  by (induction xs) auto

lemma queued_take:
  assumes "i < length (tqueues p)" and "q_items (tqueues p ! i) = x # q_items q"
  shows "queued p = add_mset x (queued (p\<lparr>tqueues := (tqueues p)[i := q]\<rparr>))"
  using sum_list_update_mset[OF assms(1), of "\<lambda>q. mset (q_items q)" q] assms(2)
  by (simp add: queued_def)

lemma queued_push: "i < length (tqueues p) \<Longrightarrow> queued (push_at i item p) = add_mset item (queued p)"
  using sum_list_update_mset[of i "tqueues p" "\<lambda>q. mset (q_items q)" "push item (tqueues p ! i)"]
  by (simp add: queued_def push_at_def)

lemma queued_stop:
  "i < length (tqueues p) \<Longrightarrow>
   queued (p\<lparr>tqueues := (tqueues p)[i := stop_queue (tqueues p ! i)]\<rparr>) = queued p"
  using sum_list_update_mset[of i "tqueues p" "\<lambda>q. mset (q_items q)" "stop_queue (tqueues p ! i)"]
  by (simp add: queued_def)

lemma in_hand_update:
  "i < length ws \<Longrightarrow> in_hand (ws[i := w]) + hand (ws ! i) = in_hand ws + hand w"
  unfolding in_hand_def by (rule sum_list_update_mset)

text \<open>What a worker step does, in the three forms the invariant distinguishes.\<close>

lemma worker_step_cases:
  assumes "worker_step l i pc p = Some (pc', p', took, fs)" and "0 < tnum p"
    and "i < tnum p" and "wpc_ok p b (tqueues p ! i) pc"
    and "\<forall>j < tnum p. \<forall>item \<in> set (q_items (tqueues p ! j)). wfn item \<noteq> None"
  obtains
    (idle) "p' = p" "took = []" "fs = []" "hand pc = {#}" "hand pc' = {#}"
      "wpc_ok p b (tqueues p ! i) pc'"
  | (took) j item q where "j < tnum p" "q_items (tqueues p ! j) = item # q_items q"
      "q_stop q = q_stop (tqueues p ! j)" "p' = p\<lparr>tqueues := (tqueues p)[j := q]\<rparr>"
      "took = [(j, item)]" "fs = []" "hand pc = {#}" "pc' = W_run item" "wfn item \<noteq> None"
  | (ran) item f where "p' = p" "took = []" "pc = W_run item" "wfn item = Some f" "fs = [f]" "pc' = W_top"
proof (cases pc)
  case W_top
  then show thesis using assms(1) by (intro idle) auto
next
  case (W_steal n)
  let ?j = "(i + n) mod tnum p"
  have j: "?j < tnum p" using assms(2) by simp
  show thesis
  proof (cases "n < tnum p * 2")
    case True
    obtain x q where t: "try_pop_if l (Some canSteal) (tqueues p ! ?j) = (x, q)" by fastforce
    show thesis
    proof (cases x)
      case None
      then show thesis using assms(1) W_steal True t by (intro idle) (auto simp: Let_def)
    next
      case (Some item)
      have q: "q_items (tqueues p ! ?j) = item # q_items q" "q_stop q = q_stop (tqueues p ! ?j)"
        using try_pop_if_some[OF t[unfolded Some]] by auto
      then have "wfn item \<noteq> None" using assms(5) j by auto
      then show thesis using assms(1) W_steal True t Some q j by (intro took[of ?j item q]) (auto simp: Let_def)
    qed
  next
    case False
    then show thesis using assms(1) W_steal by (intro idle) auto
  qed
next
  case W_pop
  show thesis
  proof (cases "pop (tqueues p ! i)")
    case None
    then show thesis using assms(1) W_pop by simp
  next
    case (Some r)
    obtain x q where r: "r = (x, q)" by fastforce
    show thesis
    proof (cases x)
      case None
      then have "q_items (tqueues p ! i) = []" "q_stop (tqueues p ! i)"
        using Some r by (simp_all add: pop_false)
      then show thesis using assms(1) W_pop Some r None by (intro idle) auto
    next
      case (Some item)
      have q: "q_items (tqueues p ! i) = item # q_items q" "q_stop q = q_stop (tqueues p ! i)"
        using pop_some[of "tqueues p ! i" item q] \<open>pop (tqueues p ! i) = Some r\<close> r Some by auto
      then have "wfn item \<noteq> None" using assms(3,5) by auto
      then show thesis
        using assms(1,3) W_pop \<open>pop (tqueues p ! i) = Some r\<close> r Some q by (intro took[of i item q]) auto
    qed
  qed
next
  case W_check
  then show thesis using assms(1,4) by (intro idle) (auto split: if_splits)
next
  case (W_run item)
  then show thesis using assms(1,4) by (auto intro: ran)
next
  case W_exit
  then show thesis using assms(1) by simp
qed

lemma wpc_ok_frame:
  "wpc_ok p b q w \<Longrightarrow> threadNum p' = threadNum p \<Longrightarrow> q_stop q' = q_stop q \<Longrightarrow>
   (q_items q = [] \<longrightarrow> q_items q' = []) \<Longrightarrow> wpc_ok p' b q' w"
  by (cases w) auto

lemma wpc_ok_late: "wpc_ok p b q w \<Longrightarrow> threadNum p' = threadNum p \<Longrightarrow> q_stop q' = q_stop q \<Longrightarrow> wpc_ok p' True q' w"
  by (cases w) auto

lemma wpc_ok_unstopped:
  "wpc_ok p b q w \<Longrightarrow> \<not> q_stop q \<Longrightarrow> threadNum p' = threadNum p \<Longrightarrow> wpc_ok p' b' q' w"
  by (cases w) auto

lemma wpc_ok_stop: "wpc_ok p b q w \<Longrightarrow> threadNum p' = threadNum p \<Longrightarrow> wpc_ok p' b (stop_queue q) w"
  by (cases w) auto

lemma queues_ok_nth:
  "queues_ok s \<Longrightarrow> i < tnum (pool s) \<Longrightarrow>
   of_queue i (pushed s) = of_queue i (popped s) @ q_items (tqueues (pool s) ! i)
     \<and> (\<forall>item \<in> set (q_items (tqueues (pool s) ! i)). wfn item \<noteq> None)
     \<and> (q_stop (tqueues (pool s) ! i) \<longrightarrow> tp_stop (pool s))
     \<and> wpc_ok (pool s) (late s) (tqueues (pool s) ! i) (workers s ! i)"
  by (simp add: queues_ok_def)

lemma pool_inv_worker:
  assumes "pool_inv s" and "worker_trans s t"
  shows "pool_inv t"
  using assms(2)
proof (cases rule: worker_trans.cases)
  case (P_work i l pc' p' took fs)
  have sh: "0 < tnum (pool s)" "length (tqueues (pool s)) = tnum (pool s)"
      "length (workers s) = tnum (pool s)" and qo: "queues_ok s" and io: "items_ok s"
    using assms(1) by (auto simp: pool_inv_def shape_ok_def)
  have i: "i < tnum (pool s)" using P_work sh by simp
  note hand = in_hand_update[of i "workers s" pc', unfolded sh(3), OF i]
  have w: "wpc_ok (pool s) (late s) (tqueues (pool s) ! i) (workers s ! i)"
    and fn: "\<forall>j < tnum (pool s). \<forall>item \<in> set (q_items (tqueues (pool s) ! j)). wfn item \<noteq> None"
    using queues_ok_nth[OF qo] i by blast+
  show ?thesis
    using P_work(3) sh(1) i w fn
  proof (cases rule: worker_step_cases)
    case idle
    then have "queues_ok t" using qo sh i
      by (auto simp: queues_ok_def P_work(1) nth_list_update)
    moreover have "items_ok t" using io idle hand by (simp add: items_ok_def P_work(1))
    ultimately show ?thesis using assms(1) idle by (simp add: pool_inv_def shape_ok_def P_work(1))
  next
    case (took j item q)
    have "queues_ok t"
      unfolding queues_ok_def
    proof (intro allI impI)
      fix k assume k: "k < tnum (pool t)"
      then have "k < tnum (pool s)" using took P_work(1) by simp
      note old = queues_ok_nth[OF qo this]
      have w: "wpc_ok (pool s) (late s) (tqueues (pool s) ! k) (workers s ! k)" using old by blast
      show "of_queue k (pushed t) = of_queue k (popped t) @ q_items (tqueues (pool t) ! k)
          \<and> (\<forall>item \<in> set (q_items (tqueues (pool t) ! k)). wfn item \<noteq> None)
          \<and> (q_stop (tqueues (pool t) ! k) \<longrightarrow> tp_stop (pool t))
          \<and> wpc_ok (pool t) (late t) (tqueues (pool t) ! k) (workers t ! k)"
        using old took sh i \<open>k < tnum (pool s)\<close> wpc_ok_frame[OF w, of "pool t" "tqueues (pool t) ! k"]
        by (cases "k = j"; cases "k = i") (auto simp: P_work(1))
    qed
    moreover have "items_ok t"
      using io hand queued_take[of j "pool s" item q] took sh by (simp add: items_ok_def P_work(1))
    ultimately show ?thesis using assms(1) took
      by (simp add: pool_inv_def shape_ok_def P_work(1) valid_id_def)
  next
    case (ran item f)
    then have "queues_ok t" using qo sh i by (auto simp: queues_ok_def P_work(1) nth_list_update)
    moreover have "items_ok t"
      using io ran arg_cong[OF hand, of "image_mset wfn"] by (simp add: items_ok_def P_work(1))
    ultimately show ?thesis using assms(1) ran by (simp add: pool_inv_def shape_ok_def P_work(1))
  qed
qed

lemma pool_inv_push:
  assumes "pool_inv s" and "(f, tid) \<in> set (clients s)"
    and "place got_lock rnd f tid (pool s) = (ok (i, item), p)"
  shows "pool_inv (s\<lparr>clients := remove1 (f, tid) (clients s), pool := p,
           pushed := pushed s @ [(i, item)], late := (late s \<or> tp_stop (pool s))\<rparr>)" (is "pool_inv ?t")
proof -
  have sh: "0 < threadNum (pool s)" "length (tqueues (pool s)) = tnum (pool s)"
      "length (workers s) = tnum (pool s)" and qo: "queues_ok s" and io: "items_ok s"
      and vc: "\<forall>c \<in> set (clients s). valid_id (snd c) (pool s)"
    using assms(1) by (auto simp: pool_inv_def shape_ok_def)
  have "valid_id tid (pool s)" using vc assms(2) by fastforce
  then have p: "p = push_at i item (pool s)" and i: "i < tnum (pool s)" and fn: "wfn item = Some f"
    using place_cases[OF assms(3) sh(1)] by auto
  have "queues_ok ?t"
    unfolding queues_ok_def
  proof (intro allI impI)
    fix k assume "k < tnum (pool ?t)"
    then have k: "k < tnum (pool s)" by (simp add: p push_at_def)
    have w: "wpc_ok (pool s) (late s) (tqueues (pool s) ! k) (workers s ! k)"
      using queues_ok_nth[OF qo k] by blast
    have "wpc_ok (pool ?t) (late ?t) (tqueues (pool ?t) ! k) (workers s ! k)"
    proof (cases "tp_stop (pool s)")
      case True
      then show ?thesis using wpc_ok_late[OF w, of "pool ?t" "tqueues (pool ?t) ! k"] sh k
        by (cases "i = k") (simp_all add: p push_at_def)
    next
      case False
      then have "\<not> q_stop (tqueues (pool s) ! k)" using queues_ok_nth[OF qo k] by blast
      then show ?thesis using wpc_ok_unstopped[OF w] by (simp add: p push_at_def)
    qed
    then show "of_queue k (pushed ?t) = of_queue k (popped ?t) @ q_items (tqueues (pool ?t) ! k)
        \<and> (\<forall>item \<in> set (q_items (tqueues (pool ?t) ! k)). wfn item \<noteq> None)
        \<and> (q_stop (tqueues (pool ?t) ! k) \<longrightarrow> tp_stop (pool ?t))
        \<and> wpc_ok (pool ?t) (late ?t) (tqueues (pool ?t) ! k) (workers ?t ! k)"
      using queues_ok_nth[OF qo k] sh fn k by (auto simp: p push_at_def nth_list_update)
  qed
  moreover have "items_ok ?t" using io queued_push[of i "pool s" item] sh i by (simp add: items_ok_def p)
  ultimately show ?thesis
    using assms(1) set_remove1_subset[of "(f, tid)" "clients s"]
    by (auto simp: pool_inv_def shape_ok_def p push_at_def valid_id_def)
qed

lemma pool_inv_init: "pool_init s \<Longrightarrow> pool_inv s"
proof -
  assume s: "pool_init s"
  have z: "sum_list (replicate n {#}) = {#}" for n using sum_list_no_items[of "replicate n {#}" "\<lambda>x. x"] by simp
  show ?thesis using s
    by (auto simp: pool_init_def pool_inv_def shape_ok_def queues_ok_def items_ok_def queued_def
        in_hand_def Queue_new_def z)
qed

lemma pool_inv_step:
  assumes "pool_inv s" and "pool_step s t"
  shows "pool_inv t"
  using assms(2)
proof (cases rule: pool_step.cases)
  case P_worker
  then show ?thesis using assms(1) by (blast intro: pool_inv_worker)
next
  case (P_call tid f)
  then show ?thesis using assms(1)
    by (auto simp: pool_inv_def shape_ok_def queues_ok_def items_ok_def)
next
  case (P_push f tid l rnd i item p)
  then show ?thesis using pool_inv_push[OF assms(1)] by simp
next
  case P_stop
  have "wpc_ok p b q w \<Longrightarrow> wpc_ok (p\<lparr>tp_stop := True\<rparr>) b q w" for p :: "'a ThreadPool" and b q w
    by (rule wpc_ok_frame) auto
  then show ?thesis using assms(1) P_stop
    by (auto simp: pool_inv_def shape_ok_def queues_ok_def items_ok_def queued_def valid_id_def)
next
  case (P_stopq i)
  have qo: "queues_ok s" using assms(1) by (simp add: pool_inv_def)
  have "queues_ok t"
    unfolding queues_ok_def
  proof (intro allI impI)
    fix k assume "k < tnum (pool t)"
    then have k: "k < tnum (pool s)" by (simp add: P_stopq)
    note old = queues_ok_nth[OF qo k]
    have w: "wpc_ok (pool s) (late s) (tqueues (pool s) ! k) (workers s ! k)" using old by blast
    have "wpc_ok (pool t) (late t) (tqueues (pool t) ! k) (workers t ! k)"
      using wpc_ok_stop[OF w] wpc_ok_frame[OF w] P_stopq by (cases "k = i") simp_all
    then show "of_queue k (pushed t) = of_queue k (popped t) @ q_items (tqueues (pool t) ! k)
        \<and> (\<forall>item \<in> set (q_items (tqueues (pool t) ! k)). wfn item \<noteq> None)
        \<and> (q_stop (tqueues (pool t) ! k) \<longrightarrow> tp_stop (pool t))
        \<and> wpc_ok (pool t) (late t) (tqueues (pool t) ! k) (workers t ! k)"
      using old P_stopq by (cases "k = i") auto
  qed
  then show ?thesis using assms(1) queued_stop[of i "pool s"] P_stopq
    by (auto simp: pool_inv_def shape_ok_def items_ok_def valid_id_def)
qed

interpretation tp: inv_system pool_init pool_step pool_inv
  by unfold_locales (rule pool_inv_init, assumption, rule pool_inv_step)

section \<open>Shutting down\<close>

text \<open>
  The destructor has stopped the pool and every queue and no client is about to push: only the
  workers still move.
\<close>

definition draining :: "'f pool_sys \<Rightarrow> bool" where
  "draining s \<longleftrightarrow> pool_inv s \<and> clients s = [] \<and> tp_stop (pool s) \<and> (\<forall>q \<in> set (tqueues (pool s)). q_stop q)"

fun wpc_rank :: "nat \<Rightarrow> 'f wpc \<Rightarrow> nat" where
  "wpc_rank n (W_run item) = 2 * n + 6"
| "wpc_rank n W_top = 2 * n + 5"
| "wpc_rank n (W_steal k) = 2 * n + 4 - k"
| "wpc_rank n W_pop = 3"
| "wpc_rank n W_check = 1"
| "wpc_rank n W_exit = 0"

definition pool_rank :: "'f pool_sys \<Rightarrow> nat" where
  "pool_rank s = (2 * tnum (pool s) + 8) * size (queued (pool s))
     + sum_list (map (wpc_rank (tnum (pool s))) (workers s))"

lemma rank_update:
  assumes "i < length ws"
  shows "sum_list (map (wpc_rank n) (ws[i := w])) + wpc_rank n (ws ! i) = sum_list (map (wpc_rank n) ws) + wpc_rank n w"
  using sum_list_update_nat[of i "map (wpc_rank n) ws" "wpc_rank n w"] assms by (simp add: map_update)

lemma idle_rank:
  assumes "worker_step l i pc p = Some (pc', p, [], [])" and "tp_stop p" and "wpc_ok p b q pc"
  shows "wpc_rank (tnum p) pc' < wpc_rank (tnum p) pc"
  using assms by (cases pc) (auto simp: Let_def split: if_splits option.splits prod.splits)

lemma draining_step:
  assumes "draining s" and "worker_trans s t"
  shows "draining t \<and> pool_rank t < pool_rank s"
  using assms(2)
proof (cases rule: worker_trans.cases)
  case (P_work i l pc' p' took fs)
  have inv: "pool_inv s" and st: "tp_stop (pool s)" and qs: "\<forall>q \<in> set (tqueues (pool s)). q_stop q"
    using assms(1) by (auto simp: draining_def)
  have sh: "0 < tnum (pool s)" "length (tqueues (pool s)) = tnum (pool s)"
      "length (workers s) = tnum (pool s)" and qo: "queues_ok s"
    using inv by (auto simp: pool_inv_def shape_ok_def)
  have i: "i < tnum (pool s)" using P_work sh by simp
  have w: "wpc_ok (pool s) (late s) (tqueues (pool s) ! i) (workers s ! i)"
    and fn: "\<forall>j < tnum (pool s). \<forall>item \<in> set (q_items (tqueues (pool s) ! j)). wfn item \<noteq> None"
    using queues_ok_nth[OF qo] i by blast+
  have inv': "pool_inv t" using inv assms(2) by (rule pool_inv_worker)
  note r = rank_update[of i "workers s" "tnum (pool s)" pc', unfolded sh(3), OF i]
  show ?thesis
    using P_work(3) sh(1) i w fn
  proof (cases rule: worker_step_cases)
    case idle
    then have "wpc_rank (tnum (pool s)) pc' < wpc_rank (tnum (pool s)) (workers s ! i)"
      using idle_rank[OF _ st w] P_work(3) by simp
    then show ?thesis using r idle inv' assms(1) by (simp add: draining_def pool_rank_def P_work(1))
  next
    case (took j item q)
    have "q_stop q" using took qs sh by simp
    then have d: "draining t"
      using inv' assms(1) took by (auto simp: draining_def P_work(1) dest: subsetD[OF set_update_subset_insert])
    have "3 \<le> wpc_rank (tnum (pool s)) (workers s ! i)"
      using P_work(3) took w by (cases "workers s ! i") (auto split: if_splits)
    then show ?thesis
      using d r took queued_take[of j "pool s" item q] sh by (simp add: pool_rank_def P_work(1))
  next
    case (ran item f)
    then show ?thesis using r inv' assms(1) by (simp add: draining_def pool_rank_def P_work(1))
  qed
qed

interpretation shutdown: bounded_system draining worker_trans draining pool_rank
  by unfold_locales (simp_all add: draining_step)

lemma worker_enabled:
  "q_stop (tqueues p ! i) \<Longrightarrow> pc \<noteq> W_exit \<Longrightarrow> \<exists>r. worker_step l i pc p = Some r"
  by (cases pc) (auto simp: Let_def pop_def split: option.splits prod.splits)

lemma draining_stuck:
  assumes "draining s" and "\<forall>t. \<not> worker_trans s t"
  shows "workers s = replicate (tnum (pool s)) W_exit"
proof -
  have sh: "length (tqueues (pool s)) = tnum (pool s)" "length (workers s) = tnum (pool s)"
    using assms(1) by (auto simp: draining_def pool_inv_def shape_ok_def)
  have "workers s ! i = W_exit" if "i < length (workers s)" for i
  proof (rule ccontr)
    assume "workers s ! i \<noteq> W_exit"
    moreover have "q_stop (tqueues (pool s) ! i)" using assms(1) sh that by (simp add: draining_def)
    ultimately obtain r where "worker_step True i (workers s ! i) (pool s) = Some r"
      using worker_enabled by blast
    then show False using P_work[OF that, of True] assms(2) by (metis prod_cases4)
  qed
  then show ?thesis using sh by (intro nth_equalityI) auto
qed

lemma all_exited:
  assumes "pool_inv s" and "\<forall>w \<in> set (workers s). w = W_exit" and "\<not> late s"
  shows "mset (map (wfn \<circ> snd) (pushed s)) = mset (map (Some \<circ> snd) (executed s))"
proof -
  have sh: "length (tqueues (pool s)) = tnum (pool s)" "length (workers s) = tnum (pool s)"
    and qo: "queues_ok s" and io: "items_ok s"
    using assms(1) by (auto simp: pool_inv_def shape_ok_def)
  have "in_hand (workers s) = {#}" using assms(2) by (auto simp: in_hand_def intro!: sum_list_no_items)
  moreover have "queued (pool s) = {#}"
  proof -
    have "q_items (tqueues (pool s) ! i) = []" if "i < tnum (pool s)" for i
      using queues_ok_nth[OF qo that] assms(2,3) sh that by (metis nth_mem wpc_ok.simps(4))
    then show ?thesis using sh by (auto simp: queued_def in_set_conv_nth intro!: sum_list_no_items)
  qed
  ultimately have "mset (map snd (pushed s)) = mset (map snd (popped s))"
    and "image_mset wfn (mset (map snd (popped s))) = mset (map (Some \<circ> snd) (executed s))"
    using io by (simp_all add: items_ok_def)
  then have "image_mset wfn (mset (map snd (pushed s))) = mset (map (Some \<circ> snd) (executed s))" by simp
  then show ?thesis by (simp add: multiset.map_comp)
qed

section \<open>Properties\<close>

text \<open>
  C21.  No task is lost, duplicated or invented while the pool runs, however workers, stealing,
  clients and the destructor interleave: every queue hands out its items in the order they were
  pushed into it, and the accepted tasks are exactly those executed, those in a worker's hand and
  those still queued, counted with multiplicity.
\<close>

theorem pool_conservation:
  assumes "reach pool_init pool_step s"
  shows "(\<forall>i < tnum (pool s). of_queue i (pushed s) = of_queue i (popped s) @ q_items (tqueues (pool s) ! i))
    \<and> mset (map (wfn \<circ> snd) (pushed s)) =
        mset (map (Some \<circ> snd) (executed s)) + image_mset wfn (in_hand (workers s))
        + image_mset wfn (queued (pool s))"
proof
  have inv: "pool_inv s" using assms by (rule tp.reach_inv)
  then show "\<forall>i < tnum (pool s). of_queue i (pushed s) = of_queue i (popped s) @ q_items (tqueues (pool s) ! i)"
    by (simp add: pool_inv_def queues_ok_def)
  have "image_mset wfn (mset (map snd (pushed s))) =
      image_mset wfn (mset (map snd (popped s))) + image_mset wfn (queued (pool s))"
    using inv by (simp add: pool_inv_def items_ok_def)
  then show "mset (map (wfn \<circ> snd) (pushed s)) =
        mset (map (Some \<circ> snd) (executed s)) + image_mset wfn (in_hand (workers s))
        + image_mset wfn (queued (pool s))"
    using inv by (simp add: pool_inv_def items_ok_def multiset.map_comp add_ac)
qed

definition demo_pool :: "nat pool_sys" where
  "demo_pool = \<lparr>pool = ThreadPool_new 8 1 False False, workers = [W_top], clients = [], pushed = [],
     popped = [], executed = [], late = False\<rparr>"

lemma demo_pool_fields:
  "pool demo_pool = \<lparr>threadNum = 1, tqueues = [Queue_new], tp_stop = False, enableWorkSteal = False,
     enableCoreBindings = False\<rparr>"
  by (simp add: demo_pool_def ThreadPool_new_def)

lemma demo_pool_init: "pool_init demo_pool"
  unfolding pool_init_def demo_pool_fields by (simp add: demo_pool_def)

theorem pool_conservation_witness:
  "reach pool_init pool_step demo_pool \<and> mset (map (wfn \<circ> snd) (pushed demo_pool)) = {#}"
  using pool_conservation[OF reach_init, OF demo_pool_init]
    reach_init[of pool_init demo_pool pool_step, OF demo_pool_init]
  by (simp add: demo_pool_def)

text \<open>
  C22.  Shutdown.  Once the destructor has stopped the pool and all queues and no client is in the
  middle of a push, the workers take finitely many steps (bounded by the rank of the state), and
  when none can move all of them have left their loop, so the joins return; and if no task was
  pushed after the pool was stopped, every accepted task has then been executed exactly once.
\<close>

theorem pool_shutdown:
  assumes "reach pool_init pool_step s" and "clients s = []" and "tp_stop (pool s)"
    and "\<forall>q \<in> set (tqueues (pool s)). q_stop q"
  shows "(\<forall>n t. steps worker_trans n s t \<longrightarrow> n \<le> pool_rank s)
    \<and> (\<exists>n t. steps worker_trans n s t \<and> (\<forall>u. \<not> worker_trans t u))
    \<and> (\<forall>n t. steps worker_trans n s t \<and> (\<forall>u. \<not> worker_trans t u) \<longrightarrow>
         (\<forall>w \<in> set (workers t). w = W_exit)
         \<and> (\<not> late t \<longrightarrow> mset (map (wfn \<circ> snd) (pushed t)) = mset (map (Some \<circ> snd) (executed t))))"
proof (intro conjI allI impI)
  have d: "draining s" using tp.reach_inv[OF assms(1)] assms by (simp add: draining_def)
  show "n \<le> pool_rank s" if "steps worker_trans n s t" for n t
    using shutdown.steps_bound[OF d that] by simp
  show "\<exists>n t. steps worker_trans n s t \<and> (\<forall>u. \<not> worker_trans t u)"
    using d by (rule shutdown.run_to_end)
  fix n t assume t: "steps worker_trans n s t \<and> (\<forall>u. \<not> worker_trans t u)"
  then have dt: "draining t" using shutdown.steps_inv[OF d] by blast
  then show ex: "\<forall>w \<in> set (workers t). w = W_exit" using draining_stuck t by fastforce
  show "mset (map (wfn \<circ> snd) (pushed t)) = mset (map (Some \<circ> snd) (executed t))" if "\<not> late t"
    using all_exited[OF _ ex that] dt by (simp add: draining_def)
qed

definition demo_pool_down :: "nat pool_sys" where
  "demo_pool_down = demo_pool\<lparr>pool := (pool demo_pool)\<lparr>tp_stop := True,
     tqueues := [stop_queue Queue_new]\<rparr>\<rparr>"

lemma demo_pool_down_reach: "reach pool_init pool_step demo_pool_down"
proof -
  have a: "reach pool_init pool_step demo_pool" by (rule reach_init) (rule demo_pool_init)
  let ?b = "demo_pool\<lparr>pool := (pool demo_pool)\<lparr>tp_stop := True\<rparr>\<rparr>"
  have b: "reach pool_init pool_step ?b" by (rule reach_step[OF a P_stop])
  have "pool_step ?b (?b\<lparr>pool := (pool ?b)\<lparr>tqueues :=
      (tqueues (pool ?b))[0 := stop_queue (tqueues (pool ?b) ! 0)]\<rparr>\<rparr>)"
    by (rule P_stopq) (simp_all add: demo_pool_fields)
  then have "pool_step ?b demo_pool_down" by (simp add: demo_pool_down_def demo_pool_fields)
  with b show ?thesis by (rule reach_step)
qed

theorem pool_shutdown_witness:
  "\<exists>n t. steps worker_trans n demo_pool_down t \<and> (\<forall>u. \<not> worker_trans t u)"
  using pool_shutdown[OF demo_pool_down_reach]
  by (simp add: demo_pool_down_def demo_pool_fields) (simp add: demo_pool_def)

definition one_sys ::
  "bool \<Rightarrow> nat WorkItem Queue \<Rightarrow> nat wpc \<Rightarrow> (nat \<times> int) list \<Rightarrow> (nat \<times> nat WorkItem) list \<Rightarrow> bool \<Rightarrow>
     nat pool_sys" where
  "one_sys b q w cs ps l =
     \<lparr>pool = \<lparr>threadNum = 1, tqueues = [q], tp_stop = b, enableWorkSteal = False,
              enableCoreBindings = False\<rparr>,
      workers = [w], clients = cs, pushed = ps, popped = [], executed = [], late = l\<rparr>"

lemma one_work:
  assumes "worker_step True 0 w (pool (one_sys b q w cs ps l)) = Some (w', pool (one_sys b q w cs ps l), [], [])"
  shows "pool_step (one_sys b q w cs ps l) (one_sys b q w' cs ps l)"
  using P_work[of 0 "one_sys b q w cs ps l" True w' _ "[]" "[]"] assms
  by (simp add: one_sys_def P_worker)

lemma one_run:
  "reach pool_init pool_step
     (one_sys True (push \<lparr>canSteal = False, wfn = Some 7\<rparr> (stop_queue Queue_new)) W_exit []
        [(0, \<lparr>canSteal = False, wfn = Some 7\<rparr>)] True)"
proof -
  let ?q = "stop_queue Queue_new :: nat WorkItem Queue"
  have "demo_pool = one_sys False Queue_new W_top [] [] False"
    using demo_pool_fields by (simp add: one_sys_def demo_pool_def)
  then have 0: "reach pool_init pool_step (one_sys False Queue_new W_top [] [] False)"
    using demo_pool_init by (auto intro: reach_init)
  have 1: "pool_step (one_sys False Queue_new W_top [] [] False)
      (one_sys False Queue_new W_top [(7, 0)] [] False)"
    using P_call[of "one_sys False Queue_new W_top [] [] False" 0 7]
    by (simp add: one_sys_def valid_id_def)
  have 2: "pool_step (one_sys False Queue_new W_top [(7, 0)] [] False)
      (one_sys True Queue_new W_top [(7, 0)] [] False)"
    using P_stop[of "one_sys False Queue_new W_top [(7, 0)] [] False"] by (simp add: one_sys_def)
  have 3: "pool_step (one_sys True Queue_new W_top [(7, 0)] [] False)
      (one_sys True ?q W_top [(7, 0)] [] False)"
    using P_stopq[of "one_sys True Queue_new W_top [(7, 0)] [] False" 0] by (simp add: one_sys_def)
  have 4: "pool_step (one_sys True ?q W_top [(7, 0)] [] False) (one_sys True ?q W_pop [(7, 0)] [] False)"
    by (rule one_work) (simp add: one_sys_def)
  have 5: "pool_step (one_sys True ?q W_pop [(7, 0)] [] False) (one_sys True ?q W_check [(7, 0)] [] False)"
    by (rule one_work) (simp add: one_sys_def pop_def Queue_new_def)
  have 6: "pool_step (one_sys True ?q W_check [(7, 0)] [] False) (one_sys True ?q W_exit [(7, 0)] [] False)"
    by (rule one_work) (simp add: one_sys_def)
  have 7: "pool_step (one_sys True ?q W_exit [(7, 0)] [] False)
      (one_sys True (push \<lparr>canSteal = False, wfn = Some 7\<rparr> ?q) W_exit []
        [(0, \<lparr>canSteal = False, wfn = Some 7\<rparr>)] True)"
    using P_push[of 7 0 "one_sys True ?q W_exit [(7, 0)] [] False" "\<lambda>_. True" 0 0
        "\<lparr>canSteal = False, wfn = Some 7\<rparr>"]
    by (simp add: one_sys_def place_def push_at_def Let_def)
  show ?thesis
    by (rule reach_step[OF reach_step[OF reach_step[OF reach_step[OF reach_step[OF reach_step[OF
      reach_step[OF 0 1] 2] 3] 4] 5] 6] 7])
qed


end
