(* ===== verification/Executor_Model.thy ===== *)
theory Executor_Model
  imports ThreadPool_Model Signal_Model
begin

text \<open>
  Executors: \<open>SimpleExecutor\<close> over the thread pool (async_simple/executors/SimpleExecutor.h), its
  asynchronous I/O companion (async_simple/executors/SimpleIOExecutor.h), and the timer of the
  base class with its awaiter (async_simple/Executor.h).

  The calling thread is the thread-local pair that \<open>getCurrentId\<close> reads.  The Linux AIO calls are
  parameters: their return values and events are arguments.
\<close>

unbundle bit_operations_syntax

section \<open>SimpleExecutor\<close>

definition kContextMask :: "64 word" where
  "kContextMask = 0x40000000"

definition se_schedule ::
  "(nat \<Rightarrow> bool) \<Rightarrow> nat \<Rightarrow> 'f option \<Rightarrow> 'f ThreadPool \<Rightarrow> ('f ThreadPool, bool) call" where
  "se_schedule got_lock rnd func p =
     bind_st (scheduleById got_lock rnd func (- 1) p) (\<lambda>e p'. (ok (e = ERROR_NONE), p'))"

definition se_currentThreadInExecutor :: "64 word \<times> nat option \<Rightarrow> nat \<Rightarrow> bool" where
  "se_currentThreadInExecutor current me = (getCurrentId current me \<noteq> - 1)"

definition se_currentContextId :: "64 word \<times> nat option \<Rightarrow> nat \<Rightarrow> 64 word" where
  "se_currentContextId current me = scast (getCurrentId current me)"

definition se_checkout :: "64 word \<times> nat option \<Rightarrow> nat \<Rightarrow> 64 word" where
  "se_checkout current me = (scast (getCurrentId current me) OR kContextMask)"

text \<open>\<open>checkin\<close> also returns what it ran in place.\<close>

definition se_checkin ::
  "64 word \<times> nat option \<Rightarrow> nat \<Rightarrow> (nat \<Rightarrow> bool) \<Rightarrow> nat \<Rightarrow> 'f \<Rightarrow> 64 word \<Rightarrow> bool \<Rightarrow> 'f ThreadPool
     \<Rightarrow> ('f ThreadPool, bool \<times> 'f list) call" where
  "se_checkin current me got_lock rnd func context prompt_opt p =
     (let tid = context AND NOT kContextMask;
          prompt = (scast (getCurrentId current me) = tid \<and> prompt_opt)
      in if prompt then (ok (True, [func]), p)
         else bind_st (scheduleById got_lock rnd (Some func) (sint (ucast tid :: 32 word)) p)
                (\<lambda>e p'. (ok (e = ERROR_NONE, []), p')))"

section \<open>SimpleIOExecutor\<close>

record 'c SimpleIOExecutor =
  io_tasks :: "nat \<rightharpoonup> 'c"
  io_next :: nat
  io_shutdown :: bool
  io_ready :: bool

definition SimpleIOExecutor_new :: "'c SimpleIOExecutor" where
  "SimpleIOExecutor_new = \<lparr>io_tasks = Map.empty, io_next = 0, io_shutdown = False, io_ready = False\<rparr>"

text \<open>\<open>r\<close> is what \<open>io_setup\<close> returned.\<close>

definition io_init :: "int \<Rightarrow> 'c SimpleIOExecutor \<Rightarrow> bool \<times> 'c SimpleIOExecutor" where
  "io_init r s = (if r < 0 then (False, s) else (True, s\<lparr>io_ready := True\<rparr>))"

definition io_destroy :: "'c SimpleIOExecutor \<Rightarrow> 'c SimpleIOExecutor" where
  "io_destroy s = s\<lparr>io_shutdown := True, io_ready := False\<rparr>"

text \<open>
  \<open>submitIO\<close> and \<open>submitIOV\<close> allocate a task that holds the callback and submit it; \<open>r\<close> is what
  \<open>io_submit\<close> returned.  On failure the callback is called at once and the task deleted.  The
  second component lists the calls made.
\<close>

definition io_submit_call :: "int \<Rightarrow> 'c \<Rightarrow> 'c SimpleIOExecutor \<Rightarrow> ('c \<times> int) list \<times> 'c SimpleIOExecutor" where
  "io_submit_call r cbfn s =
     (let task = io_next s; s1 = s\<lparr>io_next := task + 1, io_tasks := (io_tasks s)(task \<mapsto> cbfn)\<rparr>
      in if r < 0 then ([(cbfn, r)], s1\<lparr>io_tasks := (io_tasks s1)(task := None)\<rparr>) else ([], s1))"

text \<open>The loop over the events that one \<open>io_getevents\<close> call returned.\<close>

fun io_process :: "(nat \<times> int) list \<Rightarrow> 'c SimpleIOExecutor \<Rightarrow> ('c SimpleIOExecutor, ('c \<times> int) list) call" where
  "io_process [] s = (ok [], s)"
| "io_process ((task, res) # events) s =
     (case io_tasks s task of
        None \<Rightarrow> (Inl (Undefined ''task used after delete''), s)
      | Some cb \<Rightarrow>
          bind_st (io_process events (s\<lparr>io_tasks := (io_tasks s)(task := None)\<rparr>))
            (\<lambda>cs s'. (ok ((cb, res) # cs), s')))"

definition io_loop_turn ::
  "int \<Rightarrow> (nat \<times> int) list \<Rightarrow> 'c SimpleIOExecutor \<Rightarrow> ('c SimpleIOExecutor, ('c \<times> int) list) call option" where
  "io_loop_turn n events s =
     (if io_shutdown s then None
      else Some (if n < 0 then (ok [], s) else io_process (take (nat n) events) s))"

section \<open>The timer of the base class\<close>

text \<open>
  The detached thread of \<open>schedule(func, dur, info, slot)\<close>: it installs a handler for \<open>Terminate\<close> that
  completes its promise, waits (until the time is over or the handler runs) only if the handler
  was installed, and schedules the function.  The result says whether it waits.
\<close>

definition timer_thread :: "nat option \<Rightarrow> 'h \<Rightarrow> 'h Signal \<Rightarrow> ('h Signal, bool) call" where
  "timer_thread slot wake s = tryEmplace Terminate slot wake s"

definition TimeAwaiter_ready :: "nat option \<Rightarrow> 'h Signal \<Rightarrow> bool" where
  "TimeAwaiter_ready slot s = hasCanceled Terminate slot s"

definition TimeAwaiter_resume :: "nat option \<Rightarrow> 'h Signal \<Rightarrow> ('h Signal, unit) call" where
  "TimeAwaiter_resume slot s = checkHasCanceled Terminate slot ''async_simple's timer is canceled!'' s"

record TimeAwaiter =
  ta_ex :: nat
  ta_dur :: int
  ta_schedule_info :: "64 word"
  ta_slot :: "nat option"

section \<open>The base class\<close>

datatype Priority = HIGHEST | DEFAULT | YIELD | LOWEST

fun priority_level :: "Priority \<Rightarrow> 64 word" where
  "priority_level HIGHEST = 0x0"
| "priority_level DEFAULT = 0x7"
| "priority_level YIELD = 0x8"
| "priority_level LOWEST = 0xF"

text \<open>
  What an executor inherits when it only implements \<open>schedule\<close>, here a parameter: the schedule
  information and the context are dropped, and what is not implemented throws.
\<close>

definition base_schedule_info :: "('f \<Rightarrow> 's \<Rightarrow> ('s, bool) call) \<Rightarrow> 'f \<Rightarrow> 64 word \<Rightarrow> 's \<Rightarrow> ('s, bool) call" where
  "base_schedule_info schedule func schedule_info = schedule func"

definition base_checkout :: "64 word" where
  "base_checkout = 0"

definition base_checkin :: "('f \<Rightarrow> 's \<Rightarrow> ('s, bool) call) \<Rightarrow> 'f \<Rightarrow> 64 word \<Rightarrow> 's \<Rightarrow> ('s, bool) call" where
  "base_checkin schedule func ctx = schedule func"

definition base_currentContextId :: "64 word" where
  "base_currentContextId = 0"

definition base_currentThreadInExecutor :: "bool result" where
  "base_currentThreadInExecutor = throw (Logic_error ''Not implemented'')"

definition base_stat :: "64 word result" where
  "base_stat = throw (Logic_error ''Not implemented'')"

definition base_getIOExecutor :: "nat option result" where
  "base_getIOExecutor = throw (Logic_error ''Not implemented'')"

text \<open>\<open>after\<close>, and the suspension of its awaiter: the timer thread gets the slot of the awaiter.\<close>

definition executor_after :: "nat \<Rightarrow> int \<Rightarrow> 64 word \<Rightarrow> nat option \<Rightarrow> TimeAwaiter" where
  "executor_after ex dur schedule_info slot =
     \<lparr>ta_ex = ex, ta_dur = dur, ta_schedule_info = schedule_info, ta_slot = slot\<rparr>"

definition executor_after_default :: "nat \<Rightarrow> int \<Rightarrow> TimeAwaiter" where
  "executor_after_default ex dur =
     \<lparr>ta_ex = ex, ta_dur = dur, ta_schedule_info = priority_level DEFAULT, ta_slot = None\<rparr>"

definition TimeAwaiter_suspend :: "TimeAwaiter \<Rightarrow> 'h \<Rightarrow> 'h Signal \<Rightarrow> ('h Signal, bool) call" where
  "TimeAwaiter_suspend a wake s = timer_thread (ta_slot a) wake s"

section \<open>Contexts\<close>

lemma context_bits: "bit kContextMask n \<longleftrightarrow> n = 30"
proof -
  have k: "kContextMask = 2 ^ 30" by (simp add: kContextMask_def)
  have "bit kContextMask n \<longleftrightarrow> 30 = n \<and> n < 64" unfolding k by (rule bit_now)
  then show ?thesis by auto
qed

lemma context_worker:
  assumes "i < 2 ^ 30"
  shows "scast (word_of_nat i :: 32 word) = (word_of_nat i :: 64 word)"
    and "(word_of_nat i OR kContextMask) AND NOT kContextMask = (word_of_nat i :: 64 word)"
    and "sint (word_of_nat i :: 32 word) = int i"
proof -
  have h: "\<not> bit i n" if "30 \<le> n" for n
    using assms that by (metis bit_take_bit_iff leD take_bit_nat_eq_self)
  show "(word_of_nat i OR kContextMask) AND NOT kContextMask = (word_of_nat i :: 64 word)"
    using h by (intro bit_word_eqI)
      (auto simp: bit_and_iff bit_or_iff bit_not_iff context_bits bit_of_nat_iff)
  have "int i < 2 ^ 30" using assms by (metis of_nat_less_iff of_nat_numeral of_nat_power)
  then show s: "sint (word_of_nat i :: 32 word) = int i"
    by (simp add: sint_uint uint_nat unat_of_nat signed_take_bit_int_eq_self take_bit_int_eq_self)
  have "scast (word_of_nat i :: 32 word) = (word_of_int (sint (word_of_nat i :: 32 word)) :: 64 word)"
    by (simp only: of_int_sint)
  then show "scast (word_of_nat i :: 32 word) = (word_of_nat i :: 64 word)" by (simp add: s)
qed

lemma ucast_thread: "i < 2 ^ 30 \<Longrightarrow> ucast (word_of_nat i :: 64 word) = (word_of_nat i :: 32 word)"
  by (simp add: unsigned_of_nat take_bit_nat_eq_self)

lemma worker_current:
  "i < 2 ^ 30 \<Longrightarrow> getCurrentId (word_of_nat i, Some me) me = word_of_nat i"
  by (simp add: getCurrentId_def ucast_thread)

section \<open>Properties\<close>

text \<open>
  Checking out on worker thread \<open>i\<close> and checking in later brings a function back to the same
  thread: the context is never the null context; from that thread with \<open>prompt\<close> set the function runs
  in place; otherwise it is put at the end of queue \<open>i\<close> as an item that no other worker may steal
  (unless the pool was stopped, which is reported).
\<close>

theorem checkin_same_context:
  assumes "0 < threadNum p" and "int i < threadNum p" and "i < 2 ^ 30" and "j < 2 ^ 30"
    and "c = se_checkout (word_of_nat i, Some me) me"
  shows "c \<noteq> 0
    \<and> se_checkin (word_of_nat j, Some me) me got_lock rnd f c prompt p =
        (if j = i \<and> prompt then (ok (True, [f]), p)
         else if tp_stop p then (ok (False, []), p)
         else (ok (True, []), push_at i \<lparr>canSteal = False, wfn = Some f\<rparr> p))"
proof -
  have c: "c = word_of_nat i OR kContextMask"
    using assms(3,5) by (simp add: se_checkout_def worker_current context_worker)
  have tid: "c AND NOT kContextMask = word_of_nat i" unfolding c by (rule context_worker(2)[OF assms(3)])
  have "bit c 30" by (simp add: c bit_or_iff context_bits)
  then have nz: "c \<noteq> 0" by auto
  have eq: "(word_of_nat j :: 64 word) = word_of_nat i \<longleftrightarrow> j = i"
    using assms(3,4) by (simp add: word_of_nat_eq_iff take_bit_nat_eq_self)
  have "sint (ucast (word_of_nat i :: 64 word) :: 32 word) = int i"
    using context_worker(3)[OF assms(3)] ucast_thread[OF assms(3)] by simp
  then show ?thesis
    using nz assms(1,2) eq
    by (simp add: se_checkin_def Let_def tid worker_current[OF assms(4)] context_worker(1)[OF assms(4)]
        scheduleById_def place_def)
qed

theorem checkin_same_context_witness:
  "fst (se_checkin (2, Some 0) 0 (\<lambda>_. True) 0 (5::nat) (se_checkout (1, Some 0) 0) True
     (ThreadPool_new 8 4 False False)) = ok (True, [])"
  using checkin_same_context[of "ThreadPool_new 8 4 False False" 1 2 "se_checkout (1, Some 0) 0" 0
      "\<lambda>_. True" 0 "5::nat" True]
  by (simp add: ThreadPool_new_def)

text \<open>
  From a thread that is not one of the pool's, \<open>checkout\<close> returns the all-ones context, which is
  not the null context; checking in with it, from anywhere but that thread, computes the thread
  number -1073741825, which passes the assertion \<open>id < _threadNum\<close> and indexes the queues with a
  negative number.
\<close>

theorem checkout_outside_pool:
  assumes "snd current \<noteq> Some me" and "\<not> tp_stop p" and "0 \<le> threadNum p"
  shows "se_checkout current me = - 1
    \<and> fst (se_checkin current me got_lock rnd f (se_checkout current me) prompt p)
        = Inl (Undefined ''_queues[id] with a negative id'')"
proof -
  have c: "se_checkout current me = - 1" using assms(1) by (simp add: se_checkout_def getCurrentId_def)
  have "sint (ucast (- 1 AND NOT kContextMask :: 64 word) :: 32 word) = - 1073741825"
    by (simp add: kContextMask_def)
  moreover have "(- 1 :: 64 word) \<noteq> - 1 AND NOT kContextMask" by (simp add: kContextMask_def)
  ultimately show ?thesis
    using assms by (simp add: c se_checkin_def getCurrentId_def scheduleById_def place_def Let_def)
qed

theorem checkout_outside_pool_witness:
  "fst (se_checkin (7, None) 0 (\<lambda>_. True) 0 (5::nat) (se_checkout (7, None) 0) True
     (ThreadPool_new 8 4 False False)) = Inl (Undefined ''_queues[id] with a negative id'')"
  by (rule conjunct2[OF checkout_outside_pool]) (simp_all add: ThreadPool_new_def)

section \<open>Input and output\<close>

text \<open>
  A session with the kernel: requests are submitted, and each turn of the loop thread gets events
  for distinct requests that are still outstanding.  \<open>asked\<close> and \<open>called\<close> log the callbacks.
\<close>

record 'c io_sys =
  io_exec :: "'c SimpleIOExecutor"
  asked :: "'c list"
  called :: "('c \<times> int) list"
  io_broken :: bool

inductive io_step :: "'c io_sys \<Rightarrow> 'c io_sys \<Rightarrow> bool" where
  IO_submit: "io_submit_call r cb (io_exec s) = (cs, e) \<Longrightarrow>
    io_step s (s\<lparr>io_exec := e, asked := asked s @ [cb], called := called s @ cs\<rparr>)"
| IO_turn: "distinct (map fst events) \<Longrightarrow> set (map fst events) \<subseteq> dom (io_tasks (io_exec s)) \<Longrightarrow>
    io_loop_turn n events (io_exec s) = Some (r, e) \<Longrightarrow>
    io_step s (s\<lparr>io_exec := e, called := called s @ (case r of Inl _ \<Rightarrow> [] | Inr cs \<Rightarrow> cs),
                 io_broken := (io_broken s \<or> (\<exists>f. r = Inl f))\<rparr>)"
| IO_destroy: "io_step s (s\<lparr>io_exec := io_destroy (io_exec s)\<rparr>)"

definition io_start :: "'c io_sys \<Rightarrow> bool" where
  "io_start s \<longleftrightarrow> s = \<lparr>io_exec = SimpleIOExecutor_new, asked = [], called = [], io_broken = False\<rparr>"

definition outstanding :: "'c SimpleIOExecutor \<Rightarrow> 'c multiset" where
  "outstanding e = image_mset (\<lambda>a. the (io_tasks e a)) (mset_set (dom (io_tasks e)))"

definition io_inv :: "'c io_sys \<Rightarrow> bool" where
  "io_inv s \<longleftrightarrow> \<not> io_broken s \<and> finite (dom (io_tasks (io_exec s)))
     \<and> (\<forall>a \<in> dom (io_tasks (io_exec s)). a < io_next (io_exec s))
     \<and> mset (asked s) = mset (map fst (called s)) + outstanding (io_exec s)"

lemma outstanding_add:
  assumes "finite (dom (io_tasks e))" and "a \<notin> dom (io_tasks e)"
  shows "outstanding (e\<lparr>io_tasks := (io_tasks e)(a \<mapsto> cb)\<rparr>) = add_mset cb (outstanding e)"
proof -
  have "image_mset (\<lambda>b. the (((io_tasks e)(a \<mapsto> cb)) b)) (mset_set (dom (io_tasks e)))
      = image_mset (\<lambda>b. the (io_tasks e b)) (mset_set (dom (io_tasks e)))"
    using assms by (intro image_mset_cong) auto
  moreover have "mset_set (dom ((io_tasks e)(a \<mapsto> cb))) = add_mset a (mset_set (dom (io_tasks e)))"
    using assms by simp
  ultimately show ?thesis using assms by (simp add: outstanding_def)
qed

lemma outstanding_remove:
  assumes "finite (dom (io_tasks e))" and "io_tasks e a = Some cb"
  shows "outstanding e = add_mset cb (outstanding (e\<lparr>io_tasks := (io_tasks e)(a := None)\<rparr>))"
proof -
  let ?e = "e\<lparr>io_tasks := (io_tasks e)(a := None)\<rparr>"
  have "?e\<lparr>io_tasks := (io_tasks ?e)(a \<mapsto> cb)\<rparr> = e"
    using assms(2) by (simp add: fun_upd_idem)
  then show ?thesis using outstanding_add[of ?e a cb] assms(1) by simp
qed

lemma io_process_ok:
  assumes "distinct (map fst events)" and "set (map fst events) \<subseteq> dom (io_tasks e)"
    and "finite (dom (io_tasks e))"
  shows "\<exists>cs e'. io_process events e = (ok cs, e') \<and> outstanding e = mset (map fst cs) + outstanding e'
    \<and> dom (io_tasks e') \<subseteq> dom (io_tasks e) \<and> io_next e' = io_next e"
  using assms
proof (induction events arbitrary: e)
  case Nil
  then show ?case by simp
next
  case (Cons ev events)
  obtain a res where ev: "ev = (a, res)" by (cases ev)
  obtain cb where a: "io_tasks e a = Some cb" using Cons.prems(2) ev by auto
  let ?e = "e\<lparr>io_tasks := (io_tasks e)(a := None)\<rparr>"
  have rest: "distinct (map fst events)" "set (map fst events) \<subseteq> dom (io_tasks ?e)" "finite (dom (io_tasks ?e))"
    using Cons.prems ev by auto
  obtain cs e' where IH: "io_process events ?e = (ok cs, e')"
      "outstanding ?e = mset (map fst cs) + outstanding e'" "dom (io_tasks e') \<subseteq> dom (io_tasks ?e)"
      "io_next e' = io_next ?e"
    using Cons.IH[OF rest] by blast
  moreover have "dom (io_tasks ?e) \<subseteq> dom (io_tasks e)" by auto
  ultimately show ?case using outstanding_remove[OF Cons.prems(3) a] by (simp add: ev a) blast
qed

lemma io_inv_step:
  assumes "io_inv s" and "io_step s t"
  shows "io_inv t"
  using assms(2)
proof (cases rule: io_step.cases)
  case (IO_submit r cb cs e)
  have fin: "finite (dom (io_tasks (io_exec s)))" and new: "io_next (io_exec s) \<notin> dom (io_tasks (io_exec s))"
    using assms(1) by (auto simp: io_inv_def)
  show ?thesis
  proof (cases "r < 0")
    case True
    then have "cs = [(cb, r)]" "io_tasks e = io_tasks (io_exec s)" "io_next e = io_next (io_exec s) + 1"
      using IO_submit(2) new by (auto simp: io_submit_call_def Let_def fun_upd_idem domIff)
    then show ?thesis using assms(1)
      by (simp add: io_inv_def IO_submit(1) outstanding_def less_SucI)
  next
    case False
    then have e: "cs = []" "e = (io_exec s)\<lparr>io_next := io_next (io_exec s) + 1,
        io_tasks := (io_tasks (io_exec s))(io_next (io_exec s) \<mapsto> cb)\<rparr>"
      using IO_submit(2) by (auto simp: io_submit_call_def Let_def)
    have "outstanding e = outstanding ((io_exec s)\<lparr>io_tasks :=
        (io_tasks (io_exec s))(io_next (io_exec s) \<mapsto> cb)\<rparr>)"
      by (simp add: e outstanding_def)
    then show ?thesis using assms(1) outstanding_add[OF fin new, of cb] e
      by (simp add: io_inv_def IO_submit(1) less_SucI)
  qed
next
  case (IO_turn events n r e)
  let ?ev = "take (nat n) events"
  have sub: "set (map fst ?ev) \<subseteq> dom (io_tasks (io_exec s))"
    using IO_turn(3) by (auto dest: in_set_takeD)
  have "distinct (map fst ?ev)" using IO_turn(2) by (simp add: take_map[symmetric])
  then obtain cs e' where p: "io_process ?ev (io_exec s) = (ok cs, e')"
      "outstanding (io_exec s) = mset (map fst cs) + outstanding e'"
      "dom (io_tasks e') \<subseteq> dom (io_tasks (io_exec s))" "io_next e' = io_next (io_exec s)"
    using io_process_ok[OF _ sub] assms(1) by (auto simp: io_inv_def)
  then show ?thesis using assms(1) IO_turn(4)
    by (auto simp: io_inv_def IO_turn(1) io_loop_turn_def split: if_splits intro: finite_subset)
next
  case IO_destroy
  then show ?thesis using assms(1) by (simp add: io_inv_def io_destroy_def outstanding_def)
qed

interpretation io: inv_system io_start io_step io_inv
proof
  show "io_start s \<Longrightarrow> io_inv s" for s :: "'a io_sys"
    by (simp add: io_start_def io_inv_def SimpleIOExecutor_new_def outstanding_def)
qed (rule io_inv_step)

text \<open>
  The I/O executor calls every submitted callback exactly once, unless its request is still
  outstanding: a failing submission calls it at once, an event calls and deletes it, and no task is
  used after it was deleted, provided the kernel reports each accepted request at most once.
\<close>

theorem io_callbacks_once:
  assumes "reach io_start io_step s"
  shows "\<not> io_broken s \<and> mset (asked s) = mset (map fst (called s)) + outstanding (io_exec s)"
  using io.reach_inv[OF assms] by (simp add: io_inv_def)

theorem io_callbacks_once_witness:
  "\<exists>s :: nat io_sys. reach io_start io_step s \<and> called s = [(4, - 22)] \<and> \<not> io_broken s
     \<and> outstanding (io_exec s) = {#}"
proof -
  let ?a = "\<lparr>io_exec = SimpleIOExecutor_new, asked = [], called = [], io_broken = False\<rparr> :: nat io_sys"
  obtain cs e where e: "io_submit_call (- 22) 4 (io_exec ?a) = (cs, e)" by fastforce
  then have cs: "cs = [(4, - 22)]" by (simp add: io_submit_call_def Let_def)
  have r: "reach io_start io_step (?a\<lparr>io_exec := e, asked := asked ?a @ [4], called := called ?a @ cs\<rparr>)"
  proof (rule reach_step)
    show "reach io_start io_step ?a" by (rule reach_init) (simp add: io_start_def)
  qed (rule IO_submit[OF e])
  show ?thesis using io_callbacks_once[OF r] r cs by (intro exI conjI) auto
qed

section \<open>Timers\<close>

lemma terminate_state: "sig_state sg AND Terminate = 0 \<longleftrightarrow> \<not> bit (sig_state sg) 0"
  using now_and_state[of 0 "sig_state sg"] by (simp add: and.commute)

lemma managers_map_of:
  "slot_ok st n \<Longrightarrow> (i, c) \<in> set (managers n) \<longleftrightarrow> map_of (managers n) i = Some c"
  by (simp add: slot_ok_def)

lemma timer_installs:
  fixes wake :: 'h
  assumes "slots_ok sg" and "sid < length (slots sg)" and "\<not> bit (sig_state sg) 0"
  defines "sg1 \<equiv> snd (timer_thread (Some sid) wake sg)"
  shows "fst (timer_thread (Some sid) wake sg) = ok True
    \<and> map_of (managers (slots sg1 ! sid)) 0 = Some (Handler wake) \<and> slots_ok sg1
    \<and> sig_state sg1 = sig_state sg \<and> sid < length (slots sg1)
    \<and> slot_filter (slots sg1 ! sid) = slot_filter (slots sg ! sid)"
proof -
  let ?n = "snd (loadHandler_emplace 0 (slots sg ! sid))"
  let ?s = "upd_slot sid (\<lambda>n. n\<lparr>managers := set_cell 0 (Handler wake) (managers n)\<rparr>)
      (upd_slot sid (\<lambda>_. ?n) sg)"
  have "fst (loadHandler_emplace 0 (slots sg ! sid)) \<noteq> EmittedTag"
    using load_emitted[OF slots_ok_nth[OF assms(1,2)]] assms(3) by blast
  then have e: "emplace sid (2 ^ 0) wake sg = (ok True, ?s)"
    using assms(3) by (subst emplace_exp) (simp_all add: Let_def)
  then have "timer_thread (Some sid) wake sg = (ok True, ?s)" by (simp add: timer_thread_def tryEmplace_def)
  moreover have "slots_ok ?s" using slots_ok_emplace[OF assms(1), of sid "2 ^ 0" wake] e by simp
  moreover have "slot_filter ?n = slot_filter (slots sg ! sid)"
    by (simp add: loadHandler_emplace_def split: option.splits)
  moreover have "0 \<in> fst ` set (managers ?n)"
    by (auto simp: loadHandler_emplace_def split: option.splits dest!: map_of_SomeD) (metis fst_conv image_eqI)
  ultimately show ?thesis
    using assms(2) by (simp add: sg1_def map_of_set_cell)
qed

lemma map_of_fire:
  "map_of (map (fire v) ms) i = map_option (\<lambda>c. if bit v i \<and> i < 32 then EmittedTag else c) (map_of ms i)"
  by (induction ms) (auto simp: fire_def)

lemma emit_to_handler:
  assumes "slots_ok sg" and "sid < length (slots sg)"
    and "map_of (managers (slots sg ! sid)) 0 = Some (Handler wake)"
    and "\<not> bit (sig_state sg) 0" and "bit (slot_filter (slots sg ! sid)) 0"
  shows "\<exists>v sg2 evs. emits Terminate sg = ok (v, sg2, evs) \<and> calls sid 0 evs = 1
    \<and> map_of (managers (slots sg2 ! sid)) 0 = Some EmittedTag \<and> canceled sid sg2"
proof -
  define v where "v = fst (UpdateState (sig_state sg) Terminate)"
  let ?sg2 = "sg\<lparr>sig_state := sig_state sg OR Terminate, slots := map (slot_fire v) (slots sg)\<rparr>"
  obtain evs where e: "emits Terminate sg = ok (v, ?sg2, evs)"
      "\<forall>n i. calls n i evs = (if delivered v sg n i then 1 else 0)"
    using emits_ok[OF assms(1), of Terminate] v_def by blast
  have v0: "bit v 0" using assms(4) by (simp add: v_def UpdateState_bit)
  have "(0, Handler wake) \<in> set (managers (slots sg ! sid))"
    using managers_map_of[OF slots_ok_nth[OF assms(1,2)]] assms(3) by blast
  then have "calls sid 0 evs = 1"
    using e(2) assms(2,5) v0 by (auto simp: delivered_def fires_def bit_and_iff)
  moreover have "map_of (managers (slots ?sg2 ! sid)) 0 = Some EmittedTag"
    using assms(2,3,5) v0 by (simp add: slot_fire_def map_of_fire bit_and_iff)
  moreover have "bit ((sig_state ?sg2 AND Terminate) AND slot_filter (slots ?sg2 ! sid)) 0"
    using assms(2,5) by (simp add: slot_fire_def bit_and_iff bit_or_iff)
  then have "canceled sid ?sg2"
    unfolding canceled_def hasTriggered_def triggered_def by (metis bit_0_eq bot_apply bot_bool_def)
  ultimately show ?thesis using e(1) by blast
qed

lemma resume_clears:
  assumes "slots_ok sg" and "sid < length (slots sg)"
    and "map_of (managers (slots sg ! sid)) 0 = Some (Handler wake)"
  shows "\<exists>sg3. TimeAwaiter_resume (Some sid) sg = (ok (), sg3) \<and> slots_ok sg3
    \<and> map_of (managers (slots sg3 ! sid)) 0 = Some Null"
proof -
  let ?sg3 = "upd_slot sid (\<lambda>n. n\<lparr>managers := set_cell 0 Null (managers n)\<rparr>) sg"
  have c: "clear_handler sid (2 ^ 0) sg = (ok True, ?sg3)" using assms(3) by (subst clear_exp) simp_all
  moreover have "slots_ok ?sg3" using slots_ok_clear[OF assms(1), of sid "2 ^ 0"] c by simp
  moreover have "0 \<in> fst ` set (managers (slots sg ! sid))"
    using assms(3) by (metis domI dom_map_of_conv_image_fst)
  ultimately show ?thesis
    using assms(2) by (simp add: TimeAwaiter_resume_def checkHasCanceled_def map_of_set_cell)
qed

lemma emit_no_handler:
  assumes "slots_ok sg" and "map_of (managers (slots sg ! sid)) 0 = Some Null"
  shows "\<exists>v sg' evs. emits Terminate sg = ok (v, sg', evs) \<and> calls sid 0 evs = 0"
proof -
  obtain v sg' evs where e: "emits Terminate sg = ok (v, sg', evs)"
      "\<forall>n i. calls n i evs = (if delivered v sg n i then 1 else 0)"
    using emits_ok[OF assms(1), of Terminate] by blast
  have "\<not> delivered v sg sid 0"
    using managers_map_of[OF slots_ok_nth[OF assms(1)]] assms(2) by (auto simp: delivered_def fires_def)
  then show ?thesis using e by auto
qed



text \<open>
  The inherited defaults make no context: a checkin schedules like any other function, whatever the
  context; a timer without a slot cannot be cancelled.
\<close>

lemma base_defaults:
  "base_checkin schedule f base_checkout = base_schedule_info schedule f (priority_level p)"
  "fst (TimeAwaiter_suspend (executor_after_default ex dur) wake s) = ok True"
  by (simp_all add: base_checkin_def base_schedule_info_def TimeAwaiter_suspend_def executor_after_default_def
      timer_thread_def tryEmplace_def)

end
