(* ===== verification/Lock_Model.thy ===== *)
theory Lock_Model
  imports Prelude
begin

text \<open>
  The two locks of the coroutine library: \<open>SpinLock\<close> (async_simple/coro/SpinLock.h) and the
  asynchronous \<open>Mutex\<close> (async_simple/coro/Mutex.h).

  Coroutines are natural numbers; each has a program point, and one step is one atomic access of
  the source.  \<open>lock_system\<close> is the interface the condition variables and everything above them
  rely on: at most one coroutine owns the lock.
\<close>

section \<open>The interface of a lock\<close>

locale lock_system = inv_system +
  fixes owns :: "'s \<Rightarrow> nat \<Rightarrow> bool"
    and free :: "'s \<Rightarrow> bool"
  assumes exclusive: "inv s \<Longrightarrow> owns s i \<Longrightarrow> owns s j \<Longrightarrow> i = j"
    and free_iff: "inv s \<Longrightarrow> free s \<longleftrightarrow> (\<forall>i. \<not> owns s i)"
begin

lemma reach_exclusive: "reach init step s \<Longrightarrow> owns s i \<Longrightarrow> owns s j \<Longrightarrow> i = j"
  by (blast intro: exclusive reach_inv)

lemma reach_owner: "reach init step s \<Longrightarrow> \<not> free s \<Longrightarrow> \<exists>!i. owns s i"
  using free_iff reach_inv exclusive by (metis (full_types))

end

section \<open>SpinLock\<close>

text \<open>
  \<open>coLock\<close> and \<open>lock\<close> are the same loop; the first yields the coroutine, the second the thread.  The
  program points: before \<open>tryLock\<close>, in the inner loop with the spin counter, after yielding, owning
  the lock.
\<close>

datatype spc = S_out | S_try int | S_spin int | S_yield | S_own

record SpinLock =
  spinCount :: int
  locked :: bool

definition sl_tryLock :: "SpinLock \<Rightarrow> bool \<times> SpinLock" where
  "sl_tryLock l = (\<not> locked l, l\<lparr>locked := True\<rparr>)"

definition sl_unlock :: "SpinLock \<Rightarrow> (SpinLock, unit) call" where
  "sl_unlock l =
     (if \<not> locked l then (Inl (Assert_fail ''_locked == true''), l) else (ok (), l\<lparr>locked := False\<rparr>))"

fun coLock_step :: "spc \<Rightarrow> SpinLock \<Rightarrow> (spc \<times> SpinLock) option" where
  "coLock_step S_out l = Some (S_try (spinCount l), l)"
| "coLock_step (S_try counter) l =
     (let (got, l') = sl_tryLock l in Some (if got then S_own else S_spin counter, l'))"
| "coLock_step (S_spin counter) l =
     Some (if locked l
           then if counter \<le> 0 then (S_yield, l) else (S_spin (counter - 1), l)
           else (S_try counter, l))"
| "coLock_step S_yield l = Some (S_spin (spinCount l), l)"
| "coLock_step S_own l = None"

record spin_sys =
  spin :: SpinLock
  spcs :: "nat \<Rightarrow> spc"
  spin_failed :: bool

inductive spin_step :: "spin_sys \<Rightarrow> spin_sys \<Rightarrow> bool" where
  SL_lock: "coLock_step (spcs s i) (spin s) = Some (pc, l) \<Longrightarrow>
    spin_step s (s\<lparr>spin := l, spcs := (spcs s)(i := pc)\<rparr>)"
| SL_try: "spcs s i = S_out \<Longrightarrow> sl_tryLock (spin s) = (got, l) \<Longrightarrow>
    spin_step s (s\<lparr>spin := l, spcs := (spcs s)(i := if got then S_own else S_out)\<rparr>)"
| SL_unlock: "spcs s i = S_own \<Longrightarrow> sl_unlock (spin s) = (r, l) \<Longrightarrow>
    spin_step s (s\<lparr>spin := l, spcs := (spcs s)(i := S_out),
                   spin_failed := (spin_failed s \<or> r \<noteq> ok ())\<rparr>)"

definition spin_init :: "spin_sys \<Rightarrow> bool" where
  "spin_init s \<longleftrightarrow> \<not> locked (spin s) \<and> spcs s = (\<lambda>_. S_out) \<and> \<not> spin_failed s"

definition spin_inv :: "spin_sys \<Rightarrow> bool" where
  "spin_inv s \<longleftrightarrow> \<not> spin_failed s
     \<and> (locked (spin s) \<longleftrightarrow> (\<exists>i. spcs s i = S_own))
     \<and> (\<forall>i j. spcs s i = S_own \<longrightarrow> spcs s j = S_own \<longrightarrow> i = j)"

lemma spin_inv_same:
  assumes "spin_inv s" and "\<And>j. spcs t j = S_own \<longleftrightarrow> spcs s j = S_own"
    and "locked (spin t) = locked (spin s)" and "spin_failed t = spin_failed s"
  shows "spin_inv t"
  using assms by (simp add: spin_inv_def)

lemma spin_inv_step:
  assumes "spin_inv s" and "spin_step s t"
  shows "spin_inv t"
  using assms(2)
proof (cases rule: spin_step.cases)
  case (SL_lock i pc l)
  show ?thesis
  proof (cases "\<exists>n. spcs s i = S_try n \<and> \<not> locked (spin s)")
    case True
    then have "\<And>j. spcs s j \<noteq> S_own" using assms(1) by (auto simp: spin_inv_def)
    then show ?thesis using True SL_lock assms(1) by (auto simp: spin_inv_def sl_tryLock_def)
  next
    case False
    then show ?thesis using SL_lock assms(1)
      by (intro spin_inv_same[OF assms(1)]; cases "spcs s i") (auto simp: sl_tryLock_def split: if_splits)
  qed
next
  case (SL_try i got l)
  then show ?thesis using assms(1)
    by (cases "locked (spin s)") (auto simp: spin_inv_def sl_tryLock_def fun_upd_idem)
next
  case (SL_unlock i r l)
  then show ?thesis using assms(1) by (auto simp: spin_inv_def sl_unlock_def split: if_splits)
qed

interpretation sl: lock_system spin_init spin_step spin_inv "\<lambda>s i. spcs s i = S_own" "\<lambda>s. \<not> locked (spin s)"
proof
  show "spin_init s \<Longrightarrow> spin_inv s" for s by (simp add: spin_init_def spin_inv_def)
  show "spin_inv s \<Longrightarrow> spin_step s t \<Longrightarrow> spin_inv t" for s t by (rule spin_inv_step)
  show "spin_inv s \<Longrightarrow> spcs s i = S_own \<Longrightarrow> spcs s j = S_own \<Longrightarrow> i = j" for s i j
    by (auto simp: spin_inv_def split: if_splits)
  show "spin_inv s \<Longrightarrow> (\<not> locked (spin s)) = (\<forall>i. spcs s i \<noteq> S_own)" for s
    by (auto simp: spin_inv_def split: if_splits)
qed

section \<open>Mutex\<close>

text \<open>
  \<open>_state\<close> is the mutex itself (unlocked), null (locked, nobody newly queued) or the chain of newly
  queued awaiters, newest first; \<open>_waiters\<close> is the list of older awaiters, oldest first.  A chain is
  the list of its awaiters, and an awaiter is the number of its coroutine.  Compare-and-exchange
  compares pointers, that is, only the head of a chain.
\<close>

datatype mstate = Unlocked | Chain_of "nat list"

datatype mptr = P_self | P_null | P_awaiter nat

fun ptr :: "mstate \<Rightarrow> mptr" where
  "ptr Unlocked = P_self"
| "ptr (Chain_of []) = P_null"
| "ptr (Chain_of (a # as)) = P_awaiter a"

fun chain :: "mstate \<Rightarrow> nat list" where
  "chain Unlocked = []"
| "chain (Chain_of as) = as"

record Mutex =
  mx_state :: mstate
  waiters :: "nat list"

definition Mutex_new :: Mutex where
  "Mutex_new = \<lparr>mx_state = Unlocked, waiters = []\<rparr>"

definition mx_tryLock :: "Mutex \<Rightarrow> bool \<times> Mutex" where
  "mx_tryLock m = (if ptr (mx_state m) = P_self then (True, m\<lparr>mx_state := Chain_of []\<rparr>) else (False, m))"

definition Mutex_delete :: "Mutex \<Rightarrow> unit result" where
  "Mutex_delete m =
     (if ptr (mx_state m) \<noteq> P_self \<and> ptr (mx_state m) \<noteq> P_null then Inl (Assert_fail ''_state == unlockedState() || _state == nullptr'')
      else if waiters m \<noteq> [] then Inl (Assert_fail ''_waiters == nullptr'') else ok ())"

datatype mpc =
    M_out
  | M_load
  | M_loop mptr
  | M_susp
  | M_own
  | M_unl_cas
  | M_unl_exch
  | M_unl_pop "nat list"
  | M_failed

text \<open>
  \<open>await_ready\<close> and \<open>lockAsyncImpl\<close> of coroutine \<open>i\<close>.  \<open>weak_fails\<close> is a spurious failure of the weak
  compare-and-exchange.
\<close>

fun lock_step :: "bool \<Rightarrow> nat \<Rightarrow> mpc \<Rightarrow> Mutex \<Rightarrow> (mpc \<times> Mutex) option" where
  "lock_step weak_fails i M_out m =
     (let (got, m') = mx_tryLock m in Some (if got then M_own else M_load, m'))"
| "lock_step weak_fails i M_load m = Some (M_loop (ptr (mx_state m)), m)"
| "lock_step weak_fails i (M_loop oldValue) m =
     Some (if ptr (mx_state m) = oldValue \<and> \<not> weak_fails
           then if oldValue = P_self then (M_own, m\<lparr>mx_state := Chain_of []\<rparr>)
                else (M_susp, m\<lparr>mx_state := Chain_of (i # chain (mx_state m))\<rparr>)
           else (M_loop (ptr (mx_state m)), m))"
| "lock_step weak_fails i _ m = None"

text \<open>
  \<open>unlock\<close>.  The last component is the awaiter that is resumed.
\<close>

fun unlock_step :: "mpc \<Rightarrow> Mutex \<Rightarrow> (mpc \<times> Mutex \<times> nat option) option" where
  "unlock_step M_own m =
     Some (if ptr (mx_state m) = P_self then (M_failed, m, None)
           else if waiters m \<noteq> [] then (M_unl_pop (waiters m), m, None)
           else if ptr (mx_state m) = P_null then (M_unl_cas, m, None)
           else (M_unl_exch, m, None))"
| "unlock_step M_unl_cas m =
     Some (if ptr (mx_state m) = P_null then (M_out, m\<lparr>mx_state := Unlocked\<rparr>, None)
           else (M_unl_exch, m, None))"
| "unlock_step M_unl_exch m =
     Some (if ptr (mx_state m) = P_self \<or> ptr (mx_state m) = P_null then (M_failed, m, None)
           else (M_unl_pop (rev (chain (mx_state m))), m\<lparr>mx_state := Chain_of []\<rparr>, None))"
| "unlock_step (M_unl_pop waitersHead) m =
     Some (case waitersHead of
             [] \<Rightarrow> (M_failed, m, None)
           | w # ws \<Rightarrow> (M_out, m\<lparr>waiters := ws\<rparr>, Some w))"
| "unlock_step _ m = None"

text \<open>\<open>queued_log\<close> and \<open>granted_log\<close> record who was queued and who was given the lock by an unlock.\<close>

record mutex_sys =
  mx :: Mutex
  mpcs :: "nat \<Rightarrow> mpc"
  queued_log :: "nat list"
  granted_log :: "nat list"

inductive mutex_step :: "mutex_sys \<Rightarrow> mutex_sys \<Rightarrow> bool" where
  MX_lock: "lock_step w i (mpcs s i) (mx s) = Some (pc, m) \<Longrightarrow>
    mutex_step s (s\<lparr>mx := m, mpcs := (mpcs s)(i := pc),
                    queued_log := queued_log s @ (if pc = M_susp then [i] else [])\<rparr>)"
| MX_try: "mpcs s i = M_out \<Longrightarrow> mx_tryLock (mx s) = (got, m) \<Longrightarrow>
    mutex_step s (s\<lparr>mx := m, mpcs := (mpcs s)(i := if got then M_own else M_out)\<rparr>)"
| MX_unlock: "unlock_step (mpcs s i) (mx s) = Some (pc, m, None) \<Longrightarrow>
    mutex_step s (s\<lparr>mx := m, mpcs := (mpcs s)(i := pc)\<rparr>)"
| MX_grant: "unlock_step (mpcs s i) (mx s) = Some (pc, m, Some w) \<Longrightarrow>
    mutex_step s (s\<lparr>mx := m, mpcs := (mpcs s)(i := pc, w := if mpcs s w = M_susp then M_own else M_failed),
                    granted_log := granted_log s @ [w]\<rparr>)"

definition mutex_init :: "mutex_sys \<Rightarrow> bool" where
  "mutex_init s \<longleftrightarrow> mx s = Mutex_new \<and> mpcs s = (\<lambda>_. M_out) \<and> queued_log s = [] \<and> granted_log s = []"

fun owner_pc :: "mpc \<Rightarrow> bool" where
  "owner_pc M_own = True"
| "owner_pc M_unl_cas = True"
| "owner_pc M_unl_exch = True"
| "owner_pc (M_unl_pop _) = True"
| "owner_pc _ = False"

text \<open>What is waiting, oldest first, as the owner at program point \<open>pc\<close> sees it.\<close>

fun mutex_pc_ok :: "Mutex \<Rightarrow> mpc \<Rightarrow> bool" where
  "mutex_pc_ok m M_unl_cas = (waiters m = [])"
| "mutex_pc_ok m M_unl_exch = (waiters m = [] \<and> chain (mx_state m) \<noteq> [])"
| "mutex_pc_ok m (M_unl_pop ws) = (ws \<noteq> [] \<and> (waiters m = [] \<or> waiters m = ws))"
| "mutex_pc_ok m M_failed = False"
| "mutex_pc_ok m _ = True"

fun pending :: "Mutex \<Rightarrow> mpc \<Rightarrow> nat list" where
  "pending m (M_unl_pop ws) = ws @ rev (chain (mx_state m))"
| "pending m _ = waiters m @ rev (chain (mx_state m))"

definition mutex_inv_at :: "nat list \<Rightarrow> mutex_sys \<Rightarrow> bool" where
  "mutex_inv_at ws s \<longleftrightarrow>
     queued_log s = granted_log s @ ws \<and> distinct ws
   \<and> (\<forall>j. mpcs s j = M_susp \<longleftrightarrow> j \<in> set ws)
   \<and> (mx_state (mx s) = Unlocked \<longrightarrow> ws = [] \<and> waiters (mx s) = [])
   \<and> (mx_state (mx s) \<noteq> Unlocked \<longleftrightarrow> (\<exists>i. owner_pc (mpcs s i)))
   \<and> (\<forall>i j. owner_pc (mpcs s i) \<longrightarrow> owner_pc (mpcs s j) \<longrightarrow> i = j)
   \<and> (\<forall>i. owner_pc (mpcs s i) \<longrightarrow> ws = pending (mx s) (mpcs s i))
   \<and> (\<forall>j. mutex_pc_ok (mx s) (mpcs s j))"

definition mutex_inv :: "mutex_sys \<Rightarrow> bool" where
  "mutex_inv s \<longleftrightarrow> (\<exists>ws. mutex_inv_at ws s)"

lemma ptr_simps [simp]:
  "ptr st = P_self \<longleftrightarrow> st = Unlocked"
  "ptr st = P_null \<longleftrightarrow> st = Chain_of []"
  by (cases st rule: ptr.cases; simp)+

lemma mutex_inv_init: "mutex_init s \<Longrightarrow> mutex_inv_at [] s"
  by (auto simp: mutex_init_def mutex_inv_at_def Mutex_new_def)

lemma pc_ok_other [simp]: "\<not> owner_pc pc \<Longrightarrow> mutex_pc_ok m pc \<longleftrightarrow> pc \<noteq> M_failed"
  by (cases pc) auto

lemma mutex_inv_atD:
  assumes "mutex_inv_at ws s"
  shows "queued_log s = granted_log s @ ws" "distinct ws" "mpcs s j = M_susp \<longleftrightarrow> j \<in> set ws"
    "mx_state (mx s) = Unlocked \<Longrightarrow> ws = [] \<and> waiters (mx s) = [] \<and> \<not> owner_pc (mpcs s j)"
    "owner_pc (mpcs s i) \<Longrightarrow> mx_state (mx s) \<noteq> Unlocked"
    "mx_state (mx s) \<noteq> Unlocked \<Longrightarrow> \<exists>i. owner_pc (mpcs s i)"
    "owner_pc (mpcs s i) \<Longrightarrow> owner_pc (mpcs s j) \<Longrightarrow> i = j"
    "owner_pc (mpcs s i) \<Longrightarrow> ws = pending (mx s) (mpcs s i)"
    "mutex_pc_ok (mx s) (mpcs s j)" "mpcs s j \<noteq> M_failed"
  using assms unfolding mutex_inv_at_def by (blast | metis mutex_pc_ok.simps(4))+

text \<open>With an owner, the invariant is a statement about that owner alone.\<close>

lemma mutex_inv_ownerI:
  assumes "queued_log s = granted_log s @ ws" and "distinct ws" and "\<And>j. mpcs s j = M_susp \<longleftrightarrow> j \<in> set ws"
    and "mx_state (mx s) \<noteq> Unlocked" and "\<And>j. owner_pc (mpcs s j) \<longleftrightarrow> j = i"
    and "ws = pending (mx s) (mpcs s i)" and "mutex_pc_ok (mx s) (mpcs s i)" and "\<And>j. mpcs s j \<noteq> M_failed"
  shows "mutex_inv_at ws s"
proof -
  have "mutex_pc_ok (mx s) (mpcs s j)" for j using assms(5)[of j] assms(7) assms(8)[of j] by (cases "j = i") auto
  then show ?thesis using assms by (simp add: mutex_inv_at_def)
qed

lemma mutex_inv_move:
  assumes "mutex_inv_at ws s" and "\<not> owner_pc (mpcs s i)" and "\<not> owner_pc pc"
    and "mpcs s i \<noteq> M_susp" and "pc \<noteq> M_susp" and "pc \<noteq> M_failed"
  shows "mutex_inv_at ws (s\<lparr>mpcs := (mpcs s)(i := pc)\<rparr>)"
proof -
  have "owner_pc (((mpcs s)(i := pc)) j) = owner_pc (mpcs s j)" for j using assms(2,3) by simp
  moreover have "pending (mx s) (((mpcs s)(i := pc)) j) = pending (mx s) (mpcs s j)"
    if "owner_pc (mpcs s j)" for j using that assms(2) by auto
  ultimately show ?thesis using assms by (simp add: mutex_inv_at_def)
qed

lemma mutex_inv_acquire:
  assumes "mutex_inv_at ws s" and "mx_state (mx s) = Unlocked" and "mpcs s i \<noteq> M_susp"
  shows "mutex_inv_at ws (s\<lparr>mx := (mx s)\<lparr>mx_state := Chain_of []\<rparr>, mpcs := (mpcs s)(i := M_own)\<rparr>)"
  using mutex_inv_atD[OF assms(1)] assms(2,3) by (intro mutex_inv_ownerI[of _ _ i]) auto

lemma pending_chain:
  "owner_pc pc \<Longrightarrow> pending (m\<lparr>mx_state := Chain_of (i # chain (mx_state m))\<rparr>) pc = pending m pc @ [i]"
  by (cases pc) auto

lemma pc_ok_chain:
  "mutex_pc_ok m pc \<Longrightarrow> mutex_pc_ok (m\<lparr>mx_state := Chain_of (i # chain (mx_state m))\<rparr>) pc"
  by (cases pc) auto

lemma mutex_inv_queue:
  assumes "mutex_inv_at ws s" and "mx_state (mx s) \<noteq> Unlocked" and "mpcs s i \<noteq> M_susp"
    and "\<not> owner_pc (mpcs s i)"
  shows "mutex_inv_at (ws @ [i]) (s\<lparr>mx := (mx s)\<lparr>mx_state := Chain_of (i # chain (mx_state (mx s)))\<rparr>,
     mpcs := (mpcs s)(i := M_susp), queued_log := queued_log s @ [i]\<rparr>)" (is "mutex_inv_at _ ?t")
proof -
  obtain k where k: "owner_pc (mpcs s k)" using mutex_inv_atD(6)[OF assms(1,2)] by blast
  then have "k \<noteq> i" using assms(4) by auto
  then show ?thesis
    using mutex_inv_atD[OF assms(1)] k assms(3,4)
    by (intro mutex_inv_ownerI[of _ _ k]) (auto simp: pending_chain intro: pc_ok_chain)
qed

lemma mutex_inv_lock:
  assumes "mutex_inv_at ws s" and "lock_step w i (mpcs s i) (mx s) = Some (pc, m)"
  shows "\<exists>ws'. mutex_inv_at ws' (s\<lparr>mx := m, mpcs := (mpcs s)(i := pc),
     queued_log := queued_log s @ (if pc = M_susp then [i] else [])\<rparr>)"
proof (cases "mpcs s i")
  case M_out
  show ?thesis
  proof (cases "mx_state (mx s) = Unlocked")
    case True
    then show ?thesis using mutex_inv_acquire[OF assms(1) True, of i] assms(2) M_out
      by (auto simp: mx_tryLock_def)
  next
    case False
    then show ?thesis using mutex_inv_move[OF assms(1), of i M_load] assms(2) M_out
      by (auto simp: mx_tryLock_def)
  qed
next
  case M_load
  then show ?thesis using mutex_inv_move[OF assms(1), of i "M_loop (ptr (mx_state (mx s)))"] assms(2) by auto
next
  case (M_loop p)
  have r: "(if ptr (mx_state (mx s)) = p \<and> \<not> w
           then if p = P_self then (M_own, (mx s)\<lparr>mx_state := Chain_of []\<rparr>)
                else (M_susp, (mx s)\<lparr>mx_state := Chain_of (i # chain (mx_state (mx s)))\<rparr>)
           else (M_loop (ptr (mx_state (mx s))), mx s)) = (pc, m)"
    using assms(2) M_loop by simp
  show ?thesis
  proof (cases "ptr (mx_state (mx s)) = p \<and> \<not> w")
    case False
    then have "pc = M_loop (ptr (mx_state (mx s)))" "m = mx s" using r by auto
    then show ?thesis using mutex_inv_move[OF assms(1), of i pc] M_loop by auto
  next
    case True
    show ?thesis
    proof (cases "mx_state (mx s) = Unlocked")
      case unl: True
      then have "pc = M_own" "m = (mx s)\<lparr>mx_state := Chain_of []\<rparr>" using r True by auto
      then show ?thesis using mutex_inv_acquire[OF assms(1) unl, of i] M_loop by auto
    next
      case locked: False
      then have "p \<noteq> P_self" using True by auto
      then have "pc = M_susp" "m = (mx s)\<lparr>mx_state := Chain_of (i # chain (mx_state (mx s)))\<rparr>"
        using r True by auto
      then show ?thesis using mutex_inv_queue[OF assms(1) locked, of i] M_loop by auto
    qed
  qed
qed (use assms(2) in auto)

text \<open>A step of \<open>unlock\<close> that keeps the lock: the owner moves to another point of \<open>unlock\<close>.\<close>

lemma mutex_inv_owner:
  assumes "mutex_inv_at ws s" and "owner_pc (mpcs s i)" and "owner_pc pc"
    and "pending m pc = pending (mx s) (mpcs s i)" and "mutex_pc_ok m pc"
    and "mx_state m \<noteq> Unlocked"
  shows "mutex_inv_at ws (s\<lparr>mx := m, mpcs := (mpcs s)(i := pc)\<rparr>)"
proof -
  have "pc \<noteq> M_susp" "mpcs s i \<noteq> M_susp" "pc \<noteq> M_failed" using assms(2,3) by auto
  then show ?thesis
    using mutex_inv_atD[OF assms(1)] assms by (intro mutex_inv_ownerI[of _ _ i]) auto
qed

lemma mutex_inv_release:
  assumes "mutex_inv_at ws s" and "mpcs s i = M_unl_cas" and "mx_state (mx s) = Chain_of []"
  shows "mutex_inv_at ws (s\<lparr>mx := (mx s)\<lparr>mx_state := Unlocked\<rparr>, mpcs := (mpcs s)(i := M_out)\<rparr>)"
proof -
  have "ws = []" "waiters (mx s) = []"
    using mutex_inv_atD(8,9)[OF assms(1), of i] assms(2,3) by auto
  moreover have "\<not> owner_pc (mpcs s j)" if "j \<noteq> i" for j
    using mutex_inv_atD(7)[OF assms(1), of i j] assms(2) that by auto
  ultimately show ?thesis
    using mutex_inv_atD(1,3,10)[OF assms(1)] by (auto simp: mutex_inv_at_def)
qed

lemma mutex_inv_grant:
  assumes "mutex_inv_at xs s" and "mpcs s i = M_unl_pop (w # ws)"
  shows "mutex_inv_at (tl xs) (s\<lparr>mx := (mx s)\<lparr>waiters := ws\<rparr>,
     mpcs := (mpcs s)(i := M_out, w := if mpcs s w = M_susp then M_own else M_failed),
     granted_log := granted_log s @ [w]\<rparr>)" (is "mutex_inv_at _ ?t")
proof -
  have wt: "xs = w # ws @ rev (chain (mx_state (mx s)))" and locked: "mx_state (mx s) \<noteq> Unlocked"
    using mutex_inv_atD(5,8)[OF assms(1), of i] assms(2) by auto
  have alone: "owner_pc (mpcs s j) \<longleftrightarrow> j = i" for j
    using mutex_inv_atD(7)[OF assms(1), of i j] assms(2) by auto
  have w: "mpcs s w = M_susp" using mutex_inv_atD(3)[OF assms(1)] wt by simp
  then have "w \<noteq> i" using assms(2) by auto
  moreover have "i \<notin> set xs" using mutex_inv_atD(3)[OF assms(1), of i] assms(2) by simp
  ultimately show ?thesis
    using mutex_inv_atD(1,2,3,10)[OF assms(1)] assms(2) w wt alone locked
    by (intro mutex_inv_ownerI[of _ _ w]) auto
qed

lemma mutex_inv_step:
  assumes "mutex_inv s" and "mutex_step s t"
  shows "mutex_inv t"
proof -
  obtain ws where inv: "mutex_inv_at ws s" using assms(1) by (auto simp: mutex_inv_def)
  from assms(2) have "\<exists>ws'. mutex_inv_at ws' t"
  proof (cases rule: mutex_step.cases)
    case (MX_lock w i pc m)
    then show ?thesis using mutex_inv_lock[OF inv] by simp
  next
    case (MX_try i got m)
    show ?thesis
    proof (cases "mx_state (mx s) = Unlocked")
      case True
      then show ?thesis using mutex_inv_acquire[OF inv True, of i] MX_try by (auto simp: mx_tryLock_def)
    next
      case False
      then show ?thesis using inv MX_try by (auto simp: mx_tryLock_def fun_upd_idem)
    qed
  next
    case (MX_unlock i pc m)
    have own: "owner_pc (mpcs s i)" using MX_unlock(2) by (cases "mpcs s i") auto
    note D = mutex_inv_atD(5,8,9)[OF inv, of i]
    show ?thesis
    proof (cases "mpcs s i = M_unl_cas \<and> mx_state (mx s) = Chain_of []")
      case True
      then show ?thesis using mutex_inv_release[OF inv, of i] MX_unlock by auto
    next
      case False
      then have "owner_pc pc \<and> pending m pc = pending (mx s) (mpcs s i) \<and> mutex_pc_ok m pc
          \<and> mx_state m \<noteq> Unlocked"
        using MX_unlock(2) D own
        by (cases "mpcs s i"; cases "mx_state (mx s)") (auto split: if_splits list.splits)
      then show ?thesis using mutex_inv_owner[OF inv own] MX_unlock(1) by blast
    qed
  next
    case (MX_grant i pc m w)
    then obtain ws' where "mpcs s i = M_unl_pop (w # ws')" "pc = M_out" "m = (mx s)\<lparr>waiters := ws'\<rparr>"
      by (cases "mpcs s i") (auto split: if_splits list.splits)
    then have "mutex_inv_at (tl ws) t" using mutex_inv_grant[OF inv, of i w ws'] MX_grant(1) by simp
    then show ?thesis by blast
  qed
  then show ?thesis by (simp add: mutex_inv_def)
qed

interpretation mxl: lock_system mutex_init mutex_step mutex_inv
  "\<lambda>s i. owner_pc (mpcs s i)" "\<lambda>s. mx_state (mx s) = Unlocked"
proof
  show "mutex_init s \<Longrightarrow> mutex_inv s" for s using mutex_inv_init by (auto simp: mutex_inv_def)
  show "mutex_inv s \<Longrightarrow> mutex_step s t \<Longrightarrow> mutex_inv t" for s t by (rule mutex_inv_step)
  show "mutex_inv s \<Longrightarrow> owner_pc (mpcs s i) \<Longrightarrow> owner_pc (mpcs s j) \<Longrightarrow> i = j" for s i j
    using mutex_inv_atD(7) by (auto simp: mutex_inv_def)
  show "mutex_inv s \<Longrightarrow> (mx_state (mx s) = Unlocked) = (\<forall>i. \<not> owner_pc (mpcs s i))" for s
    by (auto simp: mutex_inv_def mutex_inv_at_def)
qed

text \<open>The destructor may run when no coroutine uses the mutex any more.\<close>

lemma Mutex_delete_ok:
  assumes "reach mutex_init mutex_step s" and "\<And>i. mpcs s i = M_out"
  shows "Mutex_delete (mx s) = ok ()"
proof -
  obtain ws where ws: "mutex_inv_at ws s" using mxl.reach_inv[OF assms(1)] by (auto simp: mutex_inv_def)
  have "mx_state (mx s) = Unlocked" using mutex_inv_atD(6)[OF ws] assms(2) by fastforce
  then show ?thesis using mutex_inv_atD(4)[OF ws] by (simp add: Mutex_delete_def)
qed

section \<open>Properties\<close>

text \<open>
  C5.  The asynchronous mutex, for any number of coroutines that lock, try to lock and unlock in any
  interleaving of their atomic accesses: at most one coroutine owns it, none of the assertions of
  \<open>unlock\<close> fails and no coroutine is resumed that is not suspended; the mutex is free exactly when
  nobody owns it, and a suspended coroutine always has an owner ahead of it (no lost wake-up).
\<close>

theorem mutex_safe:
  assumes "reach mutex_init mutex_step s"
  shows "(\<forall>i j. owner_pc (mpcs s i) \<longrightarrow> owner_pc (mpcs s j) \<longrightarrow> i = j)
    \<and> (\<forall>i. mpcs s i \<noteq> M_failed)
    \<and> (mx_state (mx s) = Unlocked \<longleftrightarrow> (\<forall>i. \<not> owner_pc (mpcs s i)))
    \<and> (\<forall>j. mpcs s j = M_susp \<longrightarrow> (\<exists>i. owner_pc (mpcs s i)))"
proof -
  have inv: "mutex_inv s" using assms by (rule mxl.reach_inv)
  then obtain ws where ws: "mutex_inv_at ws s" by (auto simp: mutex_inv_def)
  have "\<exists>i. owner_pc (mpcs s i)" if "mpcs s j = M_susp" for j
    using that mutex_inv_atD(3,4,6)[OF ws] by (metis empty_iff empty_set)
  then show ?thesis
    using mxl.exclusive[OF inv] mxl.free_iff[OF inv] mutex_inv_atD(10)[OF ws] by blast
qed

definition demo_mutex :: mutex_sys where
  "demo_mutex = \<lparr>mx = Mutex_new, mpcs = (\<lambda>_. M_out), queued_log = [], granted_log = []\<rparr>"

lemma demo_mutex_reach: "reach mutex_init mutex_step demo_mutex"
  by (rule reach_init) (simp add: mutex_init_def demo_mutex_def)

theorem mutex_safe_witness: "\<forall>i. mpcs demo_mutex i \<noteq> M_failed"
  using mutex_safe[OF demo_mutex_reach] by blast

text \<open>
  C8.  First come, first served: the coroutines that queue up for the mutex receive it in the order
  in which they were queued, and those still waiting are exactly the suspended ones, in the order of
  the two lists the mutex keeps (\<open>_waiters\<close>, then the reverse of the newly queued chain), with the
  list an unlock has just taken out in place of \<open>_waiters\<close> while that unlock is running.
\<close>

theorem mutex_fifo:
  assumes "reach mutex_init mutex_step s"
  shows "\<exists>ws. queued_log s = granted_log s @ ws \<and> distinct ws \<and> set ws = {j. mpcs s j = M_susp}
    \<and> (\<forall>i. owner_pc (mpcs s i) \<longrightarrow> ws =
         (case mpcs s i of M_unl_pop ws' \<Rightarrow> ws' | _ \<Rightarrow> waiters (mx s)) @ rev (chain (mx_state (mx s))))"
proof -
  obtain ws where ws: "mutex_inv_at ws s"
    using mxl.reach_inv[OF assms] by (auto simp: mutex_inv_def)
  have "pending m pc = (case pc of M_unl_pop ws' \<Rightarrow> ws' | _ \<Rightarrow> waiters m) @ rev (chain (mx_state m))" for m pc
    by (cases pc) auto
  then show ?thesis using mutex_inv_atD(1,2,3,8)[OF ws] by (intro exI[of _ ws]) auto
qed

theorem mutex_fifo_witness: "\<exists>ws. queued_log demo_mutex = granted_log demo_mutex @ ws"
  using mutex_fifo[OF demo_mutex_reach] by blast

text \<open>
  The spin lock: at most one coroutine is past its \<open>lock\<close>, \<open>coLock\<close> or successful \<open>tryLock\<close>; the
  flag is set exactly while somebody is; the assertion of \<open>unlock\<close> holds; and a coroutine that
  finds the flag clear enters in its next two steps if nobody interferes.
\<close>

theorem spinlock_safe:
  assumes "reach spin_init spin_step s"
  shows "(\<forall>i j. spcs s i = S_own \<longrightarrow> spcs s j = S_own \<longrightarrow> i = j)
    \<and> (locked (spin s) \<longleftrightarrow> (\<exists>i. spcs s i = S_own)) \<and> \<not> spin_failed s
    \<and> (\<forall>i n. \<not> locked (spin s) \<longrightarrow> spcs s i = S_spin n \<longrightarrow>
        (\<exists>t. steps spin_step 2 s t \<and> spcs t i = S_own))"
proof -
  have inv: "spin_inv s" using assms by (rule sl.reach_inv)
  have "\<exists>t. steps spin_step 2 s t \<and> spcs t i = S_own" if "\<not> locked (spin s)" "spcs s i = S_spin n" for i n
  proof -
    let ?t = "s\<lparr>spin := spin s, spcs := (spcs s)(i := S_try n)\<rparr>"
    let ?u = "?t\<lparr>spin := (spin s)\<lparr>locked := True\<rparr>, spcs := (spcs ?t)(i := S_own)\<rparr>"
    have 1: "spin_step s ?t" by (rule SL_lock) (simp add: that)
    have 2: "spin_step ?t ?u" by (rule SL_lock) (simp add: that sl_tryLock_def)
    have "steps spin_step 2 s ?u" using 1 2 by (auto simp: numeral_2_eq_2)
    then show ?thesis by auto
  qed
  then show ?thesis using inv by (auto simp: spin_inv_def)
qed

definition demo_spin :: spin_sys where
  "demo_spin = \<lparr>spin = \<lparr>spinCount = 1024, locked = False\<rparr>, spcs = (\<lambda>_. S_out), spin_failed = False\<rparr>"

lemma demo_spin_reach: "reach spin_init spin_step demo_spin"
  by (rule reach_init) (simp add: spin_init_def demo_spin_def)

theorem spinlock_safe_witness: "\<not> spin_failed demo_spin \<and> \<not> locked (spin demo_spin)"
  using spinlock_safe[OF demo_spin_reach] by (simp add: demo_spin_def)

end
