(* ===== verification/CondVar_Model.thy ===== *)
theory CondVar_Model
  imports Lock_Model
begin

text \<open>
  Condition variables for coroutines (async_simple/coro/ConditionVariable.h): \<open>ConditionVariable<Lock>\<close>,
  whose waiters hold a lock, and \<open>ConditionVariable<void>\<close>, the \<open>Notifier\<close>.

  The clients of \<open>ConditionVariable<Lock>\<close> (semaphore, latch, shared mutex) are methods that take the
  lock, wait in a loop until a predicate holds, change the protected variables, notify and
  release the lock.  A method is a list of stages, one per wait; \<open>mon_step\<close> interleaves any
  number of coroutines that call methods.  All accesses happen with the lock held, so each
  stage is one step; that the lock admits one owner at a time is what \<open>lock_system\<close> provides.
\<close>

section \<open>The list of awaiters\<close>

text \<open>A condition variable is the list of its awaiters, newest first.\<close>

definition cv_await_suspend :: "nat \<Rightarrow> nat list \<Rightarrow> nat list" where
  "cv_await_suspend i awaiters = i # awaiters"

text \<open>Both return the awaiters to resume, in the order of \<open>resumeWaiters\<close>, and what is left.\<close>

definition notifyAll :: "nat list \<Rightarrow> nat list \<times> nat list" where
  "notifyAll awaiters = (awaiters, [])"

definition notifyOne :: "nat list \<Rightarrow> nat list \<times> nat list" where
  "notifyOne awaiters = (case awaiters of [] \<Rightarrow> ([], []) | a # as \<Rightarrow> ([a], as))"

section \<open>The notifier\<close>

text \<open>\<open>_awaiters\<close> of \<open>ConditionVariable<void>\<close> is the variable itself once it has been notified.\<close>

datatype notifier = Notified | Awaiting "nat list"

definition nt_await_ready :: "notifier \<Rightarrow> bool" where
  "nt_await_ready n = (n = Notified)"

definition nt_await_suspend :: "nat \<Rightarrow> notifier \<Rightarrow> bool \<times> notifier" where
  "nt_await_suspend i n =
     (case n of Notified \<Rightarrow> (False, Notified) | Awaiting as \<Rightarrow> (True, Awaiting (i # as)))"

definition nt_notify :: "notifier \<Rightarrow> nat list \<times> notifier" where
  "nt_notify n = (case n of Notified \<Rightarrow> ([], Notified) | Awaiting as \<Rightarrow> (as, Notified))"

definition nt_reset :: "notifier \<Rightarrow> notifier" where
  "nt_reset n = (case n of Notified \<Rightarrow> Awaiting [] | Awaiting as \<Rightarrow> Awaiting as)"

text \<open>
  Coroutines that wait, notify and reset.  A coroutine is outside, suspended, or has gone through
  its wait; \<open>resumed\<close> logs who was resumed.
\<close>

datatype npc = N_out | N_ready | N_susp | N_through

record notifier_sys =
  ntf :: notifier
  npcs :: "nat \<Rightarrow> npc"
  resumed :: "nat list"

inductive notifier_step :: "notifier_sys \<Rightarrow> notifier_sys \<Rightarrow> bool" where
  N_wait: "npcs s i = N_out \<Longrightarrow>
    notifier_step s (s\<lparr>npcs := (npcs s)(i := if nt_await_ready (ntf s) then N_through else N_ready)\<rparr>)"
| N_suspend: "npcs s i = N_ready \<Longrightarrow> nt_await_suspend i (ntf s) = (b, n) \<Longrightarrow>
    notifier_step s (s\<lparr>ntf := n, npcs := (npcs s)(i := if b then N_susp else N_through)\<rparr>)"
| N_notify: "nt_notify (ntf s) = (ws, n) \<Longrightarrow>
    notifier_step s (s\<lparr>ntf := n, npcs := (\<lambda>j. if j \<in> set ws then N_through else npcs s j),
                       resumed := resumed s @ ws\<rparr>)"
| N_reset: "notifier_step s (s\<lparr>ntf := nt_reset (ntf s)\<rparr>)"
| N_again: "npcs s i = N_through \<Longrightarrow> notifier_step s (s\<lparr>npcs := (npcs s)(i := N_out)\<rparr>)"

definition notifier_init :: "notifier_sys \<Rightarrow> bool" where
  "notifier_init s \<longleftrightarrow> ntf s = Awaiting [] \<and> npcs s = (\<lambda>_. N_out) \<and> resumed s = []"

definition notifier_inv :: "notifier_sys \<Rightarrow> bool" where
  "notifier_inv s \<longleftrightarrow>
     (case ntf s of
        Notified \<Rightarrow> \<forall>j. npcs s j \<noteq> N_susp
      | Awaiting as \<Rightarrow> distinct as \<and> (\<forall>j. j \<in> set as \<longleftrightarrow> npcs s j = N_susp))"

lemma notifier_inv_step: "notifier_inv s \<Longrightarrow> notifier_step s t \<Longrightarrow> notifier_inv t"
  by (erule notifier_step.cases)
    (auto simp: notifier_inv_def nt_await_ready_def nt_await_suspend_def nt_notify_def nt_reset_def
      split: notifier.splits if_splits)

interpretation nt: inv_system notifier_init notifier_step notifier_inv
proof
  show "notifier_init s \<Longrightarrow> notifier_inv s" for s by (simp add: notifier_init_def notifier_inv_def)
qed (rule notifier_inv_step)

section \<open>Methods under a lock\<close>

datatype wake = One | All

record 'v stage =
  gate :: nat
  guard :: "'v \<Rightarrow> bool"
  act :: "nat \<Rightarrow> 'v \<Rightarrow> 'v result"
  notifs :: "'v \<Rightarrow> 'v \<Rightarrow> (nat \<times> wake) list"

record 'v meth =
  ready :: "nat \<Rightarrow> 'v \<Rightarrow> bool"
  stages :: "'v stage list"

datatype 'v cpt =
    Out
  | Enter "'v stage list"
  | In "'v stage list"
  | Susp nat "'v stage list"
  | Relock "'v stage list"

record 'v monitor =
  holder :: "nat option"
  gates :: "nat \<Rightarrow> nat list"
  vars :: 'v
  pcs :: "nat \<Rightarrow> 'v cpt"
  broken :: bool

definition wake_up :: "nat list \<Rightarrow> (nat \<Rightarrow> 'v cpt) \<Rightarrow> nat \<Rightarrow> 'v cpt" where
  "wake_up ws p = (\<lambda>j. if j \<in> set ws then (case p j of Susp g ss \<Rightarrow> Relock ss | pc \<Rightarrow> pc) else p j)"

definition notify_gate :: "nat \<times> wake \<Rightarrow> 'v monitor \<Rightarrow> 'v monitor" where
  "notify_gate n s =
     (let (ws, rest) = (case snd n of One \<Rightarrow> notifyOne (gates s (fst n)) | All \<Rightarrow> notifyAll (gates s (fst n)))
      in s\<lparr>gates := (gates s)(fst n := rest), pcs := wake_up ws (pcs s)\<rparr>)"

inductive mon_step :: "'v meth set \<Rightarrow> 'v monitor \<Rightarrow> 'v monitor \<Rightarrow> bool" for M :: "'v meth set" where
  MS_call: "m \<in> M \<Longrightarrow> pcs s i = Out \<Longrightarrow> ready m i (vars s) \<Longrightarrow>
    mon_step M s (s\<lparr>pcs := (pcs s)(i := Enter (stages m))\<rparr>)"
| MS_enter: "pcs s i = Enter ss \<or> pcs s i = Relock ss \<Longrightarrow> holder s = None \<Longrightarrow>
    mon_step M s (s\<lparr>holder := Some i, pcs := (pcs s)(i := In ss)\<rparr>)"
| MS_wait: "pcs s i = In (st # ss) \<Longrightarrow> \<not> guard st (vars s) \<Longrightarrow>
    mon_step M s (s\<lparr>holder := None, gates := (gates s)(gate st := cv_await_suspend i (gates s (gate st))),
                    pcs := (pcs s)(i := Susp (gate st) (st # ss))\<rparr>)"
| MS_run: "pcs s i = In (st # ss) \<Longrightarrow> guard st (vars s) \<Longrightarrow> act st i (vars s) = ok v \<Longrightarrow>
    mon_step M s (fold notify_gate (notifs st (vars s) v) (s\<lparr>vars := v, pcs := (pcs s)(i := In ss)\<rparr>))"
| MS_fail: "pcs s i = In (st # ss) \<Longrightarrow> guard st (vars s) \<Longrightarrow> act st i (vars s) = Inl f \<Longrightarrow>
    mon_step M s (s\<lparr>broken := True\<rparr>)"
| MS_leave: "pcs s i = In [] \<Longrightarrow> mon_step M s (s\<lparr>holder := None, pcs := (pcs s)(i := Out)\<rparr>)"

fun todo :: "'v cpt \<Rightarrow> 'v stage list option" where
  "todo Out = None"
| "todo (Enter ss) = Some ss"
| "todo (In ss) = Some ss"
| "todo (Susp g ss) = Some ss"
| "todo (Relock ss) = Some ss"

definition mon_init :: "'v \<Rightarrow> 'v monitor \<Rightarrow> bool" where
  "mon_init v s \<longleftrightarrow> holder s = None \<and> gates s = (\<lambda>_. []) \<and> vars s = v \<and> pcs s = (\<lambda>_. Out) \<and> \<not> broken s"

text \<open>Who holds the lock and who sits in which list.\<close>

fun inside :: "'v cpt \<Rightarrow> bool" where
  "inside (In ss) = True"
| "inside _ = False"

fun asleep :: "nat \<Rightarrow> 'v cpt \<Rightarrow> bool" where
  "asleep g (Susp h ss) = (g = h)"
| "asleep g _ = False"

definition mon_ok :: "'v monitor \<Rightarrow> bool" where
  "mon_ok s \<longleftrightarrow> (\<forall>i. inside (pcs s i) \<longleftrightarrow> holder s = Some i)
     \<and> (\<forall>g. distinct (gates s g)) \<and> (\<forall>g i. i \<in> set (gates s g) \<longleftrightarrow> asleep g (pcs s i))"

lemma mon_ok_gates: "mon_ok s \<Longrightarrow> asleep g (pcs s i) \<Longrightarrow> gates s g \<noteq> []"
  by (metis empty_iff empty_set mon_ok_def)

lemma wake_up_todo [simp]: "todo (wake_up ws p j) = todo (p j)"
  by (simp add: wake_up_def split: cpt.splits)

lemma wake_up_inside [simp]: "inside (wake_up ws p j) = inside (p j)"
  by (simp add: wake_up_def split: cpt.splits)

lemma wake_up_asleep: "asleep g (wake_up ws p j) \<longleftrightarrow> asleep g (p j) \<and> j \<notin> set ws"
  by (simp add: wake_up_def split: cpt.splits)

lemma inside_In: "inside pc \<longleftrightarrow> (\<exists>ss. pc = In ss)"
  by (cases pc) auto

lemma notify_gate_simps [simp]:
  "vars (notify_gate n s) = vars s" "holder (notify_gate n s) = holder s"
  "broken (notify_gate n s) = broken s" "todo (pcs (notify_gate n s) j) = todo (pcs s j)"
  "inside (pcs (notify_gate n s) j) = inside (pcs s j)"
  by (simp_all add: notify_gate_def case_prod_unfold Let_def)

lemma notify_fold_simps [simp]:
  "vars (fold notify_gate ns s) = vars s" "holder (fold notify_gate ns s) = holder s"
  "broken (fold notify_gate ns s) = broken s" "todo (pcs (fold notify_gate ns s) j) = todo (pcs s j)"
  "inside (pcs (fold notify_gate ns s) j) = inside (pcs s j)"
  by (induction ns arbitrary: s) simp_all

text \<open>A notification resumes a first part of one list and leaves the rest.\<close>

lemma notify_gate_split:
  obtains ws rest where "gates s (fst n) = ws @ rest"
    and "notify_gate n s = s\<lparr>gates := (gates s)(fst n := rest), pcs := wake_up ws (pcs s)\<rparr>"
    and "snd n = All \<Longrightarrow> rest = []" and "snd n = One \<Longrightarrow> length ws \<le> 1 \<and> (ws = [] \<longrightarrow> rest = [])"
proof (cases "snd n")
  case One
  show thesis
  proof (cases "gates s (fst n)")
    case Nil
    then show thesis using One by (intro that[of "[]" "[]"]) (auto simp: notify_gate_def notifyOne_def)
  next
    case (Cons a as)
    then show thesis using One by (intro that[of "[a]" as]) (auto simp: notify_gate_def notifyOne_def)
  qed
next
  case All
  then show thesis by (intro that[of "gates s (fst n)" "[]"]) (auto simp: notify_gate_def notifyAll_def)
qed

lemma notify_gate_ok:
  assumes "mon_ok s"
  shows "mon_ok (notify_gate n s)"
proof -
  obtain ws rest where split: "gates s (fst n) = ws @ rest"
    and e: "notify_gate n s = s\<lparr>gates := (gates s)(fst n := rest), pcs := wake_up ws (pcs s)\<rparr>"
    by (rule notify_gate_split)
  have d: "distinct (ws @ rest)" and m: "\<And>h i. i \<in> set (gates s h) \<longleftrightarrow> asleep h (pcs s i)"
    using assms split unfolding mon_ok_def by metis+
  have "i \<in> set (((gates s)(fst n := rest)) h) \<longleftrightarrow> asleep h (wake_up ws (pcs s) i)" for h i
  proof (cases "h = fst n")
    case True
    then show ?thesis using m[of i h] d split by (auto simp: wake_up_asleep)
  next
    case False
    have "i \<in> set ws \<Longrightarrow> asleep (fst n) (pcs s i)" using m[of i "fst n"] split by simp
    then have "i \<in> set ws \<Longrightarrow> \<not> asleep h (pcs s i)" using False by (cases "pcs s i") auto
    then show ?thesis using False m[of i h] by (auto simp: wake_up_asleep)
  qed
  then show ?thesis using assms d by (simp add: e mon_ok_def)
qed

lemma notify_gate_susp: "pcs (notify_gate n s) j = Susp g ss \<Longrightarrow> pcs s j = Susp g ss"
  by (auto simp: notify_gate_def case_prod_unfold Let_def wake_up_def split: cpt.splits if_splits)

lemma notify_all_none:
  assumes "mon_ok s"
  shows "\<not> asleep g (pcs (notify_gate (g, All) s) j)"
proof -
  have "gates (notify_gate (g, All) s) g = []" by (simp add: notify_gate_def notifyAll_def)
  then show ?thesis using mon_ok_gates[OF notify_gate_ok[OF assms]] by blast
qed

lemma notify_one_none:
  assumes "mon_ok s" and "\<And>a b. asleep g (pcs s a) \<Longrightarrow> asleep g (pcs s b) \<Longrightarrow> a = b"
  shows "\<not> asleep g (pcs (notify_gate (g, One) s) j)"
proof -
  have "distinct (gates s g)" "\<forall>a \<in> set (gates s g). \<forall>b \<in> set (gates s g). a = b"
    using assms by (auto simp: mon_ok_def)
  then have "gates s g = [] \<or> (\<exists>a. gates s g = [a])"
    by (metis distinct_length_2_or_more list.exhaust list.set_intros)
  then have "gates (notify_gate (g, One) s) g = []" by (auto simp: notify_gate_def notifyOne_def)
  then show ?thesis using mon_ok_gates[OF notify_gate_ok[OF assms(1)]] by blast
qed

lemma notify_fold_ok: "mon_ok s \<Longrightarrow> mon_ok (fold notify_gate ns s)"
  by (induction ns arbitrary: s) (simp_all add: notify_gate_ok)

lemma mon_ok_step:
  assumes "mon_ok s" and "mon_step M s t"
  shows "mon_ok t"
  using assms(2)
proof (cases rule: mon_step.cases)
  case (MS_run i st ss v)
  have "mon_ok (s\<lparr>vars := v, pcs := (pcs s)(i := In ss)\<rparr>)"
    using assms(1) MS_run(2) by (auto simp: mon_ok_def dest: spec[of _ i])
  then show ?thesis using MS_run(1) notify_fold_ok by blast
next
  case (MS_call m i)
  then show ?thesis using assms(1) by (auto simp: mon_ok_def dest: spec[of _ i])
next
  case (MS_enter i ss)
  then show ?thesis using assms(1) by (auto simp: mon_ok_def dest: spec[of _ i])
next
  case (MS_wait i st ss)
  then have "holder s = Some i" using assms(1) by (simp add: mon_ok_def inside_In) metis
  then show ?thesis using assms(1) MS_wait by (auto simp: mon_ok_def cv_await_suspend_def dest: spec[of _ i])
next
  case (MS_leave i)
  then have "holder s = Some i" using assms(1) by (simp add: mon_ok_def inside_In) metis
  then show ?thesis using assms(1) MS_leave by (auto simp: mon_ok_def dest: spec[of _ i])
qed (use assms(1) in \<open>simp add: mon_ok_def\<close>)

section \<open>Clients\<close>

text \<open>
  The contract of a client: an invariant \<open>I\<close> of the protected variables and, for every coroutine
  inside a method, a condition \<open>pre\<close> on the stages it still has to run, which the other
  coroutines leave alone.  \<open>monitor_total\<close> adds that no assertion of a stage fails.
\<close>

definition mon_inv :: "('v \<Rightarrow> bool) \<Rightarrow> (nat \<Rightarrow> 'v stage list \<Rightarrow> 'v \<Rightarrow> bool) \<Rightarrow> 'v monitor \<Rightarrow> bool" where
  "mon_inv I pre s \<longleftrightarrow> mon_ok s \<and> I (vars s) \<and> (\<forall>i ss. todo (pcs s i) = Some ss \<longrightarrow> pre i ss (vars s))"

locale monitor_client =
  fixes M :: "'v meth set"
    and v0 :: 'v
    and I :: "'v \<Rightarrow> bool"
    and pre :: "nat \<Rightarrow> 'v stage list \<Rightarrow> 'v \<Rightarrow> bool"
  assumes init_ok: "I v0"
    and call_pre: "m \<in> M \<Longrightarrow> I v \<Longrightarrow> ready m i v \<Longrightarrow> pre i (stages m) v"
    and run_ok: "I v \<Longrightarrow> pre i (st # ss) v \<Longrightarrow> guard st v \<Longrightarrow> act st i v = ok v' \<Longrightarrow> I v' \<and> pre i ss v'"
    and run_frame: "I v \<Longrightarrow> pre i (st # ss) v \<Longrightarrow> guard st v \<Longrightarrow> act st i v = ok v' \<Longrightarrow>
      j \<noteq> i \<Longrightarrow> pre j ss' v \<Longrightarrow> pre j ss' v'"
begin

lemma mon_inv_init: "mon_init v0 s \<Longrightarrow> mon_inv I pre s"
  by (simp add: mon_init_def mon_inv_def mon_ok_def init_ok)

lemma mon_inv_run:
  assumes "mon_inv I pre s" and "pcs s i = In (st # ss)" and "guard st (vars s)" and "act st i (vars s) = ok v"
  shows "mon_inv I pre (fold notify_gate ns (s\<lparr>vars := v, pcs := (pcs s)(i := In ss)\<rparr>))"
proof -
  have I: "I (vars s)" and p: "pre i (st # ss) (vars s)" and mo: "mon_ok s"
    using assms(1,2) by (auto simp: mon_inv_def dest: spec[of _ i])
  have "mon_ok (s\<lparr>vars := v, pcs := (pcs s)(i := In ss)\<rparr>)"
    using mo assms(2) by (auto simp: mon_ok_def dest: spec[of _ i])
  moreover have "pre j ss' v" if "todo (((pcs s)(i := In ss)) j) = Some ss'" for j ss'
    using that assms run_ok[OF I p assms(3,4)] run_frame[OF I p assms(3,4)]
    by (cases "j = i") (auto simp: mon_inv_def)
  ultimately show ?thesis
    using run_ok[OF I p assms(3,4)] by (simp add: mon_inv_def notify_fold_ok)
qed

lemma mon_inv_step:
  assumes "mon_inv I pre s" and "mon_step M s t"
  shows "mon_inv I pre t"
proof -
  have mo: "mon_ok t" using mon_ok_step[OF _ assms(2)] assms(1) by (simp add: mon_inv_def)
  from assms(2) show ?thesis
  proof (cases rule: mon_step.cases)
    case (MS_call m i)
    then show ?thesis using assms(1) mo call_pre by (auto simp: mon_inv_def)
  next
    case (MS_enter i ss)
    then have "todo (pcs s i) = Some ss" by auto
    then show ?thesis using assms(1) mo MS_enter by (auto simp: mon_inv_def)
  next
    case (MS_wait i st ss)
    then have "todo (pcs s i) = Some (st # ss)" by auto
    then show ?thesis using assms(1) mo MS_wait by (auto simp: mon_inv_def)
  next
    case (MS_run i st ss v)
    then show ?thesis using mon_inv_run[OF assms(1)] by simp
  next
    case (MS_fail i st ss f)
    then show ?thesis using assms(1) mo by (simp add: mon_inv_def)
  next
    case (MS_leave i)
    then show ?thesis using assms(1) mo by (auto simp: mon_inv_def)
  qed
qed

end

sublocale monitor_client \<subseteq> cl: inv_system "mon_init v0" "mon_step M" "mon_inv I pre"
  by unfold_locales (rule mon_inv_init, assumption, rule mon_inv_step)

locale monitor_total = monitor_client +
  assumes run_total: "I v \<Longrightarrow> pre i (st # ss) v \<Longrightarrow> guard st v \<Longrightarrow> \<exists>v'. act st i v = ok v'"
begin

lemma not_broken_step:
  assumes "mon_inv I pre s" and "\<not> broken s" and "mon_step M s t"
  shows "\<not> broken t"
  using assms(3)
proof (cases rule: mon_step.cases)
  case (MS_fail i st ss f)
  have "todo (pcs s i) = Some (st # ss)" using MS_fail(2) by simp
  then have "I (vars s)" "pre i (st # ss) (vars s)"
    using assms(1) by (auto simp: mon_inv_def)
  then show ?thesis using run_total MS_fail(3,4) by fastforce
qed (use assms(2) in simp_all)

end

sublocale monitor_total \<subseteq> tot: inv_system "mon_init v0" "mon_step M" "\<lambda>s. mon_inv I pre s \<and> \<not> broken s"
  by unfold_locales
    (auto simp: mon_inv_init mon_init_def intro: mon_inv_step dest: not_broken_step)

section \<open>Properties\<close>

text \<open>
  C34.  The notifier, for any interleaving of waits, notifications and resets: nobody is suspended
  while it is in the notified state (so a wait after a notification returns at once), and in the
  other state the suspended coroutines are exactly those on its list, each once.  A notification
  resumes exactly them.
\<close>

theorem notifier_no_lost_wakeup:
  assumes "reach notifier_init notifier_step s"
  shows "(ntf s = Notified \<longrightarrow> (\<forall>j. npcs s j \<noteq> N_susp))
    \<and> distinct (fst (nt_notify (ntf s))) \<and> set (fst (nt_notify (ntf s))) = {j. npcs s j = N_susp}
    \<and> nt_await_ready (snd (nt_notify (ntf s)))"
  using nt.reach_inv[OF assms]
  by (auto simp: notifier_inv_def nt_notify_def nt_await_ready_def split: notifier.splits)

theorem notifier_no_lost_wakeup_witness:
  "let s = \<lparr>ntf = Awaiting [], npcs = (\<lambda>_. N_out), resumed = []\<rparr>
   in reach notifier_init notifier_step s \<and> nt_await_ready (snd (nt_notify (ntf s)))"
proof -
  let ?s = "\<lparr>ntf = Awaiting [], npcs = (\<lambda>_. N_out), resumed = []\<rparr>"
  have "reach notifier_init notifier_step ?s" by (rule reach_init) (simp add: notifier_init_def)
  then show ?thesis using notifier_no_lost_wakeup[of ?s] by (simp add: Let_def)
qed

end
