(* ===== verification/Sync_Model.thy ===== *)
theory Sync_Model
  imports CondVar_Model
begin

text \<open>
  The synchronisation primitives built from a lock and condition variables:
  \<open>CountingSemaphore\<close> (async_simple/coro/Semaphore.h), \<open>Latch\<close> (async_simple/coro/Latch.h) and
  \<open>SharedMutexBase\<close> (async_simple/coro/SharedMutex.h).

  Every member function is a method of the previous theory.  Counters of type \<open>size_t\<close> that the
  code only decreases after a test and only increases under an assertion are natural numbers;
  \<open>state_\<close> of the shared mutex is a 32-bit word.  Ghost variables count what was taken and given
  and remember each coroutine's role.
\<close>

unbundle bit_operations_syntax

section \<open>Counting semaphore\<close>

record sem_vars =
  sem_count :: nat
  sem_taken :: nat
  sem_given :: nat

definition acquire_stage :: "sem_vars stage" where
  "acquire_stage =
     \<lparr>gate = 0, guard = (\<lambda>v. sem_count v > 0),
      act = (\<lambda>i v. ok (v\<lparr>sem_count := sem_count v - 1, sem_taken := sem_taken v + 1\<rparr>)),
      notifs = (\<lambda>v v'. [])\<rparr>"

definition release_stage :: "nat \<Rightarrow> nat \<Rightarrow> sem_vars stage" where
  "release_stage LeastMaxValue update =
     \<lparr>gate = 0, guard = (\<lambda>v. True),
      act = (\<lambda>i v. if \<not> (update \<le> LeastMaxValue \<and> update \<noteq> 0)
                   then Inl (Assert_fail ''update <= LeastMaxValue && update != 0'')
                   else if \<not> sem_count v \<le> LeastMaxValue - update
                   then Inl (Assert_fail ''count_ <= LeastMaxValue - update'')
                   else ok (v\<lparr>sem_count := sem_count v + update, sem_given := sem_given v + update\<rparr>)),
      notifs = (\<lambda>v v'. [(0, if update > 1 then All else One)])\<rparr>"

definition try_acquire_stage :: "sem_vars stage" where
  "try_acquire_stage =
     \<lparr>gate = 0, guard = (\<lambda>v. True),
      act = (\<lambda>i v. ok (if sem_count v > 0
                       then v\<lparr>sem_count := sem_count v - 1, sem_taken := sem_taken v + 1\<rparr> else v)),
      notifs = (\<lambda>v v'. [])\<rparr>"

definition sem_methods :: "nat \<Rightarrow> sem_vars meth set" where
  "sem_methods LeastMaxValue =
     insert \<lparr>ready = (\<lambda>_ _. True), stages = [acquire_stage]\<rparr>
       (insert \<lparr>ready = (\<lambda>_ _. True), stages = [try_acquire_stage]\<rparr>
          (range (\<lambda>update. \<lparr>ready = (\<lambda>_ _. True), stages = [release_stage LeastMaxValue update]\<rparr>)))"

definition Semaphore_new :: "nat \<Rightarrow> sem_vars" where
  "Semaphore_new desired = \<lparr>sem_count = desired, sem_taken = 0, sem_given = 0\<rparr>"

definition sem_inv :: "nat \<Rightarrow> sem_vars \<Rightarrow> bool" where
  "sem_inv desired v \<longleftrightarrow> sem_count v + sem_taken v = desired + sem_given v"

definition sem_pre :: "nat \<Rightarrow> nat \<Rightarrow> sem_vars stage list \<Rightarrow> sem_vars \<Rightarrow> bool" where
  "sem_pre lm i ss v \<longleftrightarrow> ss = [] \<or> ss = [acquire_stage] \<or> ss = [try_acquire_stage]
     \<or> (\<exists>u. ss = [release_stage lm u])"

interpretation sem: monitor_client "sem_methods lm" "Semaphore_new d" "sem_inv d" "sem_pre lm" for lm d
proof
  show "sem_inv d (Semaphore_new d)" by (simp add: sem_inv_def Semaphore_new_def)
  show "m \<in> sem_methods lm \<Longrightarrow> sem_inv d v \<Longrightarrow> ready m i v \<Longrightarrow> sem_pre lm i (stages m) v" for m i v
    by (auto simp: sem_methods_def sem_pre_def)
  show "sem_inv d v \<Longrightarrow> sem_pre lm i (st # ss) v \<Longrightarrow> guard st v \<Longrightarrow> act st i v = ok v' \<Longrightarrow>
      sem_inv d v' \<and> sem_pre lm i ss v'" for v i st ss v'
    by (auto simp: sem_inv_def sem_pre_def acquire_stage_def try_acquire_stage_def release_stage_def
        split: if_splits)
  show "sem_inv d v \<Longrightarrow> sem_pre lm i (st # ss) v \<Longrightarrow> guard st v \<Longrightarrow> act st i v = ok v' \<Longrightarrow>
      j \<noteq> i \<Longrightarrow> sem_pre lm j ss' v \<Longrightarrow> sem_pre lm j ss' v'" for v i st ss v' j ss'
    by (simp add: sem_pre_def)
qed

text \<open>
  A coroutine that has been woken up, or has just entered, and is about to test the counter.
\<close>

fun testing :: "sem_vars cpt \<Rightarrow> bool" where
  "testing (Relock ss) = True"
| "testing (In (st # ss)) = (st = acquire_stage)"
| "testing _ = False"

definition testers :: "(nat \<Rightarrow> sem_vars cpt) \<Rightarrow> nat set" where
  "testers p = {i. testing (p i)}"

definition sem_wake_inv :: "nat \<Rightarrow> sem_vars monitor \<Rightarrow> bool" where
  "sem_wake_inv lm s \<longleftrightarrow> finite (testers (pcs s))
     \<and> (\<forall>i g ss. pcs s i = Susp g ss \<longrightarrow> g = 0 \<and> ss = [acquire_stage])
     \<and> (\<forall>i ss. pcs s i = Relock ss \<longrightarrow> ss = [acquire_stage])
     \<and> (gates s 0 \<noteq> [] \<longrightarrow> sem_count (vars s) \<le> card (testers (pcs s)))"

lemma stages_differ [simp]:
  "acquire_stage \<noteq> release_stage lm u" "acquire_stage \<noteq> try_acquire_stage"
  "release_stage lm u \<noteq> acquire_stage" "try_acquire_stage \<noteq> acquire_stage"
proof -
  let ?v = "\<lparr>sem_count = 0, sem_taken = 0, sem_given = 0\<rparr>"
  have "guard acquire_stage ?v \<noteq> guard (release_stage lm u) ?v"
    and "guard acquire_stage ?v \<noteq> guard try_acquire_stage ?v"
    by (simp_all add: acquire_stage_def release_stage_def try_acquire_stage_def)
  then show "acquire_stage \<noteq> release_stage lm u" "acquire_stage \<noteq> try_acquire_stage"
    "release_stage lm u \<noteq> acquire_stage" "try_acquire_stage \<noteq> acquire_stage" by metis+
qed

lemma testing_wake_up:
  "testing (wake_up ws p j) \<longleftrightarrow> testing (p j) \<or> j \<in> set ws \<and> (\<exists>g. asleep g (p j))"
  by (cases "p j") (auto simp: wake_up_def)

lemma sem_stage_cases:
  assumes "mon_inv (sem_inv d) (sem_pre lm) s" and "pcs s i = In (st # ss)"
  obtains "st = acquire_stage" "ss = []" | "st = try_acquire_stage" "ss = []"
    | u where "st = release_stage lm u" "ss = []"
proof -
  have "sem_pre lm i (st # ss) (vars s)" using assms by (auto simp: mon_inv_def dest: spec[of _ i])
  then show thesis using that by (auto simp: sem_pre_def)
qed

lemma testers_upd [simp]:
  "testers (p(i := pc)) = (if testing pc then insert i (testers p) else testers p - {i})"
  by (auto simp: testers_def)

lemma testers_iff [simp]: "i \<in> testers p \<longleftrightarrow> testing (p i)"
  by (simp add: testers_def)

lemma testers_same [simp]: "\<not> testing (p i) \<Longrightarrow> testers p - {i} = testers p"
  by auto

lemma testers_wake_up:
  "set ws \<subseteq> {j. asleep 0 (p j)} \<Longrightarrow> testers (wake_up ws p) = testers p \<union> set ws"
  by (fastforce simp: testing_wake_up)

lemma sem_wake_release:
  assumes "mon_ok s" and "sem_wake_inv lm s" and "pcs s i = In [release_stage lm u]"
    and "act (release_stage lm u) i (vars s) = ok v"
  shows "sem_wake_inv lm (notify_gate (0, if u > 1 then All else One) (s\<lparr>vars := v, pcs := (pcs s)(i := In [])\<rparr>))"
proof -
  let ?s = "s\<lparr>vars := v, pcs := (pcs s)(i := In [])\<rparr>"
  have u: "u \<noteq> 0" "sem_count v = sem_count (vars s) + u"
    using assms(4) by (auto simp: release_stage_def split: if_splits)
  have T: "testers (pcs ?s) = testers (pcs s)" using assms(3) by simp
  have sl: "\<And>j. j \<in> set (gates s 0) \<longleftrightarrow> asleep 0 (pcs s j)" using assms(1) by (simp add: mon_ok_def)
  have i: "i \<notin> set (gates s 0)" using sl[of i] assms(3) by simp
  obtain ws rest where split: "gates s 0 = ws @ rest"
    and e: "notify_gate (0, if u > 1 then All else One) ?s =
        ?s\<lparr>gates := (gates s)(0 := rest), pcs := wake_up ws (pcs ?s)\<rparr>"
    and all: "u > 1 \<Longrightarrow> rest = []" and one: "\<not> u > 1 \<Longrightarrow> length ws \<le> 1 \<and> (ws = [] \<longrightarrow> rest = [])"
    by (rule notify_gate_split[of ?s "(0, if u > 1 then All else One)"]) auto
  have "set ws \<subseteq> {j. asleep 0 (pcs ?s j)}" using sl split i by auto
  then have T': "testers (wake_up ws (pcs ?s)) = testers (pcs s) \<union> set ws"
    using T testers_wake_up by blast
  have fin: "finite (testers (pcs s))" using assms(2) by (simp add: sem_wake_inv_def)
  have "sem_count v \<le> card (testers (wake_up ws (pcs ?s)))" if "rest \<noteq> []"
  proof -
    have "u = 1" using all that u by (cases "u > 1") auto
    obtain a where a: "ws = [a]" using one \<open>rest \<noteq> []\<close> \<open>u = 1\<close> by (cases ws) auto
    then have "\<not> testing (pcs s a)" using sl[of a] split by (cases "pcs s a") auto
    then have "card (testers (pcs s) \<union> set ws) = card (testers (pcs s)) + 1"
      using fin a by simp
    moreover have "sem_count (vars s) \<le> card (testers (pcs s))"
      using assms(2) split a by (simp add: sem_wake_inv_def)
    ultimately show ?thesis using T' u \<open>u = 1\<close> by simp
  qed
  moreover have "\<forall>j g ss. pcs ?s j = Susp g ss \<longrightarrow> g = 0 \<and> ss = [acquire_stage]"
    and "\<forall>j ss. pcs ?s j = Relock ss \<longrightarrow> ss = [acquire_stage]"
    using assms(2) by (auto simp: sem_wake_inv_def)
  ultimately show ?thesis using fin T' unfolding e
    by (auto simp: sem_wake_inv_def wake_up_def split: cpt.splits if_splits)
qed

lemma sem_wake_step:
  assumes "mon_inv (sem_inv d) (sem_pre lm) s" and "sem_wake_inv lm s" and "mon_step (sem_methods lm) s t"
  shows "sem_wake_inv lm t"
  using assms(3)
proof (cases rule: mon_step.cases)
  case (MS_call m i)
  then show ?thesis using assms(2) by (auto simp: sem_wake_inv_def)
next
  case (MS_enter i ss)
  have "card (testers (pcs s)) \<le> card (insert i (testers (pcs s)))"
    using assms(2) by (intro card_mono) (auto simp: sem_wake_inv_def)
  moreover have "testers (pcs t) = testers (pcs s) \<or> testers (pcs t) = insert i (testers (pcs s))"
  proof (cases "testing (pcs s i)")
    case True
    then have "pcs s i = Relock ss" using MS_enter(2) by auto
    then have "ss = [acquire_stage]" using assms(2) unfolding sem_wake_inv_def by blast
    then show ?thesis by (simp add: MS_enter(1))
  next
    case False
    then show ?thesis by (simp add: MS_enter(1))
  qed
  ultimately show ?thesis using MS_enter(1) assms(2) by (auto simp: sem_wake_inv_def)
next
  case (MS_wait i st ss)
  then have "st = acquire_stage \<and> ss = []"
    by (cases rule: sem_stage_cases[OF assms(1) MS_wait(2)])
      (auto simp: try_acquire_stage_def release_stage_def)
  then show ?thesis using MS_wait assms(2)
    by (auto simp: sem_wake_inv_def acquire_stage_def)
next
  case (MS_run i st ss v)
  show ?thesis
  proof (cases rule: sem_stage_cases[OF assms(1) MS_run(2)])
    case 1
    have "i \<in> testers (pcs s)" using 1 MS_run(2) by simp
    then have "card (testers (pcs s) - {i}) = card (testers (pcs s)) - 1"
      using assms(2) by (simp add: sem_wake_inv_def card_Diff_singleton)
    then show ?thesis using 1 MS_run assms(2)
      by (auto simp: sem_wake_inv_def acquire_stage_def)
  next
    case 2
    have "testers ((pcs s)(i := In [])) = testers (pcs s)" using 2 MS_run(2) by auto
    then show ?thesis using 2 MS_run assms(2)
      by (auto simp: sem_wake_inv_def try_acquire_stage_def split: if_splits)
  next
    case (3 u)
    then show ?thesis
      using sem_wake_release[of s lm i u v] MS_run assms(1,2)
      by (simp add: mon_inv_def) (simp add: release_stage_def)
  qed
next
  case (MS_fail i st ss f)
  then show ?thesis using assms(2) by (simp add: sem_wake_inv_def)
next
  case (MS_leave i)
  have "testers ((pcs s)(i := Out)) = testers (pcs s)" using MS_leave(2) by auto
  then show ?thesis using MS_leave assms(2) by (auto simp: sem_wake_inv_def)
qed

interpretation semw: inv_system "mon_init (Semaphore_new d)" "mon_step (sem_methods lm)"
  "\<lambda>s. mon_inv (sem_inv d) (sem_pre lm) s \<and> sem_wake_inv lm s" for lm d
proof
  show "mon_init (Semaphore_new d) s \<Longrightarrow> mon_inv (sem_inv d) (sem_pre lm) s \<and> sem_wake_inv lm s" for s
    using sem.mon_inv_init by (auto simp: mon_init_def sem_wake_inv_def testers_def)
  show "mon_inv (sem_inv d) (sem_pre lm) s \<and> sem_wake_inv lm s \<Longrightarrow> mon_step (sem_methods lm) s t \<Longrightarrow>
      mon_inv (sem_inv d) (sem_pre lm) t \<and> sem_wake_inv lm t" for s t
    using sem.mon_inv_step sem_wake_step by blast
qed

text \<open>
  C23.  The counting semaphore, for any number of coroutines that acquire, try to acquire and
  release: the permits are conserved (counter plus permits taken equals the initial value plus
  permits given, so never more are taken than exist), only one coroutine is in a critical section
  at a time, and no wake-up is lost: if somebody sleeps in \<open>acquire\<close>, the counter is at most the
  number of coroutines that have been woken or have entered and are about to test it; in
  particular nobody sleeps on a positive counter when no such coroutine is left.
\<close>

theorem semaphore_correct:
  assumes "reach (mon_init (Semaphore_new d)) (mon_step (sem_methods lm)) s"
  shows "sem_count (vars s) + sem_taken (vars s) = d + sem_given (vars s)
    \<and> (\<forall>i j. inside (pcs s i) \<longrightarrow> inside (pcs s j) \<longrightarrow> i = j)
    \<and> ((\<exists>i. asleep 0 (pcs s i)) \<longrightarrow> sem_count (vars s) \<le> card {i. testing (pcs s i)})
    \<and> ((\<exists>i. asleep 0 (pcs s i)) \<and> (\<forall>i. \<not> testing (pcs s i)) \<longrightarrow> sem_count (vars s) = 0)"
proof -
  have inv: "mon_inv (sem_inv d) (sem_pre lm) s" and w: "sem_wake_inv lm s"
    using semw.reach_inv[OF assms] by auto
  have mo: "mon_ok s" and I: "sem_inv d (vars s)" using inv by (simp_all add: mon_inv_def)
  have le: "sem_count (vars s) \<le> card {i. testing (pcs s i)}" if "asleep 0 (pcs s i)" for i
  proof -
    have "gates s 0 \<noteq> []" using mo that by (rule mon_ok_gates)
    then show ?thesis using w by (simp add: sem_wake_inv_def testers_def)
  qed
  then have "sem_count (vars s) = 0" if "asleep 0 (pcs s i)" "\<forall>i. \<not> testing (pcs s i)" for i
    using that by fastforce
  then show ?thesis using le mo I by (auto simp: sem_inv_def mon_ok_def)
qed

definition demo_monitor :: "'v \<Rightarrow> 'v monitor" where
  "demo_monitor v = \<lparr>holder = None, gates = (\<lambda>_. []), vars = v, pcs = (\<lambda>_. Out), broken = False\<rparr>"

lemma demo_monitor_reach: "reach (mon_init v) (mon_step M) (demo_monitor v)"
  by (rule reach_init) (simp add: mon_init_def demo_monitor_def)

theorem semaphore_correct_witness:
  "sem_count (vars (demo_monitor (Semaphore_new 3))) + sem_taken (vars (demo_monitor (Semaphore_new 3))) = 3"
  using semaphore_correct[of 3 10 "demo_monitor (Semaphore_new 3)", OF demo_monitor_reach]
  by (simp add: demo_monitor_def Semaphore_new_def)

section \<open>Latch\<close>

record latch_vars =
  latch_count :: nat
  latch_passed :: nat

definition Latch_new :: "nat \<Rightarrow> latch_vars" where
  "Latch_new count = \<lparr>latch_count = count, latch_passed = 0\<rparr>"

definition count_down_stage :: "nat \<Rightarrow> latch_vars stage" where
  "count_down_stage update =
     \<lparr>gate = 0, guard = (\<lambda>v. True),
      act = (\<lambda>i v. if \<not> latch_count v \<ge> update then Inl (Assert_fail ''count_ >= update'')
                   else ok (v\<lparr>latch_count := latch_count v - update\<rparr>)),
      notifs = (\<lambda>v v'. if latch_count v' = 0 then [(0, All)] else [])\<rparr>"

definition latch_wait_stage :: "latch_vars stage" where
  "latch_wait_stage =
     \<lparr>gate = 0, guard = (\<lambda>v. latch_count v = 0),
      act = (\<lambda>i v. ok (v\<lparr>latch_passed := latch_passed v + 1\<rparr>)), notifs = (\<lambda>v v'. [])\<rparr>"

text \<open>\<open>try_wait\<close> only reads; \<open>arrive_and_wait\<close> calls the two methods one after the other.\<close>

definition latch_try_wait :: "latch_vars \<Rightarrow> bool" where
  "latch_try_wait v = (latch_count v = 0)"

definition latch_methods :: "latch_vars meth set" where
  "latch_methods =
     insert \<lparr>ready = (\<lambda>_ _. True), stages = [latch_wait_stage]\<rparr>
       (range (\<lambda>update. \<lparr>ready = (\<lambda>_ _. True), stages = [count_down_stage update]\<rparr>))"

definition latch_inv :: "latch_vars \<Rightarrow> bool" where
  "latch_inv v \<longleftrightarrow> (latch_passed v > 0 \<longrightarrow> latch_count v = 0)"

definition latch_pre :: "nat \<Rightarrow> latch_vars stage list \<Rightarrow> latch_vars \<Rightarrow> bool" where
  "latch_pre i ss v \<longleftrightarrow> ss = [] \<or> ss = [latch_wait_stage] \<or> (\<exists>u. ss = [count_down_stage u])"

interpretation latch: monitor_client latch_methods "Latch_new n" latch_inv latch_pre for n
proof
  show "latch_inv (Latch_new n)" by (simp add: latch_inv_def Latch_new_def)
  show "m \<in> latch_methods \<Longrightarrow> latch_inv v \<Longrightarrow> ready m i v \<Longrightarrow> latch_pre i (stages m) v" for m i v
    by (auto simp: latch_methods_def latch_pre_def)
  show "latch_inv v \<Longrightarrow> latch_pre i (st # ss) v \<Longrightarrow> guard st v \<Longrightarrow> act st i v = ok v' \<Longrightarrow>
      latch_inv v' \<and> latch_pre i ss v'" for v i st ss v'
    by (auto simp: latch_inv_def latch_pre_def latch_wait_stage_def count_down_stage_def split: if_splits)
  show "latch_inv v \<Longrightarrow> latch_pre i (st # ss) v \<Longrightarrow> guard st v \<Longrightarrow> act st i v = ok v' \<Longrightarrow>
      j \<noteq> i \<Longrightarrow> latch_pre j ss' v \<Longrightarrow> latch_pre j ss' v'" for v i st ss v' j ss'
    by (simp add: latch_pre_def)
qed

lemma latch_wake_step:
  assumes "mon_inv latch_inv latch_pre s" and "gates s 0 \<noteq> [] \<longrightarrow> latch_count (vars s) \<noteq> 0"
    and "mon_step latch_methods s t"
  shows "gates t 0 \<noteq> [] \<longrightarrow> latch_count (vars t) \<noteq> 0"
  using assms(3)
proof (cases rule: mon_step.cases)
  case (MS_wait i st ss)
  have "latch_pre i (st # ss) (vars s)" using assms(1) MS_wait(2) by (auto simp: mon_inv_def dest: spec[of _ i])
  then have "st = latch_wait_stage" using MS_wait(3) by (auto simp: latch_pre_def count_down_stage_def)
  then show ?thesis using MS_wait by (simp add: latch_wait_stage_def)
next
  case (MS_run i st ss v)
  have "latch_pre i (st # ss) (vars s)" using assms(1) MS_run(2) by (auto simp: mon_inv_def dest: spec[of _ i])
  then consider "st = latch_wait_stage" | u where "st = count_down_stage u" by (auto simp: latch_pre_def)
  then show ?thesis
  proof cases
    case 1
    then show ?thesis using MS_run assms(2) by (auto simp: latch_wait_stage_def)
  next
    case 2
    then show ?thesis using MS_run assms(2)
      by (auto simp: count_down_stage_def notify_gate_def notifyAll_def split: if_splits)
  qed
qed (use assms(2) in auto)

interpretation latchw: inv_system "mon_init (Latch_new n)" "mon_step latch_methods"
  "\<lambda>s. mon_inv latch_inv latch_pre s \<and> (gates s 0 \<noteq> [] \<longrightarrow> latch_count (vars s) \<noteq> 0)" for n
proof
  show "mon_init (Latch_new n) s \<Longrightarrow>
      mon_inv latch_inv latch_pre s \<and> (gates s 0 \<noteq> [] \<longrightarrow> latch_count (vars s) \<noteq> 0)" for s
    using latch.mon_inv_init by (auto simp: mon_init_def)
  show "mon_inv latch_inv latch_pre s \<and> (gates s 0 \<noteq> [] \<longrightarrow> latch_count (vars s) \<noteq> 0) \<Longrightarrow>
      mon_step latch_methods s t \<Longrightarrow>
      mon_inv latch_inv latch_pre t \<and> (gates t 0 \<noteq> [] \<longrightarrow> latch_count (vars t) \<noteq> 0)" for s t
    using latch.mon_inv_step latch_wake_step by blast
qed

text \<open>
  The latch: a coroutine gets past \<open>wait\<close> only after the counter has reached zero, where it
  stays; and nobody sleeps on an open latch, because the \<open>count_down\<close> that reaches zero wakes
  every sleeper.
\<close>

theorem latch_correct:
  assumes "reach (mon_init (Latch_new n)) (mon_step latch_methods) s"
  shows "(latch_passed (vars s) > 0 \<longrightarrow> latch_try_wait (vars s))
    \<and> (latch_try_wait (vars s) \<longrightarrow> (\<forall>i. \<not> asleep 0 (pcs s i)))"
proof -
  have "mon_inv latch_inv latch_pre s" "gates s 0 \<noteq> [] \<longrightarrow> latch_count (vars s) \<noteq> 0"
    using latchw.reach_inv[OF assms] by auto
  then show ?thesis
    by (auto simp: mon_inv_def latch_inv_def latch_try_wait_def dest: mon_ok_gates)
qed

theorem latch_correct_witness:
  "latch_try_wait (vars (demo_monitor (Latch_new 0)))
     \<and> (\<forall>i. \<not> asleep 0 (pcs (demo_monitor (Latch_new 0)) i))"
  using latch_correct[of 0 "demo_monitor (Latch_new 0)", OF demo_monitor_reach]
  by (simp add: demo_monitor_def Latch_new_def latch_try_wait_def)

section \<open>Shared mutex\<close>

datatype role = R_none | R_reader | R_queued | R_writer

record sm_vars =
  sm_state :: "32 word"
  role :: "nat \<Rightarrow> role"

definition write_entered_flag :: "32 word" where
  "write_entered_flag = push_bit 31 1"

definition max_readers :: "32 word" where
  "max_readers = NOT write_entered_flag"

definition write_entered :: "sm_vars \<Rightarrow> bool" where
  "write_entered v = (sm_state v AND write_entered_flag \<noteq> 0)"

definition readers :: "sm_vars \<Rightarrow> 32 word" where
  "readers v = sm_state v AND max_readers"

definition SharedMutex_new :: sm_vars where
  "SharedMutex_new = \<lparr>sm_state = 0, role = (\<lambda>_. R_none)\<rparr>"

text \<open>\<open>coLock\<close> has two waits, one per gate, under the same lock.\<close>

definition lock_stage1 :: "sm_vars stage" where
  "lock_stage1 =
     \<lparr>gate = 1, guard = (\<lambda>v. \<not> write_entered v),
      act = (\<lambda>i v. ok (v\<lparr>sm_state := sm_state v OR write_entered_flag, role := (role v)(i := R_queued)\<rparr>)),
      notifs = (\<lambda>v v'. [])\<rparr>"

definition lock_stage2 :: "sm_vars stage" where
  "lock_stage2 =
     \<lparr>gate = 2, guard = (\<lambda>v. readers v = 0),
      act = (\<lambda>i v. ok (v\<lparr>role := (role v)(i := R_writer)\<rparr>)), notifs = (\<lambda>v v'. [])\<rparr>"

definition tryLock_stage :: "sm_vars stage" where
  "tryLock_stage =
     \<lparr>gate = 1, guard = (\<lambda>v. True),
      act = (\<lambda>i v. ok (if sm_state v = 0
                       then v\<lparr>sm_state := write_entered_flag, role := (role v)(i := R_writer)\<rparr> else v)),
      notifs = (\<lambda>v v'. [])\<rparr>"

definition unlock_stage :: "sm_vars stage" where
  "unlock_stage =
     \<lparr>gate = 1, guard = (\<lambda>v. True),
      act = (\<lambda>i v. if \<not> write_entered v then Inl (Assert_fail ''write_entered()'')
                   else ok (v\<lparr>sm_state := 0, role := (role v)(i := R_none)\<rparr>)),
      notifs = (\<lambda>v v'. [(1, All)])\<rparr>"

definition lockShared_stage :: "sm_vars stage" where
  "lockShared_stage =
     \<lparr>gate = 1, guard = (\<lambda>v. sm_state v < max_readers),
      act = (\<lambda>i v. ok (v\<lparr>sm_state := sm_state v + 1, role := (role v)(i := R_reader)\<rparr>)),
      notifs = (\<lambda>v v'. [])\<rparr>"

definition tryLockShared_stage :: "sm_vars stage" where
  "tryLockShared_stage =
     \<lparr>gate = 1, guard = (\<lambda>v. True),
      act = (\<lambda>i v. ok (if sm_state v < max_readers
                       then v\<lparr>sm_state := sm_state v + 1, role := (role v)(i := R_reader)\<rparr> else v)),
      notifs = (\<lambda>v v'. [])\<rparr>"

definition unlockShared_stage :: "sm_vars stage" where
  "unlockShared_stage =
     \<lparr>gate = 1, guard = (\<lambda>v. True),
      act = (\<lambda>i v. if \<not> readers v > 0 then Inl (Assert_fail ''readers() > 0'')
                   else ok (v\<lparr>sm_state := sm_state v - 1, role := (role v)(i := R_none)\<rparr>)),
      notifs = (\<lambda>v v'. if write_entered v' then (if readers v' = 0 then [(2, One)] else [])
                       else (if sm_state v = max_readers then [(1, One)] else []))\<rparr>"

text \<open>
  A coroutine locks only when it holds nothing, and unlocks what it holds.  A call whose
  \<open>mut_.tryLock()\<close> fails returns \<open>false\<close> and changes nothing.
\<close>

definition sm_methods :: "sm_vars meth set" where
  "sm_methods =
     {\<lparr>ready = (\<lambda>i v. role v i = R_none), stages = [lock_stage1, lock_stage2]\<rparr>,
      \<lparr>ready = (\<lambda>i v. role v i = R_none), stages = [tryLock_stage]\<rparr>,
      \<lparr>ready = (\<lambda>i v. role v i = R_writer), stages = [unlock_stage]\<rparr>,
      \<lparr>ready = (\<lambda>i v. role v i = R_none), stages = [lockShared_stage]\<rparr>,
      \<lparr>ready = (\<lambda>i v. role v i = R_none), stages = [tryLockShared_stage]\<rparr>,
      \<lparr>ready = (\<lambda>i v. role v i = R_reader), stages = [unlockShared_stage]\<rparr>}"

lemma write_entered_iff: "write_entered v \<longleftrightarrow> 2 ^ 31 \<le> unat (sm_state v)"
proof -
  let ?w = "sm_state v"
  have "write_entered_flag = 2 ^ 31" by (simp add: write_entered_flag_def)
  have "?w AND write_entered_flag = 0 \<longleftrightarrow> \<not> bit ?w 31"
  proof -
    have "bit (?w AND 2 ^ 31) n \<longleftrightarrow> bit ?w n \<and> n = 31" for n
      by (subst bit_and_iff, subst bit_exp_iff) auto
    then show ?thesis unfolding \<open>write_entered_flag = 2 ^ 31\<close>
      by (metis bit_0_eq bit_eqI bot_apply bot_bool_def)
  qed
  moreover have "bit ?w 31 \<longleftrightarrow> 2 ^ 31 \<le> unat ?w"
  proof -
    have "unat ?w < 2 ^ 32" using unsigned_less[of ?w, where ?'a=nat] by simp
    then have "unat ?w div 2 ^ 31 < 2" by simp
    moreover have "bit ?w 31 \<longleftrightarrow> odd (unat ?w div 2 ^ 31)"
    proof -
      have "bit ?w 31 \<longleftrightarrow> bit (unat ?w) 31" by (simp add: bit_unsigned_iff)
      then show ?thesis by (simp only: bit_iff_odd)
    qed
    moreover have "unat ?w div 2 ^ 31 = 0 \<longleftrightarrow> \<not> 2 ^ 31 \<le> unat ?w" by (simp add: div_eq_0_iff not_le)
    ultimately show ?thesis by (cases "unat ?w div 2 ^ 31 = 0") (auto simp: less_2_cases_iff)
  qed
  ultimately show ?thesis by (simp add: write_entered_def)
qed

lemma readers_iff: "unat (readers v) = unat (sm_state v) mod 2 ^ 31"
proof -
  have "max_readers = mask 31" by (simp add: max_readers_def write_entered_flag_def mask_eq_exp_minus_1)
  then have "readers v = take_bit 31 (sm_state v)" by (simp only: readers_def take_bit_eq_mask)
  then have "unat (readers v) = take_bit 31 (unat (sm_state v))" by (simp only: unsigned_take_bit_eq)
  then show ?thesis by (simp only: take_bit_eq_mod)
qed

lemma max_readers_val: "unat max_readers = 2 ^ 31 - 1"
  by (simp add: max_readers_def write_entered_flag_def)

lemma set_flag: "\<not> 2 ^ 31 \<le> unat w \<Longrightarrow> unat (w OR write_entered_flag) = unat w + 2 ^ 31" for w :: "32 word"
proof -
  assume w: "\<not> 2 ^ 31 \<le> unat w"
  have f: "write_entered_flag = 2 ^ 31" by (simp add: write_entered_flag_def)
  have "\<not> bit w 31"
    using write_entered_iff[of "\<lparr>sm_state = w, role = (\<lambda>_. R_none)\<rparr>"] w
    by (auto simp: write_entered_def f bit_eq_iff bit_and_iff bit_exp_iff) 
  then have "w OR write_entered_flag = w + write_entered_flag"
    unfolding f by (intro disjunctive_add[symmetric], subst bit_exp_iff) auto
  then show ?thesis using w by (simp add: f unat_word_ariths)
qed

text \<open>The invariant: the word is the flag plus the number of readers; one writer at most.\<close>

definition reader_set :: "sm_vars \<Rightarrow> nat set" where
  "reader_set v = {i. role v i = R_reader}"

definition writing :: "role \<Rightarrow> bool" where
  "writing r \<longleftrightarrow> r = R_queued \<or> r = R_writer"

definition sm_inv :: "sm_vars \<Rightarrow> bool" where
  "sm_inv v \<longleftrightarrow> finite (reader_set v) \<and> card (reader_set v) < 2 ^ 31
     \<and> unat (sm_state v) = (if \<exists>i. writing (role v i) then 2 ^ 31 else 0) + card (reader_set v)
     \<and> (\<forall>i j. writing (role v i) \<longrightarrow> writing (role v j) \<longrightarrow> i = j)
     \<and> (\<forall>i. role v i = R_writer \<longrightarrow> reader_set v = {})"

definition sm_pre :: "nat \<Rightarrow> sm_vars stage list \<Rightarrow> sm_vars \<Rightarrow> bool" where
  "sm_pre i ss v \<longleftrightarrow> ss = []
     \<or> (ss = [lock_stage1, lock_stage2] \<or> ss = [tryLock_stage] \<or> ss = [lockShared_stage]
          \<or> ss = [tryLockShared_stage]) \<and> role v i = R_none
     \<or> ss = [lock_stage2] \<and> role v i = R_queued
     \<or> ss = [unlock_stage] \<and> role v i = R_writer
     \<or> ss = [unlockShared_stage] \<and> role v i = R_reader"

lemma sm_entered: "sm_inv v \<Longrightarrow> write_entered v \<longleftrightarrow> (\<exists>i. writing (role v i))"
  by (auto simp: sm_inv_def write_entered_iff)

lemma sm_readers: "sm_inv v \<Longrightarrow> unat (readers v) = card (reader_set v)"
  by (auto simp: sm_inv_def readers_iff)

lemma reader_set_upd:
  "reader_set (v\<lparr>sm_state := w, role := (role v)(i := r)\<rparr>) =
     (if r = R_reader then insert i (reader_set v) else reader_set v - {i})"
  by (auto simp: reader_set_def)

lemma writing_simps [simp]:
  "\<not> writing R_none" "\<not> writing R_reader" "writing R_queued" "writing R_writer"
  by (simp_all add: writing_def)

lemma sm_inv_queue:
  assumes "sm_inv v" and "role v i = R_none" and "\<not> write_entered v"
  shows "sm_inv (v\<lparr>sm_state := sm_state v OR write_entered_flag, role := (role v)(i := R_queued)\<rparr>)"
proof -
  have n: "\<not> writing (role v j)" for j using sm_entered[OF assms(1)] assms(3) by blast
  have "i \<notin> reader_set v" using assms(2) by (simp add: reader_set_def)
  then show ?thesis
    using assms(1) n set_flag[of "sm_state v"] assms(3)
    by (auto simp: sm_inv_def reader_set_upd write_entered_iff)
qed

lemma sm_inv_own:
  assumes "sm_inv v" and "role v i = R_queued" and "readers v = 0"
  shows "sm_inv (v\<lparr>role := (role v)(i := R_writer)\<rparr>)"
proof -
  have e: "reader_set v = {}" using sm_readers[OF assms(1)] assms(1,3) by (simp add: sm_inv_def)
  have "reader_set (v\<lparr>role := (role v)(i := R_writer)\<rparr>) = {}" using e by (auto simp: reader_set_def)
  moreover have "writing (((role v)(i := R_writer)) j) \<longleftrightarrow> writing (role v j)" for j
    using assms(2) by simp
  ultimately show ?thesis using assms(1) e by (simp add: sm_inv_def)
qed

lemma sm_inv_write:
  assumes "sm_inv v" and "role v i = R_none" and "sm_state v = 0"
  shows "sm_inv (v\<lparr>sm_state := write_entered_flag, role := (role v)(i := R_writer)\<rparr>)"
proof -
  have n: "\<not> writing (role v j)" for j
    using assms(1,3) by (auto simp: sm_inv_def split: if_splits)
  have e: "reader_set v = {}" using assms(1,3) n by (auto simp: sm_inv_def)
  then show ?thesis using assms n by (auto simp: sm_inv_def reader_set_upd write_entered_flag_def)
qed

lemma sm_inv_unlock:
  assumes "sm_inv v" and "role v i = R_writer"
  shows "sm_inv (v\<lparr>sm_state := 0, role := (role v)(i := R_none)\<rparr>)"
proof -
  have "reader_set v = {}" using assms by (auto simp: sm_inv_def)
  moreover have "\<not> writing (role v j)" if "j \<noteq> i" for j
    using assms that by (auto simp: sm_inv_def)
  ultimately show ?thesis by (auto simp: sm_inv_def reader_set_upd)
qed

lemma sm_inv_read:
  assumes "sm_inv v" and "role v i = R_none" and "sm_state v < max_readers"
  shows "sm_inv (v\<lparr>sm_state := sm_state v + 1, role := (role v)(i := R_reader)\<rparr>)"
proof -
  have lt: "unat (sm_state v) < 2 ^ 31 - 1" using assms(3) by (simp add: word_less_nat_alt max_readers_val)
  then have "\<not> write_entered v" by (simp add: write_entered_iff)
  then have n: "\<not> writing (role v j)" for j using sm_entered[OF assms(1)] by blast
  have nw: "role v j \<noteq> R_writer" for j using n[of j] by auto
  have i: "i \<notin> reader_set v" using assms(2) by (simp add: reader_set_def)
  have "unat (sm_state v + 1) = unat (sm_state v) + 1" using lt by (intro unat_word_inc) simp
  then show ?thesis using assms(1) n nw i lt by (auto simp: sm_inv_def reader_set_upd)
qed

lemma sm_inv_unread:
  assumes "sm_inv v" and "role v i = R_reader"
  shows "readers v > 0" and "sm_inv (v\<lparr>sm_state := sm_state v - 1, role := (role v)(i := R_none)\<rparr>)"
proof -
  have fin: "finite (reader_set v)" using assms(1) by (simp add: sm_inv_def)
  have i: "i \<in> reader_set v" using assms(2) by (simp add: reader_set_def)
  then have pos: "card (reader_set v) > 0" using fin by (metis card_gt_0_iff empty_iff)
  then show "readers v > 0" using sm_readers[OF assms(1)] by (metis unat_gt_0 word_gt_0)
  have c: "card (reader_set v - {i}) = card (reader_set v) - 1" using i by simp
  have st: "unat (sm_state v) = (if \<exists>i. writing (role v i) then 2 ^ 31 else 0) + card (reader_set v)"
    using assms(1) by (simp add: sm_inv_def)
  then have "sm_state v \<noteq> 0" using pos by auto
  then have d: "unat (sm_state v - 1) = unat (sm_state v) - 1" by (rule unat_word_dec)
  have w: "writing (((role v)(i := R_none)) j) \<longleftrightarrow> writing (role v j)" for j using assms(2) by simp
  have "reader_set v = {} \<Longrightarrow> False" using i by simp
  then show "sm_inv (v\<lparr>sm_state := sm_state v - 1, role := (role v)(i := R_none)\<rparr>)"
    using assms(1) fin c d st pos w by (auto simp: sm_inv_def reader_set_upd)
qed

lemmas sm_stage_defs = lock_stage1_def lock_stage2_def tryLock_stage_def unlock_stage_def
  lockShared_stage_def tryLockShared_stage_def unlockShared_stage_def

lemma sm_pre_cases:
  assumes "sm_pre i (st # ss) v"
  obtains "st = lock_stage1" "ss = [lock_stage2]" "role v i = R_none"
    | "st = lock_stage2" "ss = []" "role v i = R_queued"
    | "st = tryLock_stage" "ss = []" "role v i = R_none"
    | "st = unlock_stage" "ss = []" "role v i = R_writer"
    | "st = lockShared_stage" "ss = []" "role v i = R_none"
    | "st = tryLockShared_stage" "ss = []" "role v i = R_none"
    | "st = unlockShared_stage" "ss = []" "role v i = R_reader"
  using assms by (auto simp: sm_pre_def)

lemma sm_pre_frame: "sm_pre j ss v \<Longrightarrow> role v' j = role v j \<Longrightarrow> sm_pre j ss v'"
  by (simp add: sm_pre_def)

lemma sm_run:
  assumes "sm_inv v" and "sm_pre i (st # ss) v" and "guard st v"
  shows "\<exists>v'. act st i v = ok v' \<and> sm_inv v' \<and> sm_pre i ss v' \<and> (\<forall>j. j \<noteq> i \<longrightarrow> role v' j = role v j)"
  using assms(2)
proof (cases rule: sm_pre_cases)
  case 1
  then show ?thesis using sm_inv_queue[OF assms(1), of i] assms(3)
    by (simp add: lock_stage1_def) (simp add: sm_pre_def)
next
  case 2
  then show ?thesis using sm_inv_own[OF assms(1), of i] assms(3)
    by (simp add: lock_stage2_def) (simp add: sm_pre_def)
next
  case 3
  then show ?thesis using sm_inv_write[OF assms(1), of i] assms(1)
    by (simp add: tryLock_stage_def) (simp add: sm_pre_def)
next
  case 4
  then have "write_entered v" using sm_entered[OF assms(1)] by (metis writing_simps(4))
  then show ?thesis using 4 sm_inv_unlock[OF assms(1), of i]
    by (simp add: unlock_stage_def) (simp add: sm_pre_def)
next
  case 5
  then show ?thesis using sm_inv_read[OF assms(1), of i] assms(3)
    by (simp add: lockShared_stage_def) (simp add: sm_pre_def)
next
  case 6
  then show ?thesis using sm_inv_read[OF assms(1), of i] assms(1)
    by (simp add: tryLockShared_stage_def) (simp add: sm_pre_def)
next
  case 7
  then show ?thesis using sm_inv_unread[OF assms(1), of i]
    by (simp add: unlockShared_stage_def) (simp add: sm_pre_def)
qed

interpretation sm: monitor_total sm_methods SharedMutex_new sm_inv sm_pre
proof
  show "sm_inv SharedMutex_new" by (simp add: sm_inv_def SharedMutex_new_def reader_set_def)
  show "m \<in> sm_methods \<Longrightarrow> sm_inv v \<Longrightarrow> ready m i v \<Longrightarrow> sm_pre i (stages m) v" for m i v
    by (auto simp: sm_methods_def sm_pre_def)
  show "sm_inv v \<Longrightarrow> sm_pre i (st # ss) v \<Longrightarrow> guard st v \<Longrightarrow> act st i v = ok v' \<Longrightarrow>
      sm_inv v' \<and> sm_pre i ss v'" for v i st ss v'
    using sm_run[of v i st ss] by auto
  show "sm_inv v \<Longrightarrow> sm_pre i (st # ss) v \<Longrightarrow> guard st v \<Longrightarrow> act st i v = ok v' \<Longrightarrow>
      j \<noteq> i \<Longrightarrow> sm_pre j ss' v \<Longrightarrow> sm_pre j ss' v'" for v i st ss v' j ss'
    using sm_run[of v i st ss] sm_pre_frame by auto
  show "sm_inv v \<Longrightarrow> sm_pre i (st # ss) v \<Longrightarrow> guard st v \<Longrightarrow> \<exists>v'. act st i v = ok v'" for v i st ss
    using sm_run[of v i st ss] by auto
qed

text \<open>
  Who sleeps and why: a queued writer on the second gate while there are readers, a writer on the
  first gate while the flag is set, a reader on the first gate.
\<close>

definition sm_sleeps :: "sm_vars \<Rightarrow> nat \<Rightarrow> sm_vars stage list \<Rightarrow> bool" where
  "sm_sleeps v g ss \<longleftrightarrow> g = 2 \<and> ss = [lock_stage2] \<and> readers v \<noteq> 0
     \<or> g = 1 \<and> ss = [lock_stage1, lock_stage2] \<and> write_entered v
     \<or> g = 1 \<and> ss = [lockShared_stage]"

definition sm_wake_inv :: "sm_vars monitor \<Rightarrow> bool" where
  "sm_wake_inv s \<longleftrightarrow> (\<forall>i g ss. pcs s i = Susp g ss \<longrightarrow> sm_sleeps (vars s) g ss)"

lemma asleep_Susp: "asleep g pc \<longleftrightarrow> (\<exists>ss. pc = Susp g ss)"
  by (cases pc) auto

lemma gates_of [simp]:
  "gate lock_stage1 = 1" "gate lock_stage2 = 2" "gate tryLock_stage = 1" "gate unlock_stage = 1"
  "gate lockShared_stage = 1" "gate tryLockShared_stage = 1" "gate unlockShared_stage = 1"
  by (simp_all add: sm_stage_defs)

lemma stage2_other [simp]:
  "lock_stage2 \<noteq> tryLock_stage" "lock_stage2 \<noteq> unlock_stage" "lock_stage2 \<noteq> lockShared_stage"
  "lock_stage2 \<noteq> tryLockShared_stage" "lock_stage2 \<noteq> unlockShared_stage"
  by (metis gates_of numeral_eq_one_iff semiring_norm(85))+

lemma stage2_queued:
  assumes "mon_inv sm_inv sm_pre s" and "sm_wake_inv s" and "asleep 2 (pcs s i)"
  shows "role (vars s) i = R_queued"
proof -
  obtain ss where ss: "pcs s i = Susp 2 ss" using assms(3) by (auto simp: asleep_Susp)
  then have "sm_sleeps (vars s) 2 ss" using assms(2) by (simp add: sm_wake_inv_def)
  then have "ss = [lock_stage2]" by (simp add: sm_sleeps_def)
  moreover have "sm_pre i ss (vars s)" using assms(1) ss by (auto simp: mon_inv_def dest: spec[of _ i])
  ultimately show ?thesis by (auto simp: sm_pre_def)
qed

text \<open>A change of the variables after which everybody still asleep has a reason to sleep.\<close>

lemma sm_wake_frame:
  assumes "sm_wake_inv s" and "\<And>i g ss. pcs s i = Susp g ss \<Longrightarrow> sm_sleeps (vars s) g ss \<Longrightarrow> sm_sleeps v g ss"
  shows "sm_wake_inv (s\<lparr>vars := v, pcs := (pcs s)(i := In xs)\<rparr>)"
  using assms by (auto simp: sm_wake_inv_def)

lemma sm_wake_notify:
  assumes "\<And>i g ss. pcs s i = Susp g ss \<Longrightarrow> asleep g (pcs (notify_gate n s) i) \<Longrightarrow> sm_sleeps (vars s) g ss"
  shows "sm_wake_inv (notify_gate n s)"
  unfolding sm_wake_inv_def
proof (intro allI impI)
  fix i g ss assume p: "pcs (notify_gate n s) i = Susp g ss"
  then have "pcs s i = Susp g ss" by (rule notify_gate_susp)
  then show "sm_sleeps (vars (notify_gate n s)) g ss" using assms p by simp
qed

lemma sm_wake_unlock:
  assumes "mon_ok s" and "sm_wake_inv s" and "sm_inv (vars s)" and "role (vars s) i = R_writer"
    and "pcs s i = In (st # xs)"
  shows "sm_wake_inv (notify_gate (1, All) (s\<lparr>vars := v, pcs := (pcs s)(i := In xs)\<rparr>))"
    (is "sm_wake_inv (notify_gate _ ?s)")
proof (rule sm_wake_notify)
  fix j g ss assume p: "pcs ?s j = Susp g ss" and a: "asleep g (pcs (notify_gate (1, All) ?s) j)"
  have mo: "mon_ok ?s" using assms(1,5) by (auto simp: mon_ok_def dest: spec[of _ i])
  have "g \<noteq> 1" using a notify_all_none[OF mo, of 1 j] by auto
  moreover have "readers (vars s) = 0"
    using assms(3,4) sm_readers[OF assms(3)] by (auto simp: sm_inv_def unat_eq_0 intro: unat_0_iff[THEN iffD1])
  moreover have "sm_sleeps (vars s) g ss" using assms(2) p by (auto simp: sm_wake_inv_def split: if_splits)
  ultimately show "sm_sleeps (vars ?s) g ss" by (simp add: sm_sleeps_def)
qed

lemma sm_wake_unread:
  assumes "mon_inv sm_inv sm_pre s" and "sm_wake_inv s" and "role (vars s) i = R_reader"
    and "pcs s i = In (unlockShared_stage # xs)" and "act unlockShared_stage i (vars s) = ok v"
  shows "sm_wake_inv (fold notify_gate (notifs unlockShared_stage (vars s) v)
    (s\<lparr>vars := v, pcs := (pcs s)(i := In xs)\<rparr>))" (is "sm_wake_inv (fold _ _ ?s)")
proof -
  have I: "sm_inv (vars s)" and mo: "mon_ok s" using assms(1) by (simp_all add: mon_inv_def)
  have v: "v = (vars s)\<lparr>sm_state := sm_state (vars s) - 1, role := (role (vars s))(i := R_none)\<rparr>"
    using assms(5) by (simp add: unlockShared_stage_def split: if_splits)
  have I': "sm_inv v" using sm_inv_unread(2)[OF I assms(3)] by (simp add: v)
  have "writing (role v j) \<longleftrightarrow> writing (role (vars s) j)" for j using assms(3) by (simp add: v)
  then have we: "write_entered v \<longleftrightarrow> write_entered (vars s)" using sm_entered[OF I] sm_entered[OF I'] by simp
  have mo': "mon_ok ?s" using mo assms(4) by (auto simp: mon_ok_def dest: spec[of _ i])
  have sl: "sm_sleeps (vars s) g ss" if "pcs ?s j = Susp g ss" for j g ss
    using that assms(2) by (auto simp: sm_wake_inv_def split: if_splits)
  have queued: "write_entered v \<and> role (vars s) j = R_queued" if "asleep 2 (pcs ?s j)" for j
  proof -
    have "role (vars s) j = R_queued"
      using stage2_queued[OF assms(1,2)] that by (auto split: if_splits)
    then show ?thesis using sm_entered[OF I] we by (metis writing_simps(3))
  qed
  have one: "j = k" if "asleep 2 (pcs ?s j)" "asleep 2 (pcs ?s k)" for j k
    using queued that I by (metis sm_inv_def writing_simps(3))
  have keep: "sm_sleeps v g ss" if "pcs ?s j = Susp g ss" "g \<noteq> 2 \<or> readers v \<noteq> 0" for j g ss
    using sl[OF that(1)] that(2) we by (auto simp: sm_sleeps_def)
  consider "write_entered v" "readers v = 0" | "write_entered v" "readers v \<noteq> 0" | "\<not> write_entered v" by blast
  then show ?thesis
  proof cases
    case 1
    have "sm_wake_inv (notify_gate (2, One) ?s)"
      using notify_one_none[OF mo' one] keep by (intro sm_wake_notify) force
    then show ?thesis using 1 by (simp add: unlockShared_stage_def)
  next
    case 2
    have "sm_wake_inv ?s" unfolding sm_wake_inv_def using keep 2 by simp
    then show ?thesis using 2 by (simp add: unlockShared_stage_def)
  next
    case 3
    have n2: "g \<noteq> 2" if "pcs ?s j = Susp g ss" for j g ss using queued[of j] that 3 by auto
    have "sm_wake_inv ?s" unfolding sm_wake_inv_def using keep n2 by simp
    moreover have "sm_wake_inv (notify_gate (1, One) ?s)" using keep n2 by (intro sm_wake_notify) simp
    ultimately show ?thesis using 3 by (simp add: unlockShared_stage_def)
  qed
qed

lemma sm_wake_read:
  assumes "sm_inv (vars s)" and "sm_inv v" and "sm_state (vars s) < max_readers" and "sm_wake_inv s"
    and "v = (vars s)\<lparr>sm_state := sm_state (vars s) + 1, role := (role (vars s))(i := R_reader)\<rparr>"
  shows "sm_wake_inv (s\<lparr>vars := v, pcs := (pcs s)(i := In xs)\<rparr>)"
proof (intro sm_wake_frame[OF assms(4)])
  have "\<not> write_entered (vars s)"
    using assms(3) by (simp add: write_entered_iff word_less_nat_alt max_readers_val)
  moreover have "card (reader_set v) > 0"
  proof -
    have "i \<in> reader_set v" by (simp add: assms(5) reader_set_def)
    moreover have "finite (reader_set v)" using assms(2) by (simp add: sm_inv_def)
    ultimately show ?thesis by (auto simp: card_gt_0_iff)
  qed
  then have "readers v \<noteq> 0" using sm_readers[OF assms(2)] by auto
  ultimately show "sm_sleeps v g ss" if "sm_sleeps (vars s) g ss" for g ss
    using that by (auto simp: sm_sleeps_def)
qed

lemma sm_wake_wait:
  assumes "mon_inv sm_inv sm_pre s" and "sm_wake_inv s" and "pcs s i = In (st # ss)" and "\<not> guard st (vars s)"
  shows "sm_sleeps (vars s) (gate st) (st # ss)"
proof -
  have "sm_pre i (st # ss) (vars s)" using assms(1,3) by (auto simp: mon_inv_def dest: spec[of _ i])
  then show ?thesis using assms(4)
    by (cases rule: sm_pre_cases) (simp_all add: sm_sleeps_def, simp_all add: sm_stage_defs)
qed

lemma sm_wake_run:
  assumes "mon_inv sm_inv sm_pre s" and "sm_wake_inv s" and "pcs s i = In (st # ss)"
    and "guard st (vars s)" and "act st i (vars s) = ok v"
  shows "sm_wake_inv (fold notify_gate (notifs st (vars s) v) (s\<lparr>vars := v, pcs := (pcs s)(i := In ss)\<rparr>))"
proof -
  have I: "sm_inv (vars s)" and mo: "mon_ok s" and pre: "sm_pre i (st # ss) (vars s)"
    using assms(1,3) by (auto simp: mon_inv_def dest: spec[of _ i])
  have I': "sm_inv v" using sm_run[OF I pre assms(4)] assms(5) by auto
  have read0: "readers (vars s) \<noteq> 0" if "sm_sleeps (vars s) 2 xs" for xs using that by (simp add: sm_sleeps_def)
  from pre show ?thesis
  proof (cases rule: sm_pre_cases)
    case 1
    have v: "v = (vars s)\<lparr>sm_state := sm_state (vars s) OR write_entered_flag, role := (role (vars s))(i := R_queued)\<rparr>"
      using assms(5) 1 by (simp add: lock_stage1_def)
    have "\<exists>j. writing (role v j)" by (rule exI[of _ i]) (simp add: v)
    then have "write_entered v" using sm_entered[OF I'] by simp
    moreover have "reader_set v = reader_set (vars s)" using 1 by (auto simp: v reader_set_def)
    then have "readers v = readers (vars s)" using sm_readers[OF I] sm_readers[OF I'] by (intro unsigned_word_eqI[where ?'a = nat]) simp
    ultimately have "sm_wake_inv (s\<lparr>vars := v, pcs := (pcs s)(i := In ss)\<rparr>)"
      by (intro sm_wake_frame[OF assms(2)]) (auto simp: sm_sleeps_def)
    then show ?thesis using 1 by (simp add: lock_stage1_def)
  next
    case 2
    then have "sm_state v = sm_state (vars s)" using assms(5) by (auto simp: lock_stage2_def)
    then have "sm_wake_inv (s\<lparr>vars := v, pcs := (pcs s)(i := In ss)\<rparr>)"
      by (intro sm_wake_frame[OF assms(2)]) (simp add: sm_sleeps_def write_entered_def readers_def)
    then show ?thesis using 2 by (simp add: lock_stage2_def)
  next
    case 3
    have "sm_wake_inv (s\<lparr>vars := v, pcs := (pcs s)(i := In ss)\<rparr>)"
    proof (intro sm_wake_frame[OF assms(2)])
      show "sm_sleeps v g xs" if "sm_sleeps (vars s) g xs" for g xs
        using that assms(5) 3
        by (cases "sm_state (vars s) = 0") (auto simp: tryLock_stage_def sm_sleeps_def readers_def write_entered_def)
    qed
    then show ?thesis using 3 by (simp add: tryLock_stage_def)
  next
    case 4
    then show ?thesis using sm_wake_unlock[OF mo assms(2) I _ assms(3)] by (simp add: unlock_stage_def)
  next
    case 5
    have "sm_wake_inv (s\<lparr>vars := v, pcs := (pcs s)(i := In ss)\<rparr>)"
      using 5 assms(4,5) by (intro sm_wake_read[OF I I' _ assms(2)]) (auto simp: lockShared_stage_def)
    then show ?thesis using 5 by (simp add: lockShared_stage_def)
  next
    case 6
    have "sm_wake_inv (s\<lparr>vars := v, pcs := (pcs s)(i := In ss)\<rparr>)"
    proof (cases "sm_state (vars s) < max_readers")
      case True
      then show ?thesis using 6 assms(5)
        by (intro sm_wake_read[OF I I' _ assms(2)]) (auto simp: tryLockShared_stage_def)
    next
      case False
      then show ?thesis using 6 assms(5) by (intro sm_wake_frame[OF assms(2)]) (simp add: tryLockShared_stage_def)
    qed
    then show ?thesis using 6 by (simp add: tryLockShared_stage_def)
  next
    case 7
    then show ?thesis using sm_wake_unread[OF assms(1,2)] assms(3,5) by simp
  qed
qed

lemma sm_wake_step:
  assumes "mon_inv sm_inv sm_pre s" and "sm_wake_inv s" and "mon_step sm_methods s t"
  shows "sm_wake_inv t"
  using assms(3)
proof (cases rule: mon_step.cases)
  case (MS_wait i st ss)
  then show ?thesis using assms(2) sm_wake_wait[OF assms(1,2) MS_wait(2,3)] by (auto simp: sm_wake_inv_def)
next
  case (MS_run i st ss v)
  then show ?thesis using sm_wake_run[OF assms(1,2)] by simp
qed (use assms(2) in \<open>auto simp: sm_wake_inv_def\<close>)

interpretation smw: inv_system "mon_init SharedMutex_new" "mon_step sm_methods"
  "\<lambda>s. (mon_inv sm_inv sm_pre s \<and> \<not> broken s) \<and> sm_wake_inv s"
proof
  show "mon_init SharedMutex_new s \<Longrightarrow> (mon_inv sm_inv sm_pre s \<and> \<not> broken s) \<and> sm_wake_inv s" for s
    using sm.mon_inv_init by (auto simp: mon_init_def sm_wake_inv_def)
  show "(mon_inv sm_inv sm_pre s \<and> \<not> broken s) \<and> sm_wake_inv s \<Longrightarrow> mon_step sm_methods s t \<Longrightarrow>
      (mon_inv sm_inv sm_pre t \<and> \<not> broken t) \<and> sm_wake_inv t" for s t
    using sm.mon_inv_step sm.not_broken_step sm_wake_step by blast
qed

text \<open>
  C24.  The shared mutex, for any number of coroutines that lock and unlock it in shared and in
  exclusive mode (and unlock only what they hold): no assertion fails; the counter word counts
  the readers exactly and its top bit says whether a writer holds the lock or is queued for it;
  there is at most one such writer, and while a writer holds the lock there is no reader.
\<close>

theorem shared_mutex_exclusion:
  assumes "reach (mon_init SharedMutex_new) (mon_step sm_methods) s"
  shows "\<not> broken s
    \<and> unat (readers (vars s)) = card {i. role (vars s) i = R_reader}
    \<and> (write_entered (vars s) \<longleftrightarrow> (\<exists>i. role (vars s) i = R_queued \<or> role (vars s) i = R_writer))
    \<and> (\<forall>i j. writing (role (vars s) i) \<longrightarrow> writing (role (vars s) j) \<longrightarrow> i = j)
    \<and> (\<forall>i j. role (vars s) i = R_writer \<longrightarrow> role (vars s) j \<noteq> R_reader)"
proof -
  have I: "sm_inv (vars s)" and nb: "\<not> broken s" using sm.tot.reach_inv[OF assms] by (auto simp: mon_inv_def)
  show ?thesis
    using nb sm_readers[OF I] sm_entered[OF I] I by (auto simp: sm_inv_def reader_set_def writing_def)
qed

theorem shared_mutex_exclusion_witness:
  "\<not> broken (demo_monitor SharedMutex_new) \<and> unat (readers (vars (demo_monitor SharedMutex_new))) = 0"
  using shared_mutex_exclusion[OF demo_monitor_reach] by (simp add: demo_monitor_def SharedMutex_new_def)

text \<open>
  Writers are not forgotten: a queued writer sleeps on the second gate only while readers hold
  the lock, and a writer sleeps on the first gate only while another writer holds or is queued
  for the lock.
\<close>

theorem shared_mutex_wakeups:
  assumes "reach (mon_init SharedMutex_new) (mon_step sm_methods) s"
  shows "(\<forall>i. asleep 2 (pcs s i) \<longrightarrow> role (vars s) i = R_queued \<and> readers (vars s) \<noteq> 0)
    \<and> (\<forall>i. pcs s i = Susp 1 [lock_stage1, lock_stage2] \<longrightarrow> write_entered (vars s))"
proof -
  have inv: "mon_inv sm_inv sm_pre s" and w: "sm_wake_inv s" using smw.reach_inv[OF assms] by auto
  have "readers (vars s) \<noteq> 0" if "asleep 2 (pcs s i)" for i
    using w that by (fastforce simp: sm_wake_inv_def sm_sleeps_def asleep_Susp)
  moreover have "write_entered (vars s)" if "pcs s i = Susp 1 [lock_stage1, lock_stage2]" for i
    using w that unfolding sm_wake_inv_def sm_sleeps_def by fastforce
  ultimately show ?thesis using stage2_queued[OF inv w] by blast
qed

theorem shared_mutex_wakeups_witness:
  "\<forall>i. \<not> asleep 2 (pcs (demo_monitor SharedMutex_new) i)"
proof -
  have "readers (vars (demo_monitor SharedMutex_new)) = 0"
    by (simp add: demo_monitor_def SharedMutex_new_def readers_def)
  then show ?thesis using shared_mutex_wakeups[OF demo_monitor_reach] by blast
qed

end
