(* ===== verification/Future_Model.thy ===== *)
theory Future_Model
  imports FutureState_Model
begin

text \<open>
  Futures and promises (async_simple/Future.h, async_simple/Promise.h).

  The store maps addresses to shared states.  The closures the library itself installs as
  continuations are the constructors of \<open>kont\<close>; \<open>K_user\<close> stands for a callback of a user.  When a
  shared state calls its continuation (its log \<open>ran\<close> grows), the call becomes a job of the agenda,
  and \<open>job_step\<close> runs the body of the closure, which ends with the destruction of the promise it
  owns.  User functions are HOL functions that return or throw.
\<close>

section \<open>Data\<close>

record 'v Future =
  fut_shared :: "nat option"
  fut_local :: "'v LocalState"

record Promise =
  prom_shared :: "nat option"
  hasFuture :: bool

datatype 'v kont =
    K_then nat "'v Try_t \<Rightarrow> exc + 'v" bool
  | K_then_future nat "'v Try_t \<Rightarrow> exc + 'v Future" bool
  | K_forward nat
  | K_user nat

record 'v store =
  heap :: "nat \<Rightarrow> ('v, 'v kont) FutureState"
  next_addr :: nat
  agenda :: "('v kont \<times> 'v Try_t) list"
  user_log :: "(nat \<times> 'v Try_t) list"
  failures :: "failure list"

definition store_new :: "'v store" where
  "store_new = \<lparr>heap = (\<lambda>_. FutureState_new), next_addr = 0, agenda = [], user_log = [], failures = []\<rparr>"

text \<open>An operation of the shared state at address \<open>a\<close>; the continuations it calls become jobs.\<close>

definition at_state ::
  "nat \<Rightarrow> (('v, 'v kont) FutureState \<Rightarrow> (('v, 'v kont) FutureState, unit) call) \<Rightarrow> 'v store
     \<Rightarrow> ('v store, unit) call" where
  "at_state a f s =
     (let (r, st) = f (heap s a)
      in (r, s\<lparr>heap := (heap s)(a := st),
               agenda := drop (length (ran (heap s a))) (ran st) @ agenda s\<rparr>))"

definition upd_state ::
  "nat \<Rightarrow> (('v, 'v kont) FutureState \<Rightarrow> ('v, 'v kont) FutureState) \<Rightarrow> 'v store \<Rightarrow> 'v store" where
  "upd_state a f s = s\<lparr>heap := (heap s)(a := f (heap s a))\<rparr>"

section \<open>Promise\<close>

definition Promise_new :: "'v store \<Rightarrow> Promise \<times> 'v store" where
  "Promise_new s =
     (let a = next_addr s
      in (\<lparr>prom_shared = Some a, hasFuture = False\<rparr>,
          upd_state a (\<lambda>_. attachPromise FutureState_new) (s\<lparr>next_addr := a + 1\<rparr>)))"

definition Promise_delete :: "bool \<Rightarrow> exec_env \<Rightarrow> Promise \<Rightarrow> 'v store \<Rightarrow> ('v store, unit) call" where
  "Promise_delete chk env p s =
     (case prom_shared p of None \<Rightarrow> (ok (), s) | Some a \<Rightarrow> at_state a (detachPromise chk env) s)"

definition Promise_copy :: "Promise \<Rightarrow> 'v store \<Rightarrow> ('v store, Promise) call" where
  "Promise_copy other s =
     (case prom_shared other of
        None \<Rightarrow> (Inl (Undefined ''null shared state''), s)
      | Some a \<Rightarrow> (ok other, upd_state a attachPromise s))"

text \<open>Move construction empties the source; move assignment swaps.\<close>

definition Promise_move :: "Promise \<Rightarrow> Promise \<times> Promise" where
  "Promise_move other = (other, \<lparr>prom_shared = None, hasFuture = False\<rparr>)"

definition Promise_move_assign :: "Promise \<Rightarrow> Promise \<Rightarrow> Promise \<times> Promise" where
  "Promise_move_assign self other = (other, self)"

definition Promise_copy_assign ::
  "bool \<Rightarrow> exec_env \<Rightarrow> Promise \<Rightarrow> Promise \<Rightarrow> 'v store \<Rightarrow> ('v store, Promise) call" where
  "Promise_copy_assign chk env self other s =
     bind_st (Promise_delete chk env self s) (\<lambda>_. Promise_copy other)"

definition Promise_valid :: "Promise \<Rightarrow> bool" where
  "Promise_valid p = (prom_shared p \<noteq> None)"

definition Future_of :: "nat option \<Rightarrow> 'v store \<Rightarrow> 'v Future \<times> 'v store" where
  "Future_of fs s =
     (\<lparr>fut_shared = fs, fut_local = ls_empty\<rparr>,
      case fs of None \<Rightarrow> s | Some a \<Rightarrow> upd_state a attachOne s)"

definition getFuture :: "Promise \<Rightarrow> 'v store \<Rightarrow> ('v store, Promise \<times> 'v Future) call" where
  "getFuture p s =
     (if \<not> Promise_valid p then (throw (Logic_error ''Promise is broken''), s)
      else if hasFuture p then (throw (Logic_error ''Promise already has a future''), s)
      else let (f, s') = Future_of (prom_shared p) s in (ok (p\<lparr>hasFuture := True\<rparr>, f), s'))"

definition Promise_checkout :: "64 word \<Rightarrow> Promise \<Rightarrow> 'v store \<Rightarrow> 'v store" where
  "Promise_checkout c p s =
     (case prom_shared p of None \<Rightarrow> s | Some a \<Rightarrow> upd_state a (fs_checkout c) s)"

definition Promise_forceSched :: "Promise \<Rightarrow> 'v store \<Rightarrow> 'v store" where
  "Promise_forceSched p s =
     (case prom_shared p of None \<Rightarrow> s | Some a \<Rightarrow> upd_state a (setForceSched True) s)"

text \<open>\<open>setValue\<close> in its four forms and \<open>setException\<close>: they differ in the \<open>Try\<close> they build.\<close>

definition setValue ::
  "bool \<Rightarrow> exec_env \<Rightarrow> Promise \<Rightarrow> 'v Try_t \<Rightarrow> 'v store \<Rightarrow> ('v store, unit) call" where
  "setValue chk env p t s =
     (case prom_shared p of
        None \<Rightarrow> (throw (Logic_error ''Promise is broken''), s)
      | Some a \<Rightarrow> at_state a (setResult chk env t) s)"

definition setException ::
  "bool \<Rightarrow> exec_env \<Rightarrow> Promise \<Rightarrow> exc \<Rightarrow> 'v store \<Rightarrow> ('v store, unit) call" where
  "setException chk env p e s = setValue chk env p (Exception e) s"

section \<open>Future\<close>

definition makeReadyFuture :: "'v Try_t \<Rightarrow> 'v Future" where
  "makeReadyFuture t = \<lparr>fut_shared = None, fut_local = ls_of_try t\<rparr>"

definition Future_delete :: "'v Future \<Rightarrow> 'v store \<Rightarrow> ('v store, unit) call" where
  "Future_delete f s = (case fut_shared f of None \<Rightarrow> (ok (), s) | Some a \<Rightarrow> at_state a detachOne s)"

definition Future_move :: "'v Future \<Rightarrow> 'v Future \<times> 'v Future" where
  "Future_move other =
     (let (l, l') = ls_move (fut_local other)
      in (\<lparr>fut_shared = fut_shared other, fut_local = l\<rparr>, \<lparr>fut_shared = None, fut_local = l'\<rparr>))"

definition Future_move_assign :: "'v Future \<Rightarrow> 'v Future \<Rightarrow> 'v Future \<times> 'v Future" where
  "Future_move_assign self other =
     (let (l, l') = ls_move_assign (fut_local self) (fut_local other)
      in (\<lparr>fut_shared = fut_shared other, fut_local = l\<rparr>, \<lparr>fut_shared = fut_shared self, fut_local = l'\<rparr>))"

definition Future_valid :: "'v Future \<Rightarrow> bool" where
  "Future_valid f = (fut_shared f \<noteq> None \<or> ls_hasResult (fut_local f))"

definition Future_hasResult :: "'v Future \<Rightarrow> 'v store \<Rightarrow> bool result" where
  "Future_hasResult f s =
     (if ls_hasResult (fut_local f) then ok True
      else case fut_shared f of
             None \<Rightarrow> Inl (Undefined ''null shared state'')
           | Some a \<Rightarrow> ok (hasResult (heap s a)))"

definition getTry :: "'v Future \<Rightarrow> 'v store \<Rightarrow> 'v Try_t result" where
  "getTry f s =
     (if \<not> Future_valid f then throw (Logic_error ''Future is broken'')
      else if \<not> (ls_hasResult (fut_local f)
                 \<or> (case fut_shared f of None \<Rightarrow> False | Some a \<Rightarrow> hasResult (heap s a)))
      then throw (Logic_error ''Future is not ready'')
      else case fut_shared f of
             Some a \<Rightarrow> ok (try_value (heap s a)) | None \<Rightarrow> ok (ls_try_value (fut_local f)))"

definition Future_value :: "'v Future \<Rightarrow> 'v store \<Rightarrow> 'v result" where
  "Future_value f s = (case getTry f s of Inl e \<Rightarrow> Inl e | Inr t \<Rightarrow> try_value_of t)"

definition fut_setExecutor :: "nat option \<Rightarrow> 'v Future \<Rightarrow> 'v store \<Rightarrow> 'v Future \<times> 'v store" where
  "fut_setExecutor ex f s =
     (case fut_shared f of
        Some a \<Rightarrow> (f, upd_state a (setExecutor ex) s)
      | None \<Rightarrow> (f\<lparr>fut_local := ls_setExecutor ex (fut_local f)\<rparr>, s))"

definition fut_getExecutor :: "'v Future \<Rightarrow> 'v store \<Rightarrow> nat option" where
  "fut_getExecutor f s =
     (case fut_shared f of Some a \<Rightarrow> executor (heap s a) | None \<Rightarrow> ls_executor (fut_local f))"

definition via :: "nat option \<Rightarrow> 'v Future \<Rightarrow> 'v store \<Rightarrow> 'v Future \<times> 'v store" where
  "via ex f s = (let (f', s') = fut_setExecutor ex f s in (fst (Future_move f'), s'))"

definition fut_currentThreadInExecutor :: "exec_env \<Rightarrow> 'v Future \<Rightarrow> 'v store \<Rightarrow> bool result" where
  "fut_currentThreadInExecutor env f s =
     (if \<not> Future_valid f then Inl (Assert_fail ''valid()'')
      else case fut_shared f of
             Some a \<Rightarrow> ok (fs_currentThreadInExecutor env (heap s a))
           | None \<Rightarrow> ok (ls_currentThreadInExecutor (\<lambda>_. in_executor env) (fut_local f)))"

text \<open>A ready future calls the continuation at once.\<close>

definition fut_setContinuation ::
  "exec_env \<Rightarrow> 'v Future \<Rightarrow> 'v kont \<Rightarrow> 'v store \<Rightarrow> ('v store, unit) call" where
  "fut_setContinuation env f k s =
     (if \<not> Future_valid f then (Inl (Assert_fail ''valid()''), s)
      else case fut_shared f of
             Some a \<Rightarrow> at_state a (setContinuation env k) s
           | None \<Rightarrow> (ok (), s\<lparr>agenda := (k, ls_try_value (fut_local f)) # agenda s\<rparr>))"

text \<open>
  \<open>thenImpl\<close> for a callable that returns a value.  \<open>isTry\<close> says whether it takes the \<open>Try\<close> itself.
  The wrapper of \<open>thenValue\<close> unwraps the value inside the callable, see \<open>on_value\<close>.
\<close>

definition on_value :: "('v \<Rightarrow> exc + 'b) \<Rightarrow> 'v Try_t \<Rightarrow> exc + 'b" where
  "on_value f t =
     (case try_value_of t of Inr v \<Rightarrow> f v | Inl (Throws e) \<Rightarrow> Inl e | Inl _ \<Rightarrow> Inl Bad_function_call)"

definition thenImpl ::
  "exec_env \<Rightarrow> 'v Future \<Rightarrow> ('v Try_t \<Rightarrow> exc + 'v) \<Rightarrow> bool \<Rightarrow> 'v store \<Rightarrow> ('v store, 'v Future) call" where
  "thenImpl env self func isTry s =
     (if \<not> Future_valid self then (throw (Logic_error ''Future is broken''), s)
      else case fut_shared self of
        None \<Rightarrow>
          (ok \<lparr>fut_shared = None,
               fut_local = ls_setExecutor (ls_executor (fut_local self))
                             (ls_of_try (makeTryCall func (ls_try_value (fut_local self))))\<rparr>, s)
      | Some a \<Rightarrow>
          let (p, s1) = Promise_new s
          in bind_st (getFuture p s1)
               (\<lambda>pf s2.
                  let (newFuture, s3) = fut_setExecutor (executor (heap s2 a)) (snd pf) s2
                  in bind_st (at_state a (setContinuation env (K_then (the (prom_shared p)) func isTry)) s3)
                       (\<lambda>_ s4. (ok newFuture, s4))))"

text \<open>\<open>thenImpl\<close> for a callable that returns a future.\<close>

definition thenImpl_future ::
  "exec_env \<Rightarrow> 'v Future \<Rightarrow> ('v Try_t \<Rightarrow> exc + 'v Future) \<Rightarrow> bool \<Rightarrow> 'v store \<Rightarrow> ('v store, 'v Future) call" where
  "thenImpl_future env self func isTry s =
     (if \<not> Future_valid self then (throw (Logic_error ''Future is broken''), s)
      else case fut_shared self of
        None \<Rightarrow>
          (case func (ls_try_value (fut_local self)) of
             Inl e \<Rightarrow> (ok (makeReadyFuture (Exception e)), s)
           | Inr newFuture \<Rightarrow>
               if fut_getExecutor newFuture s = None
               then (let (f', s') = fut_setExecutor (ls_executor (fut_local self)) newFuture s in (ok f', s'))
               else (ok newFuture, s))
      | Some a \<Rightarrow>
          let (p, s1) = Promise_new s
          in bind_st (getFuture p s1)
               (\<lambda>pf s2.
                  let (newFuture, s3) = fut_setExecutor (executor (heap s2 a)) (snd pf) s2
                  in bind_st (at_state a (setContinuation env (K_then_future (the (prom_shared p)) func isTry)) s3)
                       (\<lambda>_ s4. (ok newFuture, s4))))"

definition thenTry where
  "thenTry env self f = thenImpl env self f True"

text \<open>\<open>thenValue\<close> instantiates \<open>thenImpl\<close> with its own wrapper, which takes a \<open>Try\<close>.\<close>

definition thenValue ::
  "exec_env \<Rightarrow> 'v Future \<Rightarrow> ('v \<Rightarrow> exc + 'v) \<Rightarrow> 'v store \<Rightarrow> ('v store, 'v Future) call" where
  "thenValue env self f = thenImpl env self (on_value f) True"

text \<open>
  The part of \<open>wait\<close> before it blocks: the executor is taken away and a continuation is installed
  that fulfils a fresh promise, whose future replaces this one.
\<close>

definition wait_start :: "exec_env \<Rightarrow> 'v Future \<Rightarrow> 'v store \<Rightarrow> ('v store, 'v Future) call" where
  "wait_start env self s =
     (if \<not> Future_valid self then (throw (Logic_error ''Future is broken''), s)
      else if Future_hasResult self s = ok True then (ok self, s)
      else case fut_shared self of
        None \<Rightarrow> (Inl (Undefined ''null shared state''), s)
      | Some a \<Rightarrow>
          if fs_currentThreadInExecutor env (heap s a)
          then (Inl (Assert_fail ''!currentThreadInExecutor()''), s)
          else let (p, s1) = Promise_new s
               in bind_st (getFuture p s1)
                    (\<lambda>pf s2.
                       let s3 = upd_state a (setExecutor None) s2
                       in bind_st (at_state a (setContinuation env (K_forward (the (prom_shared p)))) s3)
                            (\<lambda>_ s4. (ok (snd pf), s4))))"

section \<open>The bodies of the continuations\<close>

definition note_failure :: "('v store, unit) call \<Rightarrow> 'v store" where
  "note_failure r = (case r of (Inl f, s) \<Rightarrow> s\<lparr>failures := failures s @ [f]\<rparr> | (Inr _, s) \<Rightarrow> s)"

abbreviation owned :: "nat \<Rightarrow> Promise" where
  "owned a \<equiv> \<lparr>prom_shared = Some a, hasFuture = True\<rparr>"

definition finish :: "bool \<Rightarrow> exec_env \<Rightarrow> nat \<Rightarrow> 'v Try_t \<Rightarrow> 'v store \<Rightarrow> ('v store, unit) call" where
  "finish chk env p t s =
     bind_st (setValue chk env (owned p) t s) (\<lambda>_. Promise_delete chk env (owned p))"

fun exec_kont :: "bool \<Rightarrow> exec_env \<Rightarrow> 'v kont \<Rightarrow> 'v Try_t \<Rightarrow> 'v store \<Rightarrow> ('v store, unit) call" where
  "exec_kont chk env (K_then p f isTry) t s =
     (if \<not> isTry \<and> hasError t then finish chk env p t s
      else finish chk env p (makeTryCall f t) s)"
| "exec_kont chk env (K_then_future p f isTry) t s =
     (if \<not> isTry \<and> hasError t then finish chk env p t s
      else case f t of
             Inl e \<Rightarrow> finish chk env p (Exception e) s
           | Inr f2 \<Rightarrow> bind_st (fut_setContinuation env f2 (K_forward p) s) (\<lambda>_. Future_delete f2))"
| "exec_kont chk env (K_forward p) t s = finish chk env p t s"
| "exec_kont chk env (K_user n) t s = (ok (), s\<lparr>user_log := user_log s @ [(n, t)]\<rparr>)"

definition job_step :: "bool \<Rightarrow> exec_env \<Rightarrow> 'v store \<Rightarrow> 'v store option" where
  "job_step chk env s =
     (case agenda s of
        [] \<Rightarrow> None
      | (k, t) # js \<Rightarrow> Some (note_failure (exec_kont chk env k t (s\<lparr>agenda := js\<rparr>))))"

text \<open>Running the agenda; \<open>n\<close> bounds the number of jobs, and the result says whether it was enough.\<close>

fun run_jobs :: "bool \<Rightarrow> exec_env \<Rightarrow> nat \<Rightarrow> 'v store \<Rightarrow> 'v store option" where
  "run_jobs chk env n s =
     (case job_step chk env s of
        None \<Rightarrow> Some s
      | Some s' \<Rightarrow> (case n of 0 \<Rightarrow> None | Suc m \<Rightarrow> run_jobs chk env m s'))"

section \<open>Chains of continuations\<close>

definition settle :: "bool \<Rightarrow> exec_env \<Rightarrow> nat \<Rightarrow> 'v store \<Rightarrow> ('v store, unit) call" where
  "settle chk env n s =
     (case run_jobs chk env n s of Some s' \<Rightarrow> (ok (), s') | None \<Rightarrow> (Inl (Undefined ''out of fuel''), s))"

text \<open>
  \<open>std::move(f).thenValue(f1).thenValue(f2)...\<close>: each call consumes the future before it; what a call
  runs in place is run before the next one.
\<close>

fun then_chain ::
  "bool \<Rightarrow> exec_env \<Rightarrow> 'v Future \<Rightarrow> ('v \<Rightarrow> exc + 'v) list \<Rightarrow> 'v store \<Rightarrow> ('v store, 'v Future) call" where
  "then_chain chk env fut [] s = (ok fut, s)"
| "then_chain chk env fut (f # fs) s =
     bind_st (thenValue env fut f s)
       (\<lambda>fut' s1. bind_st (settle chk env 1 s1)
          (\<lambda>_ s2. bind_st (Future_delete fut s2) (\<lambda>_. then_chain chk env fut' fs)))"

text \<open>The specification: the \<open>Try\<close> monad.\<close>

fun bindT :: "'v Try_t \<Rightarrow> ('v \<Rightarrow> exc + 'v) \<Rightarrow> 'v Try_t" where
  "bindT (Value v) f = (case f v of Inl e \<Rightarrow> Exception e | Inr w \<Rightarrow> Value w)"
| "bindT (Exception e) f = Exception e"
| "bindT Nothing f = Exception (Logic_error ''Try object is empty'')"

lemma makeTryCall_on_value: "makeTryCall (on_value f) t = bindT t f"
  by (cases t) (simp_all add: makeTryCall_def on_value_def try_value_cases)

text \<open>The four shapes of a shared state along a chain.\<close>

definition both_ends :: "('v, 'v kont) FutureState" where
  "both_ends = FutureState_new\<lparr>attached := 2, promiseRef := 1\<rparr>"

definition linked :: "'v kont \<Rightarrow> ('v, 'v kont) FutureState" where
  "linked k = FutureState_new\<lparr>attached := 1, promiseRef := 1, fs_state := ONLY_CONTINUATION,
     continuation := Some k\<rparr>"

definition fulfilled :: "'v Try_t \<Rightarrow> ('v, 'v kont) FutureState" where
  "fulfilled t = FutureState_new\<lparr>attached := 1, fs_state := ONLY_RESULT, try_value := t\<rparr>"

definition used_up :: "'v Try_t \<Rightarrow> 'v kont \<Rightarrow> ('v, 'v kont) FutureState" where
  "used_up t k = FutureState_new\<lparr>fs_state := DONE, try_value := t, ran := [(k, t)], deleted := True\<rparr>"

lemmas shape_defs = both_ends_def linked_def fulfilled_def used_up_def FutureState_new_def
lemmas fs_op_defs = setResult_def setContinuation_def scheduleContinuation_def detachPromise_def
  detachOne_def contref_attach_def contref_detach_def refContinuation_def derefContinuation_def
  attachOne_def attachPromise_def run_continuation_def setExecutor_def

lemma set_both_ends:
  "setResult chk env t both_ends = (ok (), both_ends\<lparr>fs_state := ONLY_RESULT, try_value := t\<rparr>)"
  "detachPromise chk env (both_ends\<lparr>fs_state := ONLY_RESULT, try_value := t\<rparr>) = (ok (), fulfilled t)"
  by (simp_all add: shape_defs fs_op_defs Let_def)

lemma set_linked:
  "setResult chk env t (linked k) =
     (ok (), (linked k)\<lparr>fs_state := DONE, try_value := t, continuation := None, ran := [(k, t)]\<rparr>)"
  "detachPromise chk env ((linked k)\<lparr>fs_state := DONE, try_value := t, continuation := None, ran := [(k, t)]\<rparr>) =
     (ok (), used_up t k)"
  by (simp_all add: shape_defs fs_op_defs Let_def)

lemma link_both_ends:
  "setContinuation env k both_ends = (ok (), both_ends\<lparr>fs_state := ONLY_CONTINUATION, continuation := Some k\<rparr>)"
  "detachOne (both_ends\<lparr>fs_state := ONLY_CONTINUATION, continuation := Some k\<rparr>) = (ok (), linked k)"
  by (simp_all add: shape_defs fs_op_defs Let_def)

lemma link_fulfilled:
  "setContinuation env k (fulfilled t) =
     (ok (), (fulfilled t)\<lparr>fs_state := DONE, ran := [(k, t)]\<rparr>)"
  "detachOne ((fulfilled t)\<lparr>fs_state := DONE, ran := [(k, t)]\<rparr>) = (ok (), used_up t k)"
  by (simp_all add: shape_defs fs_op_defs Let_def)

lemma shape_ran [simp]:
  "ran both_ends = []" "ran (linked k) = []" "ran (fulfilled t) = []" "executor both_ends = None"
  "executor (fulfilled t) = None" "ran (used_up t k) = [(k, t)]"
  by (simp_all add: shape_defs)

lemma finish_both_ends:
  assumes "heap s a = both_ends"
  shows "finish chk env a t s = (ok (), s\<lparr>heap := (heap s)(a := fulfilled t)\<rparr>)"
  using assms
  by (simp add: finish_def setValue_def Promise_delete_def at_state_def set_both_ends Let_def)

lemma finish_linked:
  assumes "heap s a = linked k"
  shows "finish chk env a t s =
    (ok (), s\<lparr>heap := (heap s)(a := used_up t k), agenda := (k, t) # agenda s\<rparr>)"
  using assms
  by (simp add: finish_def setValue_def Promise_delete_def at_state_def set_linked Let_def)

lemma new_both_ends:
  "Promise_new s = (\<lparr>prom_shared = Some (next_addr s), hasFuture = False\<rparr>,
     s\<lparr>next_addr := next_addr s + 1, heap := (heap s)(next_addr s := attachPromise FutureState_new)\<rparr>)"
  by (simp add: Promise_new_def upd_state_def Let_def)

lemma attach_both_ends: "attachOne (attachPromise FutureState_new) = both_ends"
  by (simp add: shape_defs fs_op_defs)

lemma setExecutor_both_ends [simp]: "setExecutor None both_ends = both_ends"
  by (simp add: shape_defs setExecutor_def)

lemma agenda_same:
  "agenda s = [] \<Longrightarrow> s\<lparr>next_addr := n, heap := h, agenda := []\<rparr> = s\<lparr>next_addr := n, heap := h\<rparr>"
  "agenda s = [] \<Longrightarrow> s\<lparr>heap := h, agenda := []\<rparr> = s\<lparr>heap := h\<rparr>"
  by (cases s, simp)+

text \<open>What \<open>thenValue\<close> does on a shared future, up to the call of \<open>setContinuation\<close>.\<close>

lemma thenValue_shared:
  assumes "fut_shared fut = Some a" and "a < next_addr s" and "executor (heap s a) = None"
  shows "thenValue env fut f s =
    bind_st (at_state a (setContinuation env (K_then (next_addr s) (on_value f) True))
        (s\<lparr>next_addr := next_addr s + 1, heap := (heap s)(next_addr s := both_ends)\<rparr>))
      (\<lambda>_ s'. (ok \<lparr>fut_shared = Some (next_addr s), fut_local = ls_empty\<rparr>, s'))"
  using assms
  by (simp add: thenValue_def thenImpl_def Future_valid_def new_both_ends getFuture_def Promise_valid_def
      Future_of_def upd_state_def fut_setExecutor_def attach_both_ends Let_def)

lemma run_empty [simp]: "agenda s = [] \<Longrightarrow> run_jobs chk env n s = Some s"
  by (simp add: job_step_def)

declare run_jobs.simps [simp del]

text \<open>A chain in the store: from address \<open>a\<close> through the functions \<open>fs\<close> to the last state \<open>e\<close>.\<close>

fun chain_at :: "(nat \<Rightarrow> ('v, 'v kont) FutureState) \<Rightarrow> nat \<Rightarrow> ('v \<Rightarrow> exc + 'v) list \<Rightarrow> nat \<Rightarrow> bool" where
  "chain_at h a [] e = (a = e \<and> h a = both_ends)"
| "chain_at h a (f # fs) e =
     (\<exists>b. a < b \<and> h a = linked (K_then b (on_value f) True) \<and> chain_at h b fs e)"

lemma chain_at_upd: "chain_at h a fs e \<Longrightarrow> x < a \<Longrightarrow> chain_at (h(x := st)) a fs e"
proof (induction fs arbitrary: a)
  case Nil
  then show ?case by auto
next
  case (Cons f fs)
  then obtain b where b: "a < b" "h a = linked (K_then b (on_value f) True)" "chain_at h b fs e" by auto
  have "x < b" using b(1) Cons.prems(2) by simp
  with b(3) have "chain_at (h(x := st)) b fs e" by (rule Cons.IH)
  moreover have "(h(x := st)) a = linked (K_then b (on_value f) True)" using b(2) Cons.prems(2) by simp
  ultimately show ?case using b(1) unfolding chain_at.simps by blast
qed

lemma build_step:
  assumes "fut_shared fut = Some a" and "a < next_addr s" and "heap s a = both_ends" and "agenda s = []"
  defines "n \<equiv> next_addr s"
  shows "then_chain chk env fut (f # fs) s =
    then_chain chk env \<lparr>fut_shared = Some n, fut_local = ls_empty\<rparr> fs
      (s\<lparr>next_addr := n + 1, heap := (heap s)(a := linked (K_then n (on_value f) True), n := both_ends)\<rparr>)"
proof -
  have na: "n \<noteq> a" using assms(2) n_def by simp
  have swap: "(heap s)(n := both_ends, a := x) = (heap s)(a := x, n := both_ends)" for x
    using na by (rule fun_upd_twist)
  show ?thesis
    using assms(1-4) na
    by (simp add: thenValue_shared n_def[symmetric] at_state_def link_both_ends settle_def
        Future_delete_def Let_def swap agenda_same)
qed

lemma build_chain:
  assumes "fut_shared fut = Some a" and "a < next_addr s" and "heap s a = both_ends" and "agenda s = []"
  shows "\<exists>e s'. then_chain chk env fut fs s = (ok (if fs = [] then fut else \<lparr>fut_shared = Some e, fut_local = ls_empty\<rparr>), s')
    \<and> chain_at (heap s') a fs e \<and> e < next_addr s' \<and> agenda s' = [] \<and> failures s' = failures s
    \<and> (\<forall>x < a. heap s' x = heap s x)"
  using assms
proof (induction fs arbitrary: fut a s)
  case Nil
  then show ?case by auto
next
  case (Cons f fs)
  let ?n = "next_addr s"
  let ?fut = "\<lparr>fut_shared = Some ?n, fut_local = ls_empty\<rparr> :: 'a Future"
  let ?s = "s\<lparr>next_addr := ?n + 1, heap := (heap s)(a := linked (K_then ?n (on_value f) True), ?n := both_ends)\<rparr>"
  obtain e s' where IH: "then_chain chk env ?fut fs ?s =
        (ok (if fs = [] then ?fut else \<lparr>fut_shared = Some e, fut_local = ls_empty\<rparr>), s')"
      "chain_at (heap s') ?n fs e" "e < next_addr s'" "agenda s' = []" "failures s' = failures ?s"
      "\<forall>x < ?n. heap s' x = heap ?s x"
    using Cons.IH[of ?fut ?n ?s] Cons.prems(4) by auto
  have "fs = [] \<Longrightarrow> e = ?n" using IH(2) by simp
  then have "then_chain chk env fut (f # fs) s = (ok \<lparr>fut_shared = Some e, fut_local = ls_empty\<rparr>, s')"
    using build_step[OF Cons.prems(1-4), of chk env f fs] IH(1) by auto
  moreover have "chain_at (heap s') a (f # fs) e"
    using IH(2,6) Cons.prems(2) by auto
  moreover have "\<forall>x < a. heap s' x = heap s x" using IH(6) Cons.prems(2) by auto
  ultimately show ?case using IH(3,4,5) by auto
qed

lemma deliver_chain:
  assumes "chain_at (heap s) a fs e" and "agenda s = []"
  shows "\<exists>s'. run_jobs chk env (length fs) (note_failure (finish chk env a t s)) = Some s'
    \<and> heap s' e = fulfilled (foldl bindT t fs) \<and> failures s' = failures s \<and> agenda s' = []"
  using assms
proof (induction fs arbitrary: a t s)
  case Nil
  then have "heap s e = both_ends" "a = e" by auto
  then show ?case using Nil by (simp add: finish_both_ends note_failure_def)
next
  case (Cons f fs)
  then obtain b where b: "a < b" "heap s a = linked (K_then b (on_value f) True)" "chain_at (heap s) b fs e"
    by auto
  let ?k = "K_then b (on_value f) True"
  let ?s = "s\<lparr>heap := (heap s)(a := used_up t ?k)\<rparr>"
  have hs: "heap ?s = (heap s)(a := used_up t ?k)" by simp
  have ch: "chain_at (heap ?s) b fs e" unfolding hs using b(3) b(1) by (rule chain_at_upd)
  have ag: "agenda ?s = []" using Cons.prems(2) by simp
  obtain s' where IH: "run_jobs chk env (length fs) (note_failure (finish chk env b (bindT t f) ?s)) = Some s'"
      "heap s' e = fulfilled (foldl bindT (bindT t f) fs)" "failures s' = failures ?s" "agenda s' = []"
    using Cons.IH[OF ch ag, of "bindT t f"] by blast
  have "run_jobs chk env (length (f # fs)) (note_failure (finish chk env a t s)) =
      run_jobs chk env (length fs) (note_failure (finish chk env b (bindT t f) ?s))"
    using b Cons.prems(2)
    by (subst run_jobs.simps)
      (simp add: finish_linked note_failure_def job_step_def makeTryCall_on_value agenda_same)
  then show ?case using IH by auto
qed

lemma early_step:
  assumes "fut_shared fut = Some a" and "a < next_addr s" and "heap s a = fulfilled t" and "agenda s = []"
  defines "n \<equiv> next_addr s"
  shows "\<exists>s'. then_chain chk env fut (f # fs) s =
      then_chain chk env \<lparr>fut_shared = Some n, fut_local = ls_empty\<rparr> fs s'
    \<and> heap s' n = fulfilled (bindT t f) \<and> next_addr s' = n + 1 \<and> agenda s' = [] \<and> failures s' = failures s"
proof -
  have na: "n \<noteq> a" using assms(2) n_def by simp
  let ?k = "K_then n (on_value f) True"
  let ?s1 = "s\<lparr>next_addr := n + 1, heap := (heap s)(n := both_ends, a := (fulfilled t)\<lparr>fs_state := DONE, ran := [(?k, t)]\<rparr>),
      agenda := [(?k, t)]\<rparr>"
  let ?s2 = "?s1\<lparr>heap := (heap ?s1)(n := fulfilled (bindT t f)), agenda := []\<rparr>"
  have "thenValue env fut f s = (ok \<lparr>fut_shared = Some n, fut_local = ls_empty\<rparr>, ?s1)"
    using assms(1-4) na by (simp add: thenValue_shared n_def[symmetric] at_state_def link_fulfilled Let_def)
  moreover have "run_jobs chk env 1 ?s1 = Some ?s2"
    using na by (subst run_jobs.simps)
      (simp add: job_step_def finish_both_ends note_failure_def makeTryCall_on_value)
  ultimately have "then_chain chk env fut (f # fs) s =
      then_chain chk env \<lparr>fut_shared = Some n, fut_local = ls_empty\<rparr> fs
        (s\<lparr>next_addr := n + 1, heap := (heap s)(n := fulfilled (bindT t f), a := used_up t ?k), agenda := []\<rparr>)"
    using na assms(1) by (simp add: settle_def Future_delete_def at_state_def link_fulfilled Let_def)
  moreover have "heap (s\<lparr>next_addr := n + 1, heap := (heap s)(n := fulfilled (bindT t f), a := used_up t ?k),
      agenda := []\<rparr>) n = fulfilled (bindT t f)" using na by simp
  ultimately show ?thesis by (intro exI conjI) (assumption | simp)+
qed

lemma early_chain:
  assumes "fut_shared fut = Some a" and "a < next_addr s" and "heap s a = fulfilled t" and "agenda s = []"
  shows "\<exists>e fut' s'. then_chain chk env fut fs s = (ok fut', s') \<and> fut_shared fut' = Some e
    \<and> heap s' e = fulfilled (foldl bindT t fs) \<and> failures s' = failures s"
  using assms
proof (induction fs arbitrary: fut a s t)
  case Nil
  then show ?case by auto
next
  case (Cons f fs)
  obtain s1 where s1: "then_chain chk env fut (f # fs) s =
        then_chain chk env \<lparr>fut_shared = Some (next_addr s), fut_local = ls_empty\<rparr> fs s1"
      "heap s1 (next_addr s) = fulfilled (bindT t f)" "next_addr s1 = next_addr s + 1" "agenda s1 = []"
      "failures s1 = failures s"
    using early_step[OF Cons.prems] by blast
  then show ?case
    using Cons.IH[of "\<lparr>fut_shared = Some (next_addr s), fut_local = ls_empty\<rparr>" "next_addr s" s1 "bindT t f"]
    by auto
qed


section \<open>Whole programs\<close>

text \<open>A fresh promise with its future.\<close>

definition promise_pair :: "'v store \<Rightarrow> ('v store, nat \<times> 'v Future) call" where
  "promise_pair s =
     (let (p, s0) = Promise_new s
      in bind_st (getFuture p s0) (\<lambda>pf s1. (ok (the (prom_shared (fst pf)), snd pf), s1)))"

text \<open>The chain is built first; then \<open>fulfil\<close> acts on the promise and the callbacks run.\<close>

definition late_run ::
  "bool \<Rightarrow> exec_env \<Rightarrow> ('v \<Rightarrow> exc + 'v) list \<Rightarrow> (nat \<Rightarrow> 'v store \<Rightarrow> ('v store, unit) call)
     \<Rightarrow> ('v store, 'v Try_t) call" where
  "late_run chk env fs fulfil =
     bind_st (promise_pair store_new)
       (\<lambda>pf s1. bind_st (then_chain chk env (snd pf) fs s1)
          (\<lambda>fut s2. bind_st (fulfil (fst pf) s2)
             (\<lambda>_ s3. bind_st (settle chk env (length fs) s3) (\<lambda>_ s4. (getTry fut s4, s4)))))"

text \<open>The promise is fulfilled first.\<close>

definition early_run ::
  "bool \<Rightarrow> exec_env \<Rightarrow> ('v \<Rightarrow> exc + 'v) list \<Rightarrow> (nat \<Rightarrow> 'v store \<Rightarrow> ('v store, unit) call)
     \<Rightarrow> ('v store, 'v Try_t) call" where
  "early_run chk env fs fulfil =
     bind_st (promise_pair store_new)
       (\<lambda>pf s1. bind_st (fulfil (fst pf) s1)
          (\<lambda>_ s2. bind_st (then_chain chk env (snd pf) fs s2) (\<lambda>fut s3. (getTry fut s3, s3))))"

definition ready_run ::
  "bool \<Rightarrow> exec_env \<Rightarrow> ('v \<Rightarrow> exc + 'v) list \<Rightarrow> 'v Try_t \<Rightarrow> ('v store, 'v Try_t) call" where
  "ready_run chk env fs t =
     bind_st (then_chain chk env (makeReadyFuture t) fs store_new) (\<lambda>fut s. (getTry fut s, s))"

lemma promise_pair_new:
  "promise_pair store_new =
     (ok (0, \<lparr>fut_shared = Some 0, fut_local = ls_empty\<rparr>),
      store_new\<lparr>next_addr := 1, heap := (heap store_new)(0 := both_ends)\<rparr>)"
  by (simp add: promise_pair_def new_both_ends getFuture_def Promise_valid_def Future_of_def
      upd_state_def attach_both_ends store_new_def)

text \<open>Dropping the last promise acts like setting the \<open>broken promise\<close> exception.\<close>

lemma detachPromise_shapes:
  "detachPromise chk env both_ends = (ok (), fulfilled (Exception broken_promise))"
  "detachPromise chk env (linked k) = (ok (), used_up (Exception broken_promise) k)"
  by (simp_all add: shape_defs fs_op_defs Let_def)

lemma delete_is_finish:
  assumes "heap s a = both_ends \<or> heap s a = linked k"
  shows "Promise_delete chk env (owned a) s = finish chk env a (Exception broken_promise) s"
  using assms
  by (auto simp: Promise_delete_def at_state_def Let_def detachPromise_shapes finish_both_ends
      finish_linked)

lemma chain_at_head: "chain_at h a fs e \<Longrightarrow> h a = both_ends \<or> (\<exists>k. h a = linked k)"
  by (cases fs) auto

lemma finish_ok:
  assumes "chain_at (heap s) a fs e"
  shows "\<exists>s'. finish chk env a t s = (ok (), s')"
  using chain_at_head[OF assms] by (auto simp: finish_both_ends finish_linked)

lemma getTry_fulfilled:
  "fut_shared fut = Some e \<Longrightarrow> heap s e = fulfilled t \<Longrightarrow> getTry fut s = ok t"
  by (simp add: getTry_def Future_valid_def shape_defs)

lemma late_run_finish:
  assumes "\<And>s a k. heap s a = both_ends \<or> heap s a = linked k \<Longrightarrow> fulfil a s = finish chk env a t s"
  shows "\<exists>s. late_run chk env fs fulfil = (ok (foldl bindT t fs), s) \<and> failures s = []"
proof -
  let ?s0 = "store_new\<lparr>next_addr := 1, heap := (heap store_new)(0 := both_ends)\<rparr> :: 'a store"
  let ?f0 = "\<lparr>fut_shared = Some 0, fut_local = ls_empty\<rparr> :: 'a Future"
  obtain e s1 where s1: "then_chain chk env ?f0 fs ?s0 =
        (ok (if fs = [] then ?f0 else \<lparr>fut_shared = Some e, fut_local = ls_empty\<rparr>), s1)"
      "chain_at (heap s1) 0 fs e" "agenda s1 = []" "failures s1 = []"
    using build_chain[of ?f0 0 ?s0 chk env fs] by (auto simp: store_new_def)
  have e0: "(if fs = [] then ?f0 else \<lparr>fut_shared = Some e, fut_local = ls_empty\<rparr>) =
      \<lparr>fut_shared = Some e, fut_local = ls_empty\<rparr>"
    using s1(2) by auto
  obtain s2 where s2: "finish chk env 0 t s1 = (ok (), s2)" using finish_ok[OF s1(2)] by blast
  obtain s3 where s3: "run_jobs chk env (length fs) s2 = Some s3"
      "heap s3 e = fulfilled (foldl bindT t fs)" "failures s3 = []"
    using deliver_chain[OF s1(2,3), of chk env t] s2 s1(4) by (auto simp: note_failure_def)
  have "fulfil 0 s1 = finish chk env 0 t s1" using assms chain_at_head[OF s1(2)] by blast
  then have "late_run chk env fs fulfil = (ok (foldl bindT t fs), s3)"
    using s1(1) s2 s3(1,2) by (simp add: late_run_def promise_pair_new e0 settle_def getTry_fulfilled)
  then show ?thesis using s3(3) by blast
qed

lemma early_run_finish:
  assumes "\<And>s a k. heap s a = both_ends \<or> heap s a = linked k \<Longrightarrow> fulfil a s = finish chk env a t s"
  shows "\<exists>s. early_run chk env fs fulfil = (ok (foldl bindT t fs), s) \<and> failures s = []"
proof -
  let ?s0 = "store_new\<lparr>next_addr := 1, heap := (heap store_new)(0 := both_ends)\<rparr> :: 'a store"
  let ?f0 = "\<lparr>fut_shared = Some 0, fut_local = ls_empty\<rparr> :: 'a Future"
  let ?s1 = "?s0\<lparr>heap := (heap ?s0)(0 := fulfilled t)\<rparr>"
  have f: "fulfil 0 ?s0 = (ok (), ?s1)" using assms[of ?s0 0] finish_both_ends[of ?s0 0] by simp
  obtain e fut s2 where s2: "then_chain chk env ?f0 fs ?s1 = (ok fut, s2)" "fut_shared fut = Some e"
      "heap s2 e = fulfilled (foldl bindT t fs)" "failures s2 = []"
    using early_chain[of ?f0 0 ?s1 t chk env fs] by (auto simp: store_new_def)
  have "early_run chk env fs fulfil = (ok (foldl bindT t fs), s2)"
    using f s2 by (simp add: early_run_def promise_pair_new getTry_fulfilled)
  then show ?thesis using s2(4) by blast
qed

lemma ready_run_chain:
  assumes "available t"
  shows "ready_run chk env fs t = (ok (foldl bindT t fs), store_new)"
proof -
  have "\<exists>fut'. then_chain chk env fut fs s = (ok fut', s) \<and> fut_shared fut' = None
      \<and> ls_hasResult (fut_local fut') \<and> ls_try_value (fut_local fut') = foldl bindT u fs"
    if "fut_shared fut = None" "ls_hasResult (fut_local fut)" "ls_try_value (fut_local fut) = u"
      "agenda s = []" for fut u and s :: "'a store"
    using that
  proof (induction fs arbitrary: fut u)
    case Nil
    then show ?case by simp
  next
    case (Cons f fs)
    let ?fut = "\<lparr>fut_shared = None, fut_local = ls_setExecutor (ls_executor (fut_local fut))
        (ls_of_try (bindT u f))\<rparr> :: 'a Future"
    have "available (bindT u f)" by (cases u) (auto split: sum.splits)
    then have "ls_hasResult (fut_local ?fut)" "ls_try_value (fut_local ?fut) = bindT u f"
      by (simp_all add: ls_hasResult_def ls_setExecutor_def ls_of_try_def)
    moreover have "then_chain chk env fut (f # fs) s = then_chain chk env ?fut fs s"
      using Cons.prems
      by (simp add: thenValue_def thenImpl_def Future_valid_def settle_def Future_delete_def
          makeTryCall_on_value)
    ultimately show ?case using Cons.IH[of ?fut "bindT u f"] Cons.prems(4) by simp
  qed
  from this[of "makeReadyFuture t" t "store_new"] assms show ?thesis
    by (auto simp: ready_run_def makeReadyFuture_def ls_hasResult_def ls_of_try_def
        store_new_def getTry_def Future_valid_def)
qed

text \<open>A program that forces scheduling on a future with an executor and then waits for it.\<close>

definition wait_forced :: "bool \<Rightarrow> exec_env \<Rightarrow> nat \<Rightarrow> 'v Try_t \<Rightarrow> ('v store, unit) call" where
  "wait_forced chk env ex t =
     bind_st (promise_pair store_new)
       (\<lambda>pf s1.
          let (fut, s2) = via (Some ex) (snd pf) s1
          in bind_st (wait_start env fut (Promise_forceSched (owned (fst pf)) s2))
               (\<lambda>_. setValue chk env (owned (fst pf)) t))"

text \<open>
  C4.  A chain of \<open>thenValue\<close> calls delivers the composition of its functions in the \<open>Try\<close> monad,
  whether the promise is fulfilled after the chain was built, before it, or the first future was
  ready from the start: an exception skips the rest of the chain.  The continuations of a chain of
  \<open>n\<close> calls need \<open>n\<close> jobs, and no promise operation fails.
\<close>

theorem future_chain:
  assumes "available t"
  shows "(\<exists>s. late_run chk env fs (\<lambda>a. finish chk env a t) = (ok (foldl bindT t fs), s) \<and> failures s = [])
    \<and> (\<exists>s. early_run chk env fs (\<lambda>a. finish chk env a t) = (ok (foldl bindT t fs), s) \<and> failures s = [])
    \<and> ready_run chk env fs t = (ok (foldl bindT t fs), store_new)"
  using late_run_finish[of "\<lambda>a. finish chk env a t" chk env t fs]
    early_run_finish[of "\<lambda>a. finish chk env a t" chk env t fs] ready_run_chain[OF assms]
  by simp

theorem future_chain_witness:
  fixes env :: exec_env
  defines "env \<equiv> \<lparr>in_executor = False, answer = (\<lambda>_. Refused)\<rparr>"
  shows "\<exists>s. late_run True env [\<lambda>v. Inr (v + 1), \<lambda>v. Inl (User_exc 7), \<lambda>v. Inr 0]
      (\<lambda>a. finish True env a (Value (3::nat))) = (ok (Exception (User_exc 7)), s) \<and> failures s = []"
  using future_chain[of "Value (3::nat)" True env "[\<lambda>v. Inr (v + 1), \<lambda>v. Inl (User_exc 7), \<lambda>v. Inr 0]"]
  by simp

text \<open>
  A promise that is destroyed without a value breaks its chain: the last future receives the
  exception \<open>Promise is broken\<close>, whether the chain was built before or after.
\<close>

theorem broken_promise_chain:
  "(\<exists>s. late_run chk env fs (\<lambda>a. Promise_delete chk env (owned a)) =
        (ok (Exception (Runtime_error ''Promise is broken'')), s) \<and> failures s = [])
   \<and> (\<exists>s. early_run chk env fs (\<lambda>a. Promise_delete chk env (owned a)) =
        (ok (Exception (Runtime_error ''Promise is broken'')), s) \<and> failures s = [])"
proof -
  have "foldl bindT (Exception e) fs = Exception e" for e by (induction fs) auto
  then show ?thesis
    using late_run_finish[of "\<lambda>a. Promise_delete chk env (owned a)" chk env "Exception broken_promise" fs]
      early_run_finish[of "\<lambda>a. Promise_delete chk env (owned a)" chk env "Exception broken_promise" fs]
    by (simp add: delete_is_finish broken_promise_def)
qed

text \<open>
  \<open>Future::wait\<close> takes the executor away but leaves the force-scheduling flag set, so the
  producer of a future that was forced onto an executor schedules through a null executor.
\<close>

theorem wait_after_forceSched:
  assumes "\<not> in_executor env"
  shows "fst (wait_forced chk env ex t) = Inl (Undefined ''null executor'')"
  using assms unfolding wait_forced_def promise_pair_new
  by (simp add: via_def fut_setExecutor_def Future_move_def ls_move_def
      ls_empty_def Promise_forceSched_def upd_state_def wait_start_def Future_valid_def
      Future_hasResult_def ls_hasResult_def setForceSched_def fs_currentThreadInExecutor_def
      new_both_ends getFuture_def Promise_valid_def Future_of_def at_state_def setValue_def
      shape_defs fs_op_defs store_new_def)

theorem wait_after_forceSched_witness:
  "fst (wait_forced True \<lparr>in_executor = False, answer = (\<lambda>_. Accepted)\<rparr> 5 (Value (1::nat))) =
     Inl (Undefined ''null executor'')"
  using wait_after_forceSched[of "\<lparr>in_executor = False, answer = (\<lambda>_. Accepted)\<rparr>" True 5 "Value (1::nat)"]
  by simp

end
