(* ===== verification/FutureWait_Model.thy ===== *)
theory FutureWait_Model
  imports Future_Model
begin

text \<open>
  \<open>Future::wait\<close> and \<open>Future::get\<close> (async_simple/Future.h): a thread blocks on a mutex and a condition variable
  until the continuation that \<open>wait\<close> installs has run.

  Two threads interleave: the waiter, inside \<open>wait\<close>, and the producer, which sets the value of the promise
  and destroys it.  The continuation runs in the producer, or in the waiter when the value arrives
  between \<open>hasResult\<close> and \<open>setContinuation\<close>.  The calls on the shared states are those of Future\_Model;
  each is one step.  The mutex, the condition variable and the flag are locals of \<open>wait\<close>: after it has
  returned (\<open>w_gone\<close>) a use of them is undefined.
\<close>

section \<open>The two threads\<close>

datatype thread = Waiter | Producer

datatype closure_pc = K_enter | K_set | K_store | K_notify | K_unlock | K_drop

datatype waiter_pc =
    W_begin | W_install | W_kont closure_pc | W_lock | W_test | W_sleep | W_assign | W_leave | W_ready | W_end

datatype producer_pc = P_begin | P_kont closure_pc | P_drop | P_end

record 'v wait_sys =
  w_store :: "'v store"
  w_self :: "'v Future"
  w_future :: "'v Future"
  w_pc :: waiter_pc
  p_pc :: producer_pc
  w_mtx :: "thread option"
  w_done :: bool
  w_gone :: bool
  w_job :: "('v kont \<times> 'v Try_t) option"
  w_failure :: "failure option"

text \<open>A call on the shared states; a failure is recorded.\<close>

definition on_store :: "('v store \<Rightarrow> ('v store, unit) call) \<Rightarrow> 'v wait_sys \<Rightarrow> 'v wait_sys" where
  "on_store f s =
     (case f (w_store s) of
        (Inl e, st) \<Rightarrow> s\<lparr>w_store := st, w_failure := Some e\<rparr> | (Inr _, st) \<Rightarrow> s\<lparr>w_store := st\<rparr>)"

definition on_locals :: "('v wait_sys \<Rightarrow> 'v wait_sys) \<Rightarrow> 'v wait_sys \<Rightarrow> 'v wait_sys" where
  "on_locals f s = (if w_gone s then s\<lparr>w_failure := Some (Undefined ''wait has returned'')\<rparr> else f s)"

text \<open>
  The continuation, run by thread \<open>th\<close> with the result \<open>t\<close>; \<open>q\<close> is the promise it owns.  \<open>None\<close>: it blocks.
  The second component is the point it goes on at.
\<close>

fun closure_step ::
  "bool \<Rightarrow> exec_env \<Rightarrow> 'v Try_t \<Rightarrow> nat \<Rightarrow> thread \<Rightarrow> closure_pc \<Rightarrow> 'v wait_sys \<Rightarrow> ('v wait_sys \<times> closure_pc option) option" where
  "closure_step chk env t q th K_enter s =
     (if w_mtx s = None then Some (on_locals (\<lambda>s. s\<lparr>w_mtx := Some th\<rparr>) s, Some K_set) else None)"
| "closure_step chk env t q th K_set s = Some (on_store (setValue chk env (owned q) t) s, Some K_store)"
| "closure_step chk env t q th K_store s = Some (on_locals (\<lambda>s. s\<lparr>w_done := True\<rparr>) s, Some K_notify)"
| "closure_step chk env t q th K_notify s =
     Some (on_locals (\<lambda>s. if w_pc s = W_sleep then s\<lparr>w_pc := W_lock\<rparr> else s) s, Some K_unlock)"
| "closure_step chk env t q th K_unlock s = Some (on_locals (\<lambda>s. s\<lparr>w_mtx := None\<rparr>) s, Some K_drop)"
| "closure_step chk env t q th K_drop s = Some (on_store (Promise_delete chk env (owned q)) s, None)"

text \<open>What a call on the shared states has handed to the calling thread.\<close>

definition take_job :: "'v wait_sys \<Rightarrow> 'v wait_sys" where
  "take_job s =
     (case agenda (w_store s) of
        [] \<Rightarrow> s | j # js \<Rightarrow> s\<lparr>w_store := (w_store s)\<lparr>agenda := js\<rparr>, w_job := Some j\<rparr>)"

definition run_closure :: "bool \<Rightarrow> exec_env \<Rightarrow> thread \<Rightarrow> closure_pc \<Rightarrow> 'v wait_sys \<Rightarrow> ('v wait_sys \<times> closure_pc option) option" where
  "run_closure chk env th k s =
     (case w_job s of
        Some (K_forward q, t) \<Rightarrow> closure_step chk env t q th k s
      | _ \<Rightarrow> Some (s\<lparr>w_failure := Some (Undefined ''not the continuation of wait'')\<rparr>, None))"

section \<open>wait\<close>

text \<open>Up to the call of \<open>setContinuation\<close>: the checks, and a new promise with its future.\<close>

definition wait_checks :: "exec_env \<Rightarrow> 'v wait_sys \<Rightarrow> 'v wait_sys" where
  "wait_checks env s =
     (if \<not> Future_valid (w_self s) then s\<lparr>w_failure := Some (Throws (Logic_error ''Future is broken''))\<rparr>
      else case Future_hasResult (w_self s) (w_store s) of
        Inl e \<Rightarrow> s\<lparr>w_failure := Some e\<rparr>
      | Inr True \<Rightarrow> s\<lparr>w_pc := W_ready\<rparr>
      | Inr False \<Rightarrow>
          if fut_currentThreadInExecutor env (w_self s) (w_store s) \<noteq> ok False
          then s\<lparr>w_failure := Some (Assert_fail ''!currentThreadInExecutor()'')\<rparr>
          else (case promise_pair (w_store s) of
                  (Inl e, st) \<Rightarrow> s\<lparr>w_failure := Some e\<rparr>
                | (Inr (q, f), st) \<Rightarrow> s\<lparr>w_store := st, w_future := f, w_pc := W_install\<rparr>))"

definition wait_install :: "exec_env \<Rightarrow> 'v wait_sys \<Rightarrow> 'v wait_sys" where
  "wait_install env s =
     (case (fut_shared (w_self s), fut_shared (w_future s)) of
        (Some a, Some q) \<Rightarrow>
          (let s1 = on_store (\<lambda>st. at_state a (setContinuation env (K_forward q)) (upd_state a (setExecutor None) st)) s;
               s2 = take_job s1
           in s2\<lparr>w_pc := (if w_job s2 = None then W_lock else W_kont K_enter)\<rparr>)
      | _ \<Rightarrow> s\<lparr>w_failure := Some (Undefined ''null shared state'')\<rparr>)"

text \<open>After the wait: the new future replaces this one, and the locals of \<open>wait\<close> are destroyed.\<close>

definition wait_assign :: "'v wait_sys \<Rightarrow> 'v wait_sys" where
  "wait_assign s =
     (let (f, g) = Future_move_assign (w_self s) (w_future s);
          s1 = s\<lparr>w_self := f, w_future := g, w_pc := W_leave\<rparr>
      in if Future_hasResult f (w_store s) = ok True then s1
         else s1\<lparr>w_failure := Some (Assert_fail ''_sharedState->hasResult()'')\<rparr>)"

definition wait_leave :: "'v wait_sys \<Rightarrow> 'v wait_sys" where
  "wait_leave s = (on_store (Future_delete (w_future s)) s)\<lparr>w_mtx := None, w_gone := True, w_pc := W_end\<rparr>"

fun waiter_step :: "bool \<Rightarrow> exec_env \<Rightarrow> 'v wait_sys \<Rightarrow> 'v wait_sys option" where
  "waiter_step chk env s =
     (case w_pc s of
        W_begin \<Rightarrow> Some (wait_checks env s)
      | W_install \<Rightarrow> Some (wait_install env s)
      | W_kont k \<Rightarrow>
          (case run_closure chk env Waiter k s of
             None \<Rightarrow> None
           | Some (s', k') \<Rightarrow> Some (s'\<lparr>w_pc := (case k' of None \<Rightarrow> W_lock | Some k'' \<Rightarrow> W_kont k'')\<rparr>))
      | W_lock \<Rightarrow> if w_mtx s = None then Some (s\<lparr>w_mtx := Some Waiter, w_pc := W_test\<rparr>) else None
      | W_test \<Rightarrow> if w_done s then Some (s\<lparr>w_pc := W_assign\<rparr>) else Some (s\<lparr>w_mtx := None, w_pc := W_sleep\<rparr>)
      | W_sleep \<Rightarrow> None
      | W_assign \<Rightarrow> Some (wait_assign s)
      | W_leave \<Rightarrow> Some (wait_leave s)
      | W_ready \<Rightarrow> None
      | W_end \<Rightarrow> None)"

text \<open>The producer owns the promise with the shared state \<open>a\<close>.\<close>

fun setter_step :: "bool \<Rightarrow> exec_env \<Rightarrow> 'v Try_t \<Rightarrow> nat \<Rightarrow> 'v wait_sys \<Rightarrow> 'v wait_sys option" where
  "setter_step chk env t a s =
     (case p_pc s of
        P_begin \<Rightarrow>
          (let s1 = on_store (setValue chk env (owned a) t) s; s2 = take_job s1
           in Some (s2\<lparr>p_pc := (if w_job s2 = None then P_drop else P_kont K_enter)\<rparr>))
      | P_kont k \<Rightarrow>
          (case run_closure chk env Producer k s of
             None \<Rightarrow> None
           | Some (s', k') \<Rightarrow> Some (s'\<lparr>p_pc := (case k' of None \<Rightarrow> P_drop | Some k'' \<Rightarrow> P_kont k'')\<rparr>))
      | P_drop \<Rightarrow> Some ((on_store (Promise_delete chk env (owned a)) s)\<lparr>p_pc := P_end\<rparr>)
      | P_end \<Rightarrow> None)"

inductive wait_move :: "bool \<Rightarrow> exec_env \<Rightarrow> 'v Try_t \<Rightarrow> 'v wait_sys \<Rightarrow> 'v wait_sys \<Rightarrow> bool" for chk env t where
  waiter: "waiter_step chk env s = Some u \<Longrightarrow> wait_move chk env t s u"
| producer: "setter_step chk env t 0 s = Some u \<Longrightarrow> wait_move chk env t s u"

text \<open>The condition variable may also wake the waiter for no reason.\<close>

inductive wait_trans :: "bool \<Rightarrow> exec_env \<Rightarrow> 'v Try_t \<Rightarrow> 'v wait_sys \<Rightarrow> 'v wait_sys \<Rightarrow> bool" for chk env t where
  move: "wait_move chk env t s u \<Longrightarrow> wait_trans chk env t s u"
| spurious: "w_pc s = W_sleep \<Longrightarrow> wait_trans chk env t s (s\<lparr>w_pc := W_lock\<rparr>)"

text \<open>The start: a promise and its future, which may have been given an executor; the waiter is
  not a thread of it.\<close>

definition wait_new :: "nat option \<Rightarrow> 'v Future \<times> 'v store \<Rightarrow> 'v wait_sys" where
  "wait_new ex fs =
     (let (f, st) = via ex (fst fs) (snd fs)
      in \<lparr>w_store = st, w_self = f, w_future = \<lparr>fut_shared = None, fut_local = ls_empty\<rparr>, w_pc = W_begin, p_pc = P_begin,
          w_mtx = None, w_done = False, w_gone = False, w_job = None, w_failure = None\<rparr>)"

definition wait_init :: "exec_env \<Rightarrow> 'v wait_sys \<Rightarrow> bool" where
  "wait_init env s \<longleftrightarrow>
     (\<exists>ex st pf. promise_pair store_new = (ok pf, st) \<and> s = wait_new ex (snd pf, st) \<and> (ex = None \<or> \<not> in_executor env))"

text \<open>\<open>get\<close>: once \<open>wait\<close> has returned.\<close>

definition Future_get :: "'v wait_sys \<Rightarrow> 'v result option" where
  "Future_get s = (if w_pc s = W_ready \<or> w_pc s = W_end then Some (Future_value (w_self s) (w_store s)) else None)"

section \<open>Invariant\<close>

text \<open>How far the continuation is: 0 before it starts, 7 when it has ended.\<close>

fun closure_stage :: "closure_pc \<Rightarrow> nat" where
  "closure_stage K_enter = 1"
| "closure_stage K_set = 2"
| "closure_stage K_store = 3"
| "closure_stage K_notify = 4"
| "closure_stage K_unlock = 5"
| "closure_stage K_drop = 6"

definition installed :: "'v wait_sys \<Rightarrow> bool" where
  "installed s \<longleftrightarrow> w_pc s \<notin> {W_begin, W_install, W_ready}"

definition stage :: "'v wait_sys \<Rightarrow> nat" where
  "stage s =
     (case w_pc s of
        W_kont k \<Rightarrow> closure_stage k
      | _ \<Rightarrow> (case p_pc s of
                P_kont k \<Rightarrow> closure_stage k | P_begin \<Rightarrow> 0 | _ \<Rightarrow> if installed s then 7 else 0))"

text \<open>
  A shared state: \<open>inst\<close>: its continuation is installed; \<open>st\<close>: its result is set; \<open>pd\<close>, \<open>fd\<close>: its promise
  and its future are destroyed.
\<close>

definition cell :: "nat option \<Rightarrow> 'v kont \<Rightarrow> 'v Try_t \<Rightarrow> bool \<Rightarrow> bool \<Rightarrow> bool \<Rightarrow> bool \<Rightarrow> ('v, 'v kont) FutureState" where
  "cell ex k t inst st pd fd =
     FutureState_new\<lparr>fs_state := (if inst then if st then DONE else ONLY_CONTINUATION else if st then ONLY_RESULT else START),
       attached := (if pd then 0 else 1) + (if fd then 0 else 1), try_value := (if st then t else Nothing),
       continuation := (if inst \<and> \<not> st then Some k else None), executor := (if inst then None else ex),
       promiseRef := (if pd then 0 else 1), deleted := (pd \<and> fd), ran := (if inst \<and> st then [(k, t)] else [])\<rparr>"

lemma cell_ops:
  "setResult chk env t (cell ex k t inst False False fd) = (ok (), cell ex k t inst True False fd)"
  "setContinuation env k (setExecutor None (cell ex k t False st pd False)) = (ok (), cell ex k t True st pd False)"
  "detachPromise chk env (cell ex k t inst True False fd) = (ok (), cell ex k t inst True True fd)"
  "detachOne (cell ex k t inst st pd False) = (ok (), cell ex k t inst st pd True)"
  "attachOne (attachPromise FutureState_new) = cell None k t False False False False"
  by (auto simp: cell_def FutureState_new_def fs_op_defs Let_def)

lemma cell_fields [simp]:
  "fs_state (cell ex k t inst st pd fd) =
     (if inst then if st then DONE else ONLY_CONTINUATION else if st then ONLY_RESULT else START)"
  "try_value (cell ex k t inst True pd fd) = t"
  "ran (cell ex k t inst st pd fd) = (if inst \<and> st then [(k, t)] else [])"
  "executor (cell ex k t False st pd fd) = ex"
  by (auto simp: cell_def FutureState_new_def)

abbreviation holding :: "'v wait_sys \<Rightarrow> bool" where
  "holding s \<equiv> w_pc s \<in> {W_test, W_assign, W_leave}"

definition pcs_ok :: "'v wait_sys \<Rightarrow> bool" where
  "pcs_ok s \<longleftrightarrow>
     (case p_pc s of P_begin \<Rightarrow> w_pc s \<noteq> W_ready \<and> (\<forall>k. w_pc s \<noteq> W_kont k) | P_kont _ \<Rightarrow> installed s \<and> (\<forall>k. w_pc s \<noteq> W_kont k) | _ \<Rightarrow> True)
     \<and> (holding s \<longrightarrow> stage s \<notin> {2..5})
     \<and> (w_pc s \<in> {W_assign, W_leave, W_end} \<longrightarrow> 6 \<le> stage s)
     \<and> (w_pc s = W_sleep \<longrightarrow> stage s \<le> 4)"

definition locals_ok :: "'v Try_t \<Rightarrow> 'v wait_sys \<Rightarrow> bool" where
  "locals_ok t s \<longleftrightarrow>
     w_done s = (4 \<le> stage s) \<and> w_gone s = (w_pc s = W_end)
     \<and> w_mtx s = (if stage s \<in> {2..5} then Some (case w_pc s of W_kont _ \<Rightarrow> Waiter | _ \<Rightarrow> Producer)
                  else if holding s then Some Waiter else None)
     \<and> (stage s = 0 \<longrightarrow> w_job s = None) \<and> (stage s \<in> {1..6} \<longrightarrow> w_job s = Some (K_forward 1, t))
     \<and> w_failure s = None"

definition futures_ok :: "'v wait_sys \<Rightarrow> bool" where
  "futures_ok s \<longleftrightarrow>
     w_self s = \<lparr>fut_shared = Some (if w_pc s \<in> {W_leave, W_end} then 1 else 0), fut_local = ls_empty\<rparr>
     \<and> w_future s = \<lparr>fut_shared = (if w_pc s \<in> {W_begin, W_ready} then None
           else Some (if w_pc s \<in> {W_leave, W_end} then 0 else 1)), fut_local = ls_empty\<rparr>"

definition cells_ok :: "nat option \<Rightarrow> 'v Try_t \<Rightarrow> 'v wait_sys \<Rightarrow> bool" where
  "cells_ok ex t s \<longleftrightarrow>
     agenda (w_store s) = []
     \<and> heap (w_store s) 0 = cell ex (K_forward 1) t (installed s) (p_pc s \<noteq> P_begin) (p_pc s = P_end) (w_pc s = W_end)
     \<and> (w_pc s \<in> {W_begin, W_ready} \<longrightarrow> next_addr (w_store s) = 1)
     \<and> (w_pc s \<notin> {W_begin, W_ready} \<longrightarrow> heap (w_store s) 1 = cell None (K_forward 1) t False (3 \<le> stage s) (stage s = 7) False)"

definition wait_ok :: "exec_env \<Rightarrow> nat option \<Rightarrow> 'v Try_t \<Rightarrow> 'v wait_sys \<Rightarrow> bool" where
  "wait_ok env ex t s \<longleftrightarrow> (ex = None \<or> \<not> in_executor env) \<and> pcs_ok s \<and> locals_ok t s \<and> futures_ok s \<and> cells_ok ex t s"

definition wait_inv :: "exec_env \<Rightarrow> 'v Try_t \<Rightarrow> 'v wait_sys \<Rightarrow> bool" where
  "wait_inv env t s \<longleftrightarrow> (\<exists>ex. wait_ok env ex t s)"

lemma wait_okD:
  assumes "wait_ok env ex t s"
  shows "ex = None \<or> \<not> in_executor env" "pcs_ok s" "locals_ok t s" "futures_ok s" "cells_ok ex t s"
  using assms by (simp_all add: wait_ok_def)

lemmas wait_inv_defs = pcs_ok_def locals_ok_def futures_ok_def cells_ok_def

lemma ls_empty_facts [simp]:
  "\<not> ls_hasResult ls_empty" "ls_move ls_empty = (ls_empty, ls_empty)" "ls_move_assign ls_empty ls_empty = (ls_empty, ls_empty)"
  by (simp_all add: ls_hasResult_def ls_empty_def ls_move_def ls_move_assign_def)

lemma wait_init_eq:
  assumes "wait_init env (s :: 'v wait_sys)"
  obtains ex st where "ex = None \<or> \<not> in_executor env"
    and "s = \<lparr>w_store = st, w_self = \<lparr>fut_shared = Some 0, fut_local = ls_empty\<rparr>, w_future = \<lparr>fut_shared = None, fut_local = ls_empty\<rparr>,
      w_pc = W_begin, p_pc = P_begin, w_mtx = None, w_done = False, w_gone = False, w_job = None, w_failure = None\<rparr>"
    and "heap st 0 = cell ex (K_forward 1) t False False False False" and "next_addr st = 1" and "agenda st = []"
proof -
  have "setExecutor ex both_ends = cell ex (K_forward 1) t False False False False" for ex :: "nat option"
    by (simp add: cell_def shape_defs setExecutor_def)
  then show ?thesis
    using assms that unfolding wait_init_def promise_pair_new wait_new_def
    by (fastforce simp: via_def fut_setExecutor_def Future_move_def upd_state_def store_new_def)
qed

lemma wait_init_inv:
  assumes "wait_init env s"
  shows "wait_inv env t s"
proof -
  obtain ex st where s: "ex = None \<or> \<not> in_executor env"
    "s = \<lparr>w_store = st, w_self = \<lparr>fut_shared = Some 0, fut_local = ls_empty\<rparr>, w_future = \<lparr>fut_shared = None, fut_local = ls_empty\<rparr>,
      w_pc = W_begin, p_pc = P_begin, w_mtx = None, w_done = False, w_gone = False, w_job = None, w_failure = None\<rparr>"
    "heap st 0 = cell ex (K_forward 1) t False False False False" "next_addr st = 1" "agenda st = []"
    using assms by (rule wait_init_eq[of env s t])
  have "pcs_ok s" "locals_ok t s" "futures_ok s" "cells_ok ex t s"
    using s(3-5) by (simp_all add: s(2) wait_inv_defs stage_def installed_def)
  then show ?thesis using s(1) by (auto simp: wait_inv_def wait_ok_def)
qed

lemma at_cell:
  assumes "f (heap st a) = (ok (), c)" and "agenda st = []"
  shows "at_state a f st = (ok (), st\<lparr>heap := (heap st)(a := c), agenda := drop (length (ran (heap st a))) (ran c)\<rparr>)"
  using assms by (simp add: at_state_def)

lemma store_calls:
  assumes "agenda st = []"
  shows "heap st a = cell ex k t inst False False fd \<Longrightarrow>
      setValue chk env (owned a) t st =
        (ok (), st\<lparr>heap := (heap st)(a := cell ex k t inst True False fd), agenda := if inst then [(k, t)] else []\<rparr>)"
    and "heap st a = cell ex k t inst True False fd \<Longrightarrow>
      Promise_delete chk env (owned a) st = (ok (), st\<lparr>heap := (heap st)(a := cell ex k t inst True True fd), agenda := []\<rparr>)"
    and "heap st a = cell ex k t inst st' pd False \<Longrightarrow>
      Future_delete \<lparr>fut_shared = Some a, fut_local = l\<rparr> st =
        (ok (), st\<lparr>heap := (heap st)(a := cell ex k t inst st' pd True), agenda := []\<rparr>)"
    and "heap st a = cell ex k t False st' pd False \<Longrightarrow>
      at_state a (setContinuation env k) (upd_state a (setExecutor None) st) =
        (ok (), st\<lparr>heap := (heap st)(a := cell ex k t True st' pd False), agenda := if st' then [(k, t)] else []\<rparr>)"
  using assms
  by (auto simp: setValue_def Promise_delete_def Future_delete_def upd_state_def at_cell cell_ops)
     (simp_all add: at_state_def cell_ops setExecutor_def)

text \<open>What the continuation does in each of its steps.\<close>

fun closure_effect :: "'v Try_t \<Rightarrow> thread \<Rightarrow> closure_pc \<Rightarrow> 'v wait_sys \<Rightarrow> 'v wait_sys" where
  "closure_effect t th K_enter s = s\<lparr>w_mtx := Some th\<rparr>"
| "closure_effect t th K_set s =
     s\<lparr>w_store := (w_store s)\<lparr>heap := (heap (w_store s))(1 := cell None (K_forward 1) t False True False False), agenda := []\<rparr>\<rparr>"
| "closure_effect t th K_store s = s\<lparr>w_done := True\<rparr>"
| "closure_effect t th K_notify s = (if w_pc s = W_sleep then s\<lparr>w_pc := W_lock\<rparr> else s)"
| "closure_effect t th K_unlock s = s\<lparr>w_mtx := None\<rparr>"
| "closure_effect t th K_drop s =
     s\<lparr>w_store := (w_store s)\<lparr>heap := (heap (w_store s))(1 := cell None (K_forward 1) t False True True False), agenda := []\<rparr>\<rparr>"

fun closure_next :: "closure_pc \<Rightarrow> closure_pc option" where
  "closure_next K_enter = Some K_set"
| "closure_next K_set = Some K_store"
| "closure_next K_store = Some K_notify"
| "closure_next K_notify = Some K_unlock"
| "closure_next K_unlock = Some K_drop"
| "closure_next K_drop = None"

lemma closure_run:
  assumes "locals_ok t s" and "cells_ok ex t s" and "stage s = closure_stage k"
    and "run_closure chk env th k s = Some (s', k')" and "w_pc s \<notin> {W_begin, W_ready, W_end} \<or> w_pc s = W_end \<and> k = K_drop"
  shows "s' = closure_effect t th k s" and "k' = closure_next k" and "k = K_enter \<Longrightarrow> w_mtx s = None"
proof -
  have r: "run_closure chk env th k s = closure_step chk env t 1 th k s"
    using assms(1,3) by (cases k) (simp_all add: run_closure_def locals_ok_def)
  have h: "heap (w_store s) 1 = cell None (K_forward 1) t False (3 \<le> stage s) (stage s = 7) False" "agenda (w_store s) = []"
      "w_gone s = (w_pc s = W_end)"
    using assms(1,2,5) by (auto simp: cells_ok_def locals_ok_def)
  have c: "k = K_set \<Longrightarrow> heap (w_store s) 1 = cell None (K_forward 1) t False False False False"
      "k = K_drop \<Longrightarrow> heap (w_store s) 1 = cell None (K_forward 1) t False True False False"
    using h(1) assms(3) by auto
  have "s' = closure_effect t th k s \<and> k' = closure_next k \<and> (k = K_enter \<longrightarrow> w_mtx s = None)"
    using assms(4,5) h(3) store_calls(1)[OF h(2) c(1), of chk env] store_calls(2)[OF h(2) c(2), of chk env] unfolding r
    by (cases k) (auto simp: on_locals_def on_store_def split: if_splits)
  then show "s' = closure_effect t th k s" "k' = closure_next k" "k = K_enter \<Longrightarrow> w_mtx s = None" by auto
qed

lemma waiter_lock:
  assumes ok: "wait_ok env ex t s" and W_lock: "w_pc s = W_lock" and step: "waiter_step chk env s = Some u"
  shows "wait_ok env ex t u"
proof -
  note i = wait_okD[OF ok]
  from W_lock have u: "u = s\<lparr>w_mtx := Some Waiter, w_pc := W_test\<rparr>" and m: "w_mtx s = None" using step by (auto split: if_splits)
  show ?thesis using i W_lock m unfolding u
    by (cases "p_pc s") (simp_all add: wait_ok_def wait_inv_defs stage_def installed_def split: if_splits)
qed

lemma waiter_test:
  assumes ok: "wait_ok env ex t s" and W_test: "w_pc s = W_test" and step: "waiter_step chk env s = Some u"
  shows "wait_ok env ex t u"
proof -
  note i = wait_okD[OF ok]
  show ?thesis
  proof (cases "w_done s")
    case True
    then have u: "u = s\<lparr>w_pc := W_assign\<rparr>" using step W_test by simp
    show ?thesis using i W_test True unfolding u
      by (cases "p_pc s") (simp_all add: wait_ok_def wait_inv_defs stage_def installed_def)
  next
    case False
    then have u: "u = s\<lparr>w_mtx := None, w_pc := W_sleep\<rparr>" using step W_test by simp
    show ?thesis using i W_test False unfolding u
      by (cases "p_pc s") (simp_all add: wait_ok_def wait_inv_defs stage_def installed_def)
  qed
qed

lemma waiter_assign:
  assumes ok: "wait_ok env ex t s" and W_assign: "w_pc s = W_assign" and step: "waiter_step chk env s = Some u"
  shows "wait_ok env ex t u"
proof -
  note i = wait_okD[OF ok]
  from W_assign have f: "w_self s = \<lparr>fut_shared = Some 0, fut_local = ls_empty\<rparr>" "w_future s = \<lparr>fut_shared = Some 1, fut_local = ls_empty\<rparr>"
      "6 \<le> stage s" "heap (w_store s) 1 = cell None (K_forward 1) t False (3 \<le> stage s) (stage s = 7) False"
    using i(2,4,5) by (simp_all add: pcs_ok_def futures_ok_def cells_ok_def)
  have "hasResult (heap (w_store s) 1)" using f(3) unfolding f(4) by simp
  then have u: "u = s\<lparr>w_self := w_future s, w_future := w_self s, w_pc := W_leave\<rparr>"
    using step W_assign unfolding f(1,2) by (simp add: wait_assign_def Future_move_assign_def Future_hasResult_def f(1,2))
  show ?thesis using i W_assign unfolding u
    by (cases "p_pc s") (simp_all add: wait_ok_def wait_inv_defs stage_def installed_def)
qed

lemma waiter_leave:
  assumes ok: "wait_ok env ex t s" and W_leave: "w_pc s = W_leave" and step: "waiter_step chk env s = Some u"
  shows "wait_ok env ex t u"
proof -
  note i = wait_okD[OF ok]
  from W_leave have f: "w_future s = \<lparr>fut_shared = Some 0, fut_local = ls_empty\<rparr>"
      "heap (w_store s) 0 = cell ex (K_forward 1) t True (p_pc s \<noteq> P_begin) (p_pc s = P_end) False" "agenda (w_store s) = []"
    using i(4,5) by (simp_all add: futures_ok_def cells_ok_def installed_def)
  have u: "u = s\<lparr>w_store := (w_store s)\<lparr>heap := (heap (w_store s))(0 := cell ex (K_forward 1) t True (p_pc s \<noteq> P_begin) (p_pc s = P_end) True),
      agenda := []\<rparr>, w_mtx := None, w_gone := True, w_pc := W_end\<rparr>"
    using step W_leave store_calls(3)[OF f(3,2), of ls_empty] by (simp add: wait_leave_def on_store_def f(1))
  show ?thesis using i W_leave unfolding u
    by (cases "p_pc s") (simp_all add: wait_ok_def wait_inv_defs stage_def installed_def)
qed

lemma waiter_kont:
  assumes ok: "wait_ok env ex t s" and W_kont: "w_pc s = W_kont k" and step: "waiter_step chk env s = Some u"
  shows "wait_ok env ex t u"
proof -
  note i = wait_okD[OF ok]
  from W_kont have p: "p_pc s = P_drop \<or> p_pc s = P_end" using i(2) by (auto simp: pcs_ok_def split: producer_pc.splits)
  obtain s' k' where r: "run_closure chk env Waiter k s = Some (s', k')"
      "u = s'\<lparr>w_pc := (case k' of None \<Rightarrow> W_lock | Some k'' \<Rightarrow> W_kont k'')\<rparr>"
    using step W_kont by (auto split: option.splits)
  have st: "stage s = closure_stage k" using W_kont by (simp add: stage_def)
  have e: "s' = closure_effect t Waiter k s" "k' = closure_next k" "k = K_enter \<Longrightarrow> w_mtx s = None"
    using closure_run[OF i(3,5) st r(1)] W_kont by auto
  show ?thesis using i W_kont p e(3) unfolding r(2) e(1,2)
    by (cases k) (auto simp: wait_ok_def wait_inv_defs stage_def installed_def)
qed

lemma waiter_begin:
  assumes ok: "wait_ok env ex t s" and W_begin: "w_pc s = W_begin" and step: "waiter_step chk env s = Some u"
  shows "wait_ok env ex t u"
proof -
  note i = wait_okD[OF ok]
  have p: "promise_pair (w_store s) = (ok (1, \<lparr>fut_shared = Some 1, fut_local = ls_empty\<rparr>),
      (w_store s)\<lparr>next_addr := 2, heap := (heap (w_store s))(1 := cell None (K_forward 1) t False False False False)\<rparr>)"
    using i(5) W_begin cell_ops(5)[of "K_forward 1" t]
    by (simp add: cells_ok_def promise_pair_def new_both_ends getFuture_def Promise_valid_def Future_of_def upd_state_def)
  have h: "heap (w_store s) 0 = cell ex (K_forward 1) t False (p_pc s \<noteq> P_begin) (p_pc s = P_end) False"
      "w_self s = \<lparr>fut_shared = Some 0, fut_local = ls_empty\<rparr>"
    using i(4,5) W_begin by (simp_all add: cells_ok_def futures_ok_def installed_def)
  have x: "\<not> fs_currentThreadInExecutor env (heap (w_store s) 0)"
    using i(1) by (auto simp: fs_currentThreadInExecutor_def h(1) split: option.splits)
  have u: "u = (if p_pc s = P_begin
      then s\<lparr>w_store := (w_store s)\<lparr>next_addr := 2, heap := (heap (w_store s))(1 := cell None (K_forward 1) t False False False False)\<rparr>,
             w_future := \<lparr>fut_shared = Some 1, fut_local = ls_empty\<rparr>, w_pc := W_install\<rparr>
      else s\<lparr>w_pc := W_ready\<rparr>)"
    using step W_begin x
    by (cases "p_pc s = P_begin") (simp_all add: wait_checks_def h Future_valid_def Future_hasResult_def fut_currentThreadInExecutor_def p)
  show ?thesis using i W_begin unfolding u
    by (cases "p_pc s") (simp_all add: wait_ok_def wait_inv_defs stage_def installed_def)
qed

lemma waiter_install:
  assumes ok: "wait_ok env ex t s" and W_install: "w_pc s = W_install" and step: "waiter_step chk env s = Some u"
  shows "wait_ok env ex t u"
proof -
  note i = wait_okD[OF ok]
  have h: "heap (w_store s) 0 = cell ex (K_forward 1) t False (p_pc s \<noteq> P_begin) (p_pc s = P_end) False"
      "w_self s = \<lparr>fut_shared = Some 0, fut_local = ls_empty\<rparr>" "w_future s = \<lparr>fut_shared = Some 1, fut_local = ls_empty\<rparr>"
      "agenda (w_store s) = []" "w_job s = None"
    using i W_install by (auto simp: wait_inv_defs installed_def stage_def split: producer_pc.splits)
  let ?st = "(w_store s)\<lparr>heap := (heap (w_store s))(0 := cell ex (K_forward 1) t True (p_pc s \<noteq> P_begin) (p_pc s = P_end) False), agenda := []\<rparr>"
  have u: "u = (if p_pc s = P_begin then s\<lparr>w_store := ?st, w_pc := W_lock\<rparr>
      else s\<lparr>w_store := ?st, w_job := Some (K_forward 1, t), w_pc := W_kont K_enter\<rparr>)"
    using step W_install store_calls(4)[OF h(4,1), of env] h(5)
    by (cases "p_pc s = P_begin") (simp_all add: wait_install_def h(2,3) on_store_def take_job_def Let_def)
  show ?thesis using i W_install unfolding u
    by (cases "p_pc s") (simp_all add: wait_ok_def wait_inv_defs stage_def installed_def)
qed

lemma waiter_inv:
  assumes "wait_inv env t s" and "waiter_step chk env s = Some u"
  shows "wait_inv env t u"
proof -
  obtain ex where "wait_ok env ex t s" using assms(1) by (auto simp: wait_inv_def)
  note step = this _ assms(2)
  have "wait_ok env ex t u"
    using waiter_begin[OF step] waiter_install[OF step] waiter_kont[OF step] waiter_lock[OF step] waiter_test[OF step]
      waiter_assign[OF step] waiter_leave[OF step] assms(2)
    by (cases "w_pc s") simp_all
  then show ?thesis by (auto simp: wait_inv_def)
qed

lemma setter_inv:
  assumes "wait_inv env t s" and "setter_step chk env t 0 s = Some u"
  shows "wait_inv env t u"
proof -
  obtain ex where "wait_ok env ex t s" using assms(1) by (auto simp: wait_inv_def)
  note i = wait_okD[OF this]
  have h: "heap (w_store s) 0 = cell ex (K_forward 1) t (installed s) (p_pc s \<noteq> P_begin) (p_pc s = P_end) (w_pc s = W_end)"
      "agenda (w_store s) = []"
    using i(5) by (simp_all add: cells_ok_def)
  have "wait_ok env ex t u"
  proof (cases "p_pc s")
    case P_begin
    then have j: "w_job s = None" "w_pc s \<noteq> W_end" using i(2,3)
      by (cases "w_pc s"; simp add: locals_ok_def pcs_ok_def stage_def)+
    let ?st = "(w_store s)\<lparr>heap := (heap (w_store s))(0 := cell ex (K_forward 1) t (installed s) True False False), agenda := []\<rparr>"
    have c: "heap (w_store s) 0 = cell ex (K_forward 1) t (installed s) False False False" using h(1) P_begin j(2) by simp
    have u: "u = (if installed s then s\<lparr>w_store := ?st, w_job := Some (K_forward 1, t), p_pc := P_kont K_enter\<rparr>
        else s\<lparr>w_store := ?st, p_pc := P_drop\<rparr>)"
      using assms(2) P_begin j(1) store_calls(1)[OF h(2) c, of chk env]
      by (cases "installed s") (simp_all add: on_store_def take_job_def Let_def)
    show ?thesis using i P_begin unfolding u
      by (cases "w_pc s") (simp_all add: wait_ok_def wait_inv_defs stage_def installed_def)
  next
    case (P_kont k)
    then have p: "installed s" "\<And>k. w_pc s \<noteq> W_kont k" using i(2) by (auto simp: pcs_ok_def)
    obtain s' k' where r: "run_closure chk env Producer k s = Some (s', k')"
        "u = s'\<lparr>p_pc := (case k' of None \<Rightarrow> P_drop | Some k'' \<Rightarrow> P_kont k'')\<rparr>"
      using assms(2) P_kont by (auto split: option.splits)
    have st: "stage s = closure_stage k" using P_kont p(2) by (auto simp: stage_def split: waiter_pc.split)
    have w: "w_pc s \<notin> {W_begin, W_ready, W_end} \<or> w_pc s = W_end \<and> k = K_drop"
      using p(1) i(2) st by (cases k) (auto simp: installed_def pcs_ok_def)
    have e: "s' = closure_effect t Producer k s" "k' = closure_next k" "k = K_enter \<Longrightarrow> w_mtx s = None"
      using closure_run[OF i(3,5) st r(1) w] by auto
    show ?thesis using i P_kont p e(3) unfolding r(2) e(1,2)
      by (cases k; cases "w_pc s") (simp_all add: wait_ok_def wait_inv_defs stage_def installed_def)
  next
    case P_drop
    have u: "u = s\<lparr>w_store := (w_store s)\<lparr>heap := (heap (w_store s))(0 := cell ex (K_forward 1) t (installed s) True True (w_pc s = W_end)), agenda := []\<rparr>,
        p_pc := P_end\<rparr>"
      using assms(2) P_drop store_calls(2)[OF h(2), of 0] h(1) by (simp add: on_store_def)
    show ?thesis using i P_drop unfolding u
      by (cases "w_pc s") (simp_all add: wait_ok_def wait_inv_defs stage_def installed_def)
  qed (use assms(2) in simp)
  then show ?thesis by (auto simp: wait_inv_def)
qed

lemma wait_trans_inv: "wait_inv env t s \<Longrightarrow> wait_trans chk env t s u \<Longrightarrow> wait_inv env t u"
proof (erule wait_trans.cases)
  fix s' u'
  assume i: "wait_inv env t s" and "s = s'" "u = u'" "wait_move chk env t s' u'"
  then show ?thesis by (auto elim!: wait_move.cases intro: waiter_inv[OF i] setter_inv[OF i])
next
  fix s'
  assume i: "wait_inv env t s" and e: "s = s'" "u = s'\<lparr>w_pc := W_lock\<rparr>" "w_pc s' = W_sleep"
  obtain ex where "wait_ok env ex t s" using i by (auto simp: wait_inv_def)
  note x = wait_okD[OF this]
  have "wait_ok env ex t u"
    using x e(3) unfolding e(2) e(1) by (cases "p_pc s'") (simp_all add: wait_ok_def wait_inv_defs stage_def installed_def)
  then show ?thesis by (auto simp: wait_inv_def)
qed

interpretation fwt: inv_system "wait_init env" "wait_trans chk env t" "wait_inv env t" for env chk t
  by unfold_locales (rule wait_init_inv, assumption, rule wait_trans_inv)

section \<open>Progress\<close>

fun waiter_rank :: "waiter_pc \<Rightarrow> nat" where
  "waiter_rank W_begin = 20"
| "waiter_rank W_install = 19"
| "waiter_rank (W_kont k) = 18 - closure_stage k"
| "waiter_rank W_lock = 5"
| "waiter_rank W_test = 4"
| "waiter_rank W_sleep = 3"
| "waiter_rank W_assign = 3"
| "waiter_rank W_leave = 2"
| "waiter_rank _ = 0"

text \<open>A notification may send the waiter back to the mutex.\<close>

fun producer_rank :: "producer_pc \<Rightarrow> nat" where
  "producer_rank P_begin = 15"
| "producer_rank (P_kont k) = (if closure_stage k \<le> 4 then 13 else 10) - closure_stage k"
| "producer_rank P_drop = 1"
| "producer_rank P_end = 0"

definition wait_rank :: "'v wait_sys \<Rightarrow> nat" where
  "wait_rank s = waiter_rank (w_pc s) + producer_rank (p_pc s)"

lemma on_store_pcs [simp]: "p_pc (on_store f s) = p_pc s" "w_pc (on_store f s) = w_pc s"
  by (simp_all add: on_store_def split: prod.split sum.split)

lemma take_job_pcs: "p_pc (take_job s) = p_pc s" "w_pc (take_job s) = w_pc s"
  by (simp_all add: take_job_def split: list.split)

lemma closure_step_pcs:
  assumes "closure_step chk env t q th k s = Some (s', k')"
  shows "p_pc s' = p_pc s \<and> (w_pc s' = w_pc s \<or> k = K_notify \<and> w_pc s = W_sleep \<and> w_pc s' = W_lock) \<and> k' = closure_next k"
  using assms by (cases k) (auto simp: on_locals_def split: if_splits)

lemma closure_pcs:
  assumes "run_closure chk env th k s = Some (s', k')"
  shows "p_pc s' = p_pc s" and "w_pc s' = w_pc s \<or> k = K_notify \<and> w_pc s = W_sleep \<and> w_pc s' = W_lock"
    and "k' = None \<or> k' = closure_next k"
  using assms by (auto simp: run_closure_def dest: closure_step_pcs split: option.splits kont.splits)

lemma waiter_rank_step:
  assumes "waiter_step chk env s = Some u" and "w_failure u = None"
  shows "wait_rank u < wait_rank s"
proof (cases "w_pc s")
  case W_begin
  then show ?thesis using assms
    by (auto simp: wait_rank_def wait_checks_def split: if_splits sum.splits bool.splits prod.splits)
next
  case W_install
  then show ?thesis using assms
    by (auto simp: wait_rank_def wait_install_def Let_def take_job_pcs split: if_splits option.splits)
next
  case (W_kont k)
  then obtain s' k' where r: "run_closure chk env Waiter k s = Some (s', k')"
      "u = s'\<lparr>w_pc := (case k' of None \<Rightarrow> W_lock | Some k'' \<Rightarrow> W_kont k'')\<rparr>"
    using assms(1) by (auto split: option.splits)
  show ?thesis using W_kont closure_pcs(1,3)[OF r(1)] unfolding r(2) wait_rank_def by (cases k) auto
next
  case W_assign
  then show ?thesis using assms by (auto simp: wait_rank_def wait_assign_def Let_def split: prod.splits if_splits)
next
  case W_leave
  then show ?thesis using assms by (auto simp: wait_rank_def wait_leave_def)
qed (use assms in \<open>auto simp: wait_rank_def split: if_splits\<close>)

lemma setter_rank_step:
  assumes "setter_step chk env t a s = Some u"
  shows "wait_rank u < wait_rank s"
proof (cases "p_pc s")
  case P_begin
  then show ?thesis using assms
    by (auto simp: wait_rank_def Let_def take_job_pcs split: if_splits)
next
  case (P_kont k)
  then obtain s' k' where r: "run_closure chk env Producer k s = Some (s', k')"
      "u = s'\<lparr>p_pc := (case k' of None \<Rightarrow> P_drop | Some k'' \<Rightarrow> P_kont k'')\<rparr>"
    using assms(1) by (auto split: option.splits)
  show ?thesis using P_kont closure_pcs[OF r(1)] unfolding r(2) wait_rank_def by (cases k) auto
next
  case P_drop
  then show ?thesis using assms by (auto simp: wait_rank_def)
qed (use assms in simp)

lemma wait_move_inv: "wait_inv env t s \<Longrightarrow> wait_move chk env t s u \<Longrightarrow> wait_inv env t u"
  by (rule wait_trans_inv[of env t s chk u]) (auto intro: wait_trans.move)

lemma wait_move_rank:
  assumes "wait_inv env t s" and "wait_move chk env t s u"
  shows "wait_rank u < wait_rank s"
proof -
  have "w_failure u = None" using wait_move_inv[OF assms] by (auto simp: wait_inv_def wait_ok_def locals_ok_def)
  then show ?thesis using assms(2) by (auto elim!: wait_move.cases intro: waiter_rank_step setter_rank_step)
qed

interpretation fwm: bounded_system "wait_init env" "wait_move chk env t" "wait_inv env t" wait_rank for env chk t
  by unfold_locales (auto intro: wait_init_inv wait_move_inv wait_move_rank)

text \<open>The threads never block each other for ever: somebody moves until both are through.\<close>

lemma wait_not_stuck:
  assumes "wait_inv env t s" and "\<not> (\<exists>u. wait_move chk env t s u)"
  shows "p_pc s = P_end" and "w_pc s = W_ready \<or> w_pc s = W_end"
proof -
  have i: "pcs_ok s" "locals_ok t s" using assms(1) by (auto simp: wait_inv_def wait_ok_def)
  have w: "waiter_step chk env s = None" and p: "setter_step chk env t 0 s = None"
    using assms(2) by (metis option.exhaust wait_move.waiter, metis option.exhaust wait_move.producer)
  have m: "w_mtx s \<noteq> None" if "run_closure chk env th k s = None" for th k
    using that by (cases k) (auto simp: run_closure_def split: option.splits kont.splits if_splits)
  show "p_pc s = P_end"
  proof (cases "p_pc s")
    case (P_kont k)
    then have "w_mtx s \<noteq> None" "k = K_enter" using p m by (auto simp: run_closure_def split: option.splits kont.splits if_splits elim!: closure_step.elims)
    moreover from this have "stage s = 1" using i(1) P_kont by (auto simp: stage_def pcs_ok_def split: waiter_pc.splits)
    ultimately have "holding s" using i(2) by (simp add: locals_ok_def split: if_splits)
    then show ?thesis using w by (auto split: if_splits)
  qed (use p in \<open>auto simp: Let_def\<close>)
  then have st: "stage s = 7 \<or> stage s = 0 \<or> (\<exists>k. w_pc s = W_kont k)" by (auto simp: stage_def split: waiter_pc.splits)
  show "w_pc s = W_ready \<or> w_pc s = W_end"
  proof (cases "w_pc s")
    case (W_kont k)
    then have "w_mtx s \<noteq> None" "k = K_enter" using w m by (auto simp: run_closure_def split: option.splits kont.splits if_splits elim!: closure_step.elims)
    then show ?thesis using i(2) W_kont by (simp add: locals_ok_def stage_def)
  next
    case W_lock
    then show ?thesis using w st i(2) by (auto simp: locals_ok_def split: if_splits)
  next
    case W_sleep
    then show ?thesis using i(1) \<open>p_pc s = P_end\<close> by (simp add: pcs_ok_def stage_def installed_def)
  qed (use w in \<open>auto split: if_splits\<close>)
qed

lemma wait_rank_bound: "wait_rank s \<le> 35"
proof -
  have "waiter_rank w \<le> 20" for w by (cases w) auto
  moreover have "producer_rank p \<le> 15" for p by (cases p) auto
  ultimately show ?thesis using add_mono[of "waiter_rank (w_pc s)" 20 "producer_rank (p_pc s)" 15] by (simp add: wait_rank_def)
qed

lemma returned_value:
  assumes "wait_inv env t s" and "w_pc s = W_ready \<or> w_pc s = W_end"
  shows "Future_get s = Some (try_value_of t)"
proof -
  obtain ex where i: "pcs_ok s" "futures_ok s" "cells_ok ex t s" using assms(1) by (auto simp: wait_inv_def wait_ok_def)
  show ?thesis using i assms(2)
    by (cases "p_pc s")
       (auto simp: wait_inv_defs stage_def installed_def Future_get_def Future_value_def getTry_def Future_valid_def)
qed

section \<open>Properties\<close>

text \<open>
  C20.  \<open>Future::wait\<close> returns and loses no wake-up.  Whenever the value is set, before \<open>wait\<close> looks for it, between
  that look and the installation of the continuation, or after, and whatever spurious wake-ups occur: no
  call fails, the locals of \<open>wait\<close> are not used after it has returned, and where \<open>wait\<close> has returned \<open>get\<close>
  yields the value (or throws the exception) that was set.  Between spurious wake-ups the two
  threads make at most 35 steps, they can always go on until both are through, and they stop nowhere else.
\<close>

theorem wait_returns:
  assumes "reach (wait_init env) (wait_trans chk env t) s"
  shows "w_failure s = None
    \<and> (w_pc s = W_ready \<or> w_pc s = W_end \<longrightarrow> Future_get s = Some (try_value_of t))
    \<and> (\<forall>n u. steps (wait_move chk env t) n s u \<longrightarrow> n \<le> 35)
    \<and> (\<exists>n u. steps (wait_move chk env t) n s u \<and> p_pc u = P_end \<and> Future_get u = Some (try_value_of t))
    \<and> ((\<forall>u. \<not> wait_move chk env t s u) \<longrightarrow> p_pc s = P_end \<and> Future_get s = Some (try_value_of t))"
proof -
  have inv: "wait_inv env t s" using assms by (rule fwt.reach_inv)
  have fin: "p_pc u = P_end \<and> Future_get u = Some (try_value_of t)" if "wait_inv env t u" "\<forall>v. \<not> wait_move chk env t u v" for u
    using wait_not_stuck[OF that(1), of chk] that(2) returned_value[OF that(1)] by blast
  obtain n u where u: "steps (wait_move chk env t) n s u" "\<forall>v. \<not> wait_move chk env t u v" using fwm.run_to_end[OF inv] by blast
  have "wait_inv env t u" using inv u(1) by (rule fwm.steps_inv)
  then have "\<exists>n u. steps (wait_move chk env t) n s u \<and> p_pc u = P_end \<and> Future_get u = Some (try_value_of t)"
    using u fin by blast
  moreover have "n \<le> 35" if "steps (wait_move chk env t) n s u" for n u
    using fwm.steps_bound[OF inv that] wait_rank_bound[of s] by simp
  moreover have "w_failure s = None" using inv by (auto simp: wait_inv_def wait_ok_def locals_ok_def)
  ultimately show ?thesis using returned_value[OF inv] fin[OF inv] by blast
qed

text \<open>A future without an executor; the value 7 is set.\<close>

definition demo_wait :: "nat wait_sys" where
  "demo_wait = wait_new None (\<lparr>fut_shared = Some 0, fut_local = ls_empty\<rparr>, store_new\<lparr>next_addr := 1, heap := (heap store_new)(0 := both_ends)\<rparr>)"

theorem wait_returns_witness:
  "\<exists>n u. steps (wait_move True \<lparr>in_executor = False, answer = (\<lambda>_. Refused)\<rparr> (Value 7)) n demo_wait u
     \<and> p_pc u = P_end \<and> Future_get u = Some (ok (7::nat))"
proof -
  let ?env = "\<lparr>in_executor = False, answer = (\<lambda>_. Refused)\<rparr> :: exec_env"
  have "wait_init ?env demo_wait" unfolding wait_init_def promise_pair_new demo_wait_def by auto
  then have "reach (wait_init ?env) (wait_trans True ?env (Value 7)) demo_wait" by (rule reach_init)
  from wait_returns[OF this] show ?thesis by (simp add: try_value_cases)
qed

end
