(* ===== verification/Lazy_Model.thy ===== *)
theory Lazy_Model
  imports FutureState_Model
begin

text \<open>
  Lazy coroutines (async_simple/coro/Lazy.h, DetachedCoroutine.h, LazyLocalBase.h, Dispatch.h,
  ViaCoroutine.h, ResumeBySchedule.h, SyncAwait.h, Sleep.h).

  A coroutine body is a value of \<open>prog\<close>: one constructor per kind of \<open>co_await\<close>, with the rest of the
  body as a function of what the \<open>co_await\<close> expression returns or throws (a body that does not catch
  passes the exception to \<open>Co_throw\<close>).  The machine has a heap of coroutine frames linked by their
  continuation handles; \<open>machine_step\<close> resumes the active frame up to its next suspension point.
  Executors are numbers; \<open>None\<close> is the null executor.  What an executor and a slot answer is a
  parameter (\<open>lazy_env\<close>).
\<close>

section \<open>Lazy locals\<close>

record LazyLocalBase =
  ll_typeinfo :: "nat option"
  ll_slot :: "nat option"

type_synonym local_store = "nat \<Rightarrow> LazyLocalBase"

definition LazyLocalBase_tagged :: "nat option \<Rightarrow> LazyLocalBase result" where
  "LazyLocalBase_tagged tag =
     (if tag = None then Inl (Assert_fail ''typeinfo != nullptr'')
      else ok \<lparr>ll_typeinfo = tag, ll_slot = None\<rparr>)"

definition LazyLocalBase_signal :: "nat \<Rightarrow> LazyLocalBase" where
  "LazyLocalBase_signal slot = \<lparr>ll_typeinfo = None, ll_slot = Some slot\<rparr>"

definition forbidSignal :: "LazyLocalBase \<Rightarrow> LazyLocalBase" where
  "forbidSignal l = l\<lparr>ll_slot := None\<rparr>"

definition getSlot :: "local_store \<Rightarrow> nat option \<Rightarrow> nat option" where
  "getSlot L loc = (case loc of None \<Rightarrow> None | Some l \<Rightarrow> ll_slot (L l))"

text \<open>\<open>classof\<close> of the target class; \<open>None\<close> is \<open>LazyLocalBase\<close> itself.\<close>

definition dynamicCast :: "(LazyLocalBase \<Rightarrow> bool) option \<Rightarrow> local_store \<Rightarrow> nat \<Rightarrow> nat option" where
  "dynamicCast classof L base =
     (case classof of None \<Rightarrow> Some base | Some is_a \<Rightarrow> if is_a (L base) then Some base else None)"

definition moveSlotFromContinuation ::
  "nat \<Rightarrow> nat option \<Rightarrow> local_store \<Rightarrow> exc option \<times> local_store" where
  "moveSlotFromContinuation now pre L =
     (case pre of
        None \<Rightarrow> (None, L)
      | Some p \<Rightarrow>
          if ll_typeinfo (L p) = None \<and> ll_slot (L p) \<noteq> None \<and> ll_slot (L now) = None
          then (None, L(now := (L now)\<lparr>ll_slot := ll_slot (L p)\<rparr>, p := (L p)\<lparr>ll_slot := None\<rparr>))
          else (Some (Logic_error ''we dont allowed set lazy local twice''), L))"

section \<open>Coroutine bodies\<close>

datatype 'v prog =
    Co_return 'v
  | Co_throw exc
  | Co_await "nat option" "'v prog" "exc + 'v \<Rightarrow> 'v prog"
  | Co_awaitTry "nat option" "'v prog" "'v Try_t \<Rightarrow> 'v prog"
  | Current_executor "nat option \<Rightarrow> 'v prog"
  | Current_locals "nat option \<Rightarrow> 'v prog"
  | Current_slot "nat option \<Rightarrow> 'v prog"
  | Forbid_signal "'v prog"
  | Co_yield "exc option \<Rightarrow> 'v prog"
  | Co_dispatch "nat option" "exc option \<Rightarrow> 'v prog"
  | Co_external bool "exc + 'v" "exc + 'v \<Rightarrow> 'v prog"
  | Plain "local_store \<Rightarrow> exc option \<times> local_store" "exc option \<Rightarrow> 'v prog"

text \<open>
  \<open>Co_await l p k\<close> awaits a fresh \<open>Lazy\<close> with body \<open>p\<close> whose lazy local was set to \<open>l\<close>.
  \<open>Co_external ready t k\<close> awaits a future or another awaitable that ends with \<open>t\<close>; \<open>ready\<close> is the
  answer of its \<open>await_ready\<close>.  \<open>Plain\<close> is ordinary code between two suspension points.
\<close>

definition rethrow :: "exc + 'v \<Rightarrow> 'v prog" where
  "rethrow r = (case r of Inl e \<Rightarrow> Co_throw e | Inr v \<Rightarrow> Co_return v)"

definition setLazyLocalImpl :: "nat \<Rightarrow> 'v prog \<Rightarrow> 'v prog" where
  "setLazyLocalImpl local self =
     Current_locals (\<lambda>pre. Plain (moveSlotFromContinuation local pre)
       (\<lambda>e. case e of Some e' \<Rightarrow> Co_throw e' | None \<Rightarrow> Co_await (Some local) self rethrow))"

text \<open>\<open>sleep\<close>: the timer of the executor is an external awaitable; its outcome is \<open>t\<close>.\<close>

definition sleep_on :: "'v \<Rightarrow> (nat option \<Rightarrow> exc + 'v) \<Rightarrow> 'v prog" where
  "sleep_on u t = Current_slot (\<lambda>slot. Co_external False (t slot) rethrow)"

definition sleep :: "'v \<Rightarrow> (nat option \<Rightarrow> exc + 'v) \<Rightarrow> 'v prog" where
  "sleep u t =
     Current_executor (\<lambda>ex. case ex of None \<Rightarrow> Co_return u | Some _ \<Rightarrow> Co_await None (sleep_on u t) rethrow)"

section \<open>Frames\<close>

datatype 'v code =
    Run "'v prog"
  | Wait_value nat "exc + 'v \<Rightarrow> 'v prog"
  | Wait_try nat "'v Try_t \<Rightarrow> 'v prog"
  | Wait_yield "exc option \<Rightarrow> 'v prog"
  | Wait_dispatch "exc option \<Rightarrow> 'v prog"
  | Wait_external "exc + 'v" "exc + 'v \<Rightarrow> 'v prog"
  | At_final

record 'v LazyPromise =
  lp_continuation :: "nat option"
  lp_executor :: "nat option"
  lp_local :: "nat option"
  lp_value :: "'v Try_t"
  lp_code :: "'v code"

datatype 'v frame =
    Lazy_frame "'v LazyPromise"
  | Detached_frame nat

record ViaCoroutine =
  via_continuation :: nat
  via_ex :: "nat option"
  via_ctx :: "64 word"

datatype sched_reason = By_yield | By_reschedule | By_dispatch

record lazy_env =
  accepts :: "sched_reason \<Rightarrow> nat \<Rightarrow> bool"
  hasCanceled :: "nat \<Rightarrow> bool"
  checkout_ctx :: "nat \<Rightarrow> 64 word"
  in_ex :: "nat \<Rightarrow> bool"

record 'v machine =
  frames :: "nat \<Rightarrow> 'v frame option"
  next_frame :: nat
  locals :: local_store
  attempts :: nat
  ready_queue :: "(nat \<times> nat) list"
  waiting :: "ViaCoroutine list"
  active :: "nat option"
  delivered :: "'v Try_t list"
  broken :: "failure option"

definition machine_new :: "local_store \<Rightarrow> 'v machine" where
  "machine_new L =
     \<lparr>frames = (\<lambda>_. None), next_frame = 0, locals = L, attempts = 0, ready_queue = [], waiting = [],
      active = None, delivered = [], broken = None\<rparr>"

abbreviation set_frame :: "nat \<Rightarrow> 'v LazyPromise \<Rightarrow> 'v machine \<Rightarrow> 'v machine" where
  "set_frame h f m \<equiv> m\<lparr>frames := (frames m)(h := Some (Lazy_frame f))\<rparr>"

definition destroy :: "nat \<Rightarrow> 'v machine \<Rightarrow> 'v machine" where
  "destroy h m = m\<lparr>frames := (frames m)(h := None)\<rparr>"

definition crash :: "failure \<Rightarrow> 'v machine \<Rightarrow> 'v machine" where
  "crash e m = m\<lparr>broken := Some e, active := None\<rparr>"

text \<open>Calling a coroutine function: the frame is allocated and suspends at its initial suspend point.\<close>

definition LazyPromise_new :: "'v prog \<Rightarrow> 'v LazyPromise" where
  "LazyPromise_new p =
     \<lparr>lp_continuation = None, lp_executor = None, lp_local = None, lp_value = Nothing, lp_code = Run p\<rparr>"

definition return_value :: "'v \<Rightarrow> 'v LazyPromise \<Rightarrow> 'v LazyPromise" where
  "return_value v f = f\<lparr>lp_value := Value v\<rparr>"

definition unhandled_exception :: "exc \<Rightarrow> 'v LazyPromise \<Rightarrow> 'v LazyPromise" where
  "unhandled_exception e f = f\<lparr>lp_value := Exception e\<rparr>"

definition promise_result :: "'v LazyPromise \<Rightarrow> (exc + 'v) result" where
  "promise_result f =
     (case lp_value f of
        Exception e \<Rightarrow> ok (Inl e)
      | Value v \<Rightarrow> ok (Inr v)
      | Nothing \<Rightarrow> Inl (Assert_fail ''std::holds_alternative<T>(_value)''))"

definition tryResult :: "'v LazyPromise \<Rightarrow> 'v Try_t result" where
  "tryResult f =
     (case lp_value f of
        Exception e \<Rightarrow> ok (Exception e)
      | Value v \<Rightarrow> ok (Value v)
      | Nothing \<Rightarrow> Inl (Assert_fail ''std::holds_alternative<T>(_value)''))"

section \<open>Awaiters\<close>

text \<open>The final awaiter transfers control to the continuation.\<close>

definition FinalAwaiter_suspend :: "nat \<Rightarrow> 'v LazyPromise \<Rightarrow> 'v machine \<Rightarrow> 'v machine" where
  "FinalAwaiter_suspend h f m = (set_frame h (f\<lparr>lp_code := At_final\<rparr>) m)\<lparr>active := lp_continuation f\<rparr>"

text \<open>
  \<open>awaitResume\<close> and \<open>awaitResumeTry\<close>: the result is taken out of the awaited frame and the frame is
  destroyed (by the destructor of the awaiter when the result is an exception).
\<close>

definition awaitResume :: "nat \<Rightarrow> 'v machine \<Rightarrow> (exc + 'v) result \<times> 'v machine" where
  "awaitResume c m =
     (case frames m c of
        Some (Lazy_frame f) \<Rightarrow> (promise_result f, destroy c m)
      | _ \<Rightarrow> (Inl (Undefined ''awaited frame is gone''), m))"

definition awaitResumeTry :: "nat \<Rightarrow> 'v machine \<Rightarrow> 'v Try_t result \<times> 'v machine" where
  "awaitResumeTry c m =
     (case frames m c of
        Some (Lazy_frame f) \<Rightarrow> (tryResult f, destroy c m)
      | _ \<Rightarrow> (Inl (Undefined ''awaited frame is gone''), m))"

text \<open>\<open>coAwait\<close>: the awaited coroutine inherits the executor; its frame is new.\<close>

definition coAwait :: "nat option \<Rightarrow> nat option \<Rightarrow> 'v prog \<Rightarrow> 'v LazyPromise" where
  "coAwait ex loc p = (LazyPromise_new p)\<lparr>lp_local := loc, lp_executor := ex\<rparr>"

text \<open>
  \<open>await_suspend\<close> of the awaiter of a \<open>Lazy\<close>: the caller becomes the continuation, the lazy local is
  inherited unless the awaited coroutine has its own, and control is transferred to it.
\<close>

definition AwaiterBase_suspend :: "nat \<Rightarrow> 'v LazyPromise \<Rightarrow> 'v LazyPromise \<Rightarrow> 'v LazyPromise" where
  "AwaiterBase_suspend h caller child =
     child\<lparr>lp_continuation := Some h,
           lp_local := (if lp_local child = None then lp_local caller else lp_local child)\<rparr>"

definition await_lazy ::
  "nat \<Rightarrow> 'v LazyPromise \<Rightarrow> nat option \<Rightarrow> 'v prog \<Rightarrow> (nat \<Rightarrow> 'v code) \<Rightarrow> 'v machine \<Rightarrow> 'v machine" where
  "await_lazy h f loc p wait_code m =
     (let c = next_frame m
      in (set_frame c (AwaiterBase_suspend h f (coAwait (lp_executor f) loc p))
            (set_frame h (f\<lparr>lp_code := wait_code c\<rparr>) m))\<lparr>next_frame := c + 1, active := Some c\<rparr>)"

text \<open>\<open>YieldAwaiter\<close>.\<close>

definition YieldAwaiter_ready :: "lazy_env \<Rightarrow> nat option \<Rightarrow> bool" where
  "YieldAwaiter_ready env slot = (case slot of None \<Rightarrow> False | Some s \<Rightarrow> hasCanceled env s)"

definition YieldAwaiter_resume :: "lazy_env \<Rightarrow> nat option \<Rightarrow> exc option" where
  "YieldAwaiter_resume env slot =
     (if YieldAwaiter_ready env slot
      then Some (Signal_exception 1 ''async_simple::Yield/SpinLock is canceled!'') else None)"

definition YieldAwaiter_suspend ::
  "lazy_env \<Rightarrow> nat \<Rightarrow> 'v LazyPromise \<Rightarrow> (exc option \<Rightarrow> 'v prog) \<Rightarrow> 'v machine \<Rightarrow> 'v machine" where
  "YieldAwaiter_suspend env h f k m =
     (case lp_executor f of
        None \<Rightarrow>
          set_frame h
            (f\<lparr>lp_code := Run (k (Some (Logic_error ''Yielding is only meaningful with an executor!'')))\<rparr>) m
      | Some ex \<Rightarrow>
          (set_frame h (f\<lparr>lp_code := Wait_yield k\<rparr>) m)
            \<lparr>attempts := attempts m + 1, active := None,
             ready_queue := ready_queue m @ (if accepts env By_yield (attempts m) then [(ex, h)] else [])\<rparr>)"

text \<open>The walk over the chain of continuations; a frame without continuation is left alone.\<close>

definition GetContinuationFromHandle :: "(nat \<Rightarrow> 'v frame option) \<Rightarrow> nat \<Rightarrow> nat option" where
  "GetContinuationFromHandle F h =
     (case F h of Some (Lazy_frame f) \<Rightarrow> lp_continuation f | _ \<Rightarrow> None)"

definition recolour :: "nat option \<Rightarrow> 'v frame \<Rightarrow> 'v frame" where
  "recolour ex fr = (case fr of Lazy_frame f \<Rightarrow> Lazy_frame (f\<lparr>lp_executor := ex\<rparr>) | Detached_frame c \<Rightarrow> fr)"

partial_function (option) ChangeLaziessExecutorTo ::
  "(nat \<Rightarrow> 'v frame option) \<Rightarrow> nat \<Rightarrow> nat option \<Rightarrow> (nat \<Rightarrow> 'v frame option) option" where
  "ChangeLaziessExecutorTo F h ex =
     (case GetContinuationFromHandle F h of
        None \<Rightarrow> Some F
      | Some h' \<Rightarrow> ChangeLaziessExecutorTo (F(h := map_option (recolour ex) (F h))) h' ex)"

definition dispatch_failed :: exc where
  "dispatch_failed = Runtime_error ''dispatch to executor failed''"

text \<open>
  \<open>DispatchAwaiter::await_suspend\<close>.  A refused schedule changes the executors back and throws into the
  coroutine.
\<close>

definition DispatchAwaiter_suspend ::
  "lazy_env \<Rightarrow> nat \<Rightarrow> nat \<Rightarrow> 'v LazyPromise \<Rightarrow> (exc option \<Rightarrow> 'v prog) \<Rightarrow> 'v machine \<Rightarrow> 'v machine" where
  "DispatchAwaiter_suspend env ex h f k m =
     (if lp_executor f = Some ex then set_frame h (f\<lparr>lp_code := Run (k None)\<rparr>) m
      else let m1 = set_frame h (f\<lparr>lp_code := Wait_dispatch k\<rparr>) m
           in case ChangeLaziessExecutorTo (frames m1) h (Some ex) of
                None \<Rightarrow> crash (Undefined ''endless chain of continuations'') m1
              | Some F1 \<Rightarrow>
                  if accepts env By_dispatch (attempts m)
                  then m1\<lparr>frames := F1, attempts := attempts m + 1, active := None,
                          ready_queue := ready_queue m @ [(ex, h)]\<rparr>
                  else (case ChangeLaziessExecutorTo F1 h (lp_executor f) of
                          None \<Rightarrow> crash (Undefined ''endless chain of continuations'') m1
                        | Some F2 \<Rightarrow>
                            set_frame h (f\<lparr>lp_code := Run (k (Some dispatch_failed))\<rparr>)
                              (m1\<lparr>frames := F2, attempts := attempts m + 1\<rparr>)))"

definition dispatch ::
  "lazy_env \<Rightarrow> nat option \<Rightarrow> nat \<Rightarrow> 'v LazyPromise \<Rightarrow> (exc option \<Rightarrow> 'v prog) \<Rightarrow> 'v machine \<Rightarrow> 'v machine" where
  "dispatch env ex h f k m =
     (case ex of
        None \<Rightarrow> set_frame h
          (f\<lparr>lp_code := Run (k (Some (Logic_error ''dispatch's param should not be nullptr'')))\<rparr>) m
      | Some e \<Rightarrow> DispatchAwaiter_suspend env e h f k m)"

text \<open>
  An external awaitable is handed a \<open>ViaCoroutine\<close> that wraps the caller: it remembers the executor and
  the context of the suspension, and brings the caller back there.
\<close>

definition getWrappedContinuation :: "lazy_env \<Rightarrow> nat option \<Rightarrow> nat \<Rightarrow> ViaCoroutine" where
  "getWrappedContinuation env ex h =
     \<lparr>via_continuation = h, via_ex = ex,
      via_ctx = (case ex of None \<Rightarrow> NULLCTX | Some e \<Rightarrow> checkout_ctx env e)\<rparr>"

definition ViaCoroutine_final :: "ViaCoroutine \<Rightarrow> 'v machine \<Rightarrow> 'v machine" where
  "ViaCoroutine_final v m =
     (case via_ex v of
        Some ex \<Rightarrow> m\<lparr>ready_queue := ready_queue m @ [(ex, via_continuation v)]\<rparr>
      | None \<Rightarrow> m\<lparr>active := Some (via_continuation v)\<rparr>)"

definition ViaAsyncAwaiter_suspend ::
  "lazy_env \<Rightarrow> nat \<Rightarrow> 'v LazyPromise \<Rightarrow> exc + 'v \<Rightarrow> (exc + 'v \<Rightarrow> 'v prog) \<Rightarrow> 'v machine \<Rightarrow> 'v machine" where
  "ViaAsyncAwaiter_suspend env h f t k m =
     (set_frame h (f\<lparr>lp_code := Wait_external t k\<rparr>) m)
       \<lparr>active := None, waiting := waiting m @ [getWrappedContinuation env (lp_executor f) h]\<rparr>"

section \<open>Running coroutines\<close>

text \<open>One statement of the body of frame \<open>h\<close>; \<open>await_transform\<close> selects the awaiter.\<close>

fun await_transform :: "lazy_env \<Rightarrow> nat \<Rightarrow> 'v LazyPromise \<Rightarrow> 'v prog \<Rightarrow> 'v machine \<Rightarrow> 'v machine" where
  "await_transform env h f (Co_return v) m = FinalAwaiter_suspend h (return_value v f) m"
| "await_transform env h f (Co_throw e) m = FinalAwaiter_suspend h (unhandled_exception e f) m"
| "await_transform env h f (Co_await loc p k) m = await_lazy h f loc p (\<lambda>c. Wait_value c k) m"
| "await_transform env h f (Co_awaitTry loc p k) m = await_lazy h f loc p (\<lambda>c. Wait_try c k) m"
| "await_transform env h f (Current_executor k) m = set_frame h (f\<lparr>lp_code := Run (k (lp_executor f))\<rparr>) m"
| "await_transform env h f (Current_locals k) m = set_frame h (f\<lparr>lp_code := Run (k (lp_local f))\<rparr>) m"
| "await_transform env h f (Current_slot k) m =
     set_frame h (f\<lparr>lp_code := Run (k (getSlot (locals m) (lp_local f)))\<rparr>) m"
| "await_transform env h f (Forbid_signal p) m =
     (set_frame h (f\<lparr>lp_code := Run p\<rparr>) m)
       \<lparr>locals := (case lp_local f of None \<Rightarrow> locals m
                   | Some l \<Rightarrow> (locals m)(l := forbidSignal (locals m l)))\<rparr>"
| "await_transform env h f (Co_yield k) m =
     (let slot = getSlot (locals m) (lp_local f)
      in if YieldAwaiter_ready env slot
         then set_frame h (f\<lparr>lp_code := Run (k (YieldAwaiter_resume env slot))\<rparr>) m
         else YieldAwaiter_suspend env h f k m)"
| "await_transform env h f (Co_dispatch ex k) m = dispatch env ex h f k m"
| "await_transform env h f (Co_external rdy t k) m =
     (if rdy then set_frame h (f\<lparr>lp_code := Run (k t)\<rparr>) m
      else ViaAsyncAwaiter_suspend env h f t k m)"
| "await_transform env h f (Plain g k) m =
     (let (e, L) = g (locals m) in (set_frame h (f\<lparr>lp_code := Run (k e)\<rparr>) m)\<lparr>locals := L\<rparr>)"

fun resume_lazy :: "lazy_env \<Rightarrow> nat \<Rightarrow> 'v LazyPromise \<Rightarrow> 'v machine \<Rightarrow> 'v machine" where
  "resume_lazy env h f m =
     (case lp_code f of
        Run p \<Rightarrow> await_transform env h f p m
      | Wait_value c k \<Rightarrow>
          (case awaitResume c m of
             (Inl e, m') \<Rightarrow> crash e m' | (Inr r, m') \<Rightarrow> set_frame h (f\<lparr>lp_code := Run (k r)\<rparr>) m')
      | Wait_try c k \<Rightarrow>
          (case awaitResumeTry c m of
             (Inl e, m') \<Rightarrow> crash e m' | (Inr t, m') \<Rightarrow> set_frame h (f\<lparr>lp_code := Run (k t)\<rparr>) m')
      | Wait_yield k \<Rightarrow>
          set_frame h
            (f\<lparr>lp_code := Run (k (YieldAwaiter_resume env (getSlot (locals m) (lp_local f))))\<rparr>) m
      | Wait_dispatch k \<Rightarrow> set_frame h (f\<lparr>lp_code := Run (k None)\<rparr>) m
      | Wait_external t k \<Rightarrow> set_frame h (f\<lparr>lp_code := Run (k t)\<rparr>) m
      | At_final \<Rightarrow> crash (Undefined ''resumed at the final suspend point'') m)"

text \<open>The detached coroutine of \<open>start\<close> passes the result to the callback and destroys itself.\<close>

definition resume_detached :: "nat \<Rightarrow> nat \<Rightarrow> 'v machine \<Rightarrow> 'v machine" where
  "resume_detached h c m =
     (case awaitResumeTry c m of
        (Inl e, m') \<Rightarrow> crash e m'
      | (Inr t, m') \<Rightarrow> (destroy h m')\<lparr>delivered := delivered m @ [t], active := None\<rparr>)"

text \<open>
  One step: the active coroutine runs to its next suspension point; otherwise an executor takes a
  task; otherwise an external event happens.
\<close>

definition machine_step :: "lazy_env \<Rightarrow> 'v machine \<Rightarrow> 'v machine option" where
  "machine_step env m =
     (if broken m \<noteq> None then None
      else case active m of
        Some h \<Rightarrow>
          Some (case frames m h of
                  None \<Rightarrow> crash (Undefined ''resumed a destroyed coroutine'') m
                | Some (Lazy_frame f) \<Rightarrow> resume_lazy env h f m
                | Some (Detached_frame c) \<Rightarrow> resume_detached h c m)
      | None \<Rightarrow>
          (case ready_queue m of
             (ex, h) # q \<Rightarrow> Some (m\<lparr>ready_queue := q, active := Some h\<rparr>)
           | [] \<Rightarrow> (case waiting m of
                      v # vs \<Rightarrow> Some (ViaCoroutine_final v (m\<lparr>waiting := vs\<rparr>))
                    | [] \<Rightarrow> None)))"

partial_function (option) drive :: "lazy_env \<Rightarrow> 'v machine \<Rightarrow> 'v machine option" where
  "drive env m = (case machine_step env m of None \<Rightarrow> Some m | Some m' \<Rightarrow> drive env m')"


section \<open>Starting a coroutine\<close>

text \<open>
  A \<open>Lazy\<close> or \<open>RescheduleLazy\<close> object: a handle, or null after a failed allocation or a move.
  \<open>frame_of\<close> reads the promise of the handle.
\<close>

definition get_return_object :: "'v prog \<Rightarrow> 'v machine \<Rightarrow> nat option \<times> 'v machine" where
  "get_return_object p m =
     (Some (next_frame m),
      (set_frame (next_frame m) (LazyPromise_new p) m)\<lparr>next_frame := next_frame m + 1\<rparr>)"

definition get_return_object_on_allocation_failure :: "nat option" where
  "get_return_object_on_allocation_failure = None"

definition no_handle :: failure where
  "no_handle = Throws (Logic_error
     ''Lazy do not have a coroutine_handle Maybe the allocation failed or you're using a used Lazy'')"

definition frame_of :: "nat \<Rightarrow> 'v machine \<Rightarrow> 'v LazyPromise result" where
  "frame_of h m = (case frames m h of Some (Lazy_frame f) \<Rightarrow> ok f | _ \<Rightarrow> Inl (Undefined ''dangling handle''))"

definition getExecutor :: "nat option \<Rightarrow> 'v machine \<Rightarrow> nat option result" where
  "getExecutor lazy m =
     (case lazy of
        None \<Rightarrow> Inl (Undefined ''null handle'')
      | Some h \<Rightarrow> (case frame_of h m of Inl e \<Rightarrow> Inl e | Inr f \<Rightarrow> ok (lp_executor f)))"

definition isReady :: "nat option \<Rightarrow> 'v machine \<Rightarrow> bool" where
  "isReady lazy m =
     (case lazy of
        None \<Rightarrow> True
      | Some h \<Rightarrow> (case frame_of h m of Inl _ \<Rightarrow> False | Inr f \<Rightarrow> (case lp_code f of At_final \<Rightarrow> True | _ \<Rightarrow> False)))"

text \<open>\<open>via\<close> and \<open>setEx\<close> bind an executor; they differ in the type of what they return.\<close>

definition lazy_via :: "nat option \<Rightarrow> nat option \<Rightarrow> 'v machine \<Rightarrow> ('v machine, nat option) call" where
  "lazy_via ex lazy m =
     (case lazy of
        None \<Rightarrow> (Inl no_handle, m)
      | Some h \<Rightarrow> (case frame_of h m of
                     Inl e \<Rightarrow> (Inl e, m) | Inr f \<Rightarrow> (ok lazy, set_frame h (f\<lparr>lp_executor := ex\<rparr>) m)))"

definition setEx :: "nat option \<Rightarrow> nat option \<Rightarrow> 'v machine \<Rightarrow> ('v machine, nat option) call" where
  "setEx = lazy_via"

text \<open>
  \<open>start\<close>: a detached coroutine awaits the \<open>Lazy\<close>.  With \<open>reschedule\<close> the coroutine is handed to its
  executor, otherwise control is transferred to it at once.
\<close>

definition awaitSuspendImpl :: "lazy_env \<Rightarrow> bool \<Rightarrow> nat \<Rightarrow> 'v LazyPromise \<Rightarrow> 'v machine \<Rightarrow> ('v machine, unit) call" where
  "awaitSuspendImpl env reschedule h f m =
     (if reschedule
      then (case lp_executor f of
              None \<Rightarrow> (throw (Logic_error ''RescheduleLazy need executor''), m)
            | Some ex \<Rightarrow>
                (ok (), m\<lparr>attempts := attempts m + 1,
                          ready_queue := ready_queue m @ (if accepts env By_reschedule (attempts m) then [(ex, h)] else [])\<rparr>))
      else (ok (), m\<lparr>active := Some h\<rparr>))"

definition start :: "lazy_env \<Rightarrow> bool \<Rightarrow> nat option \<Rightarrow> 'v machine \<Rightarrow> ('v machine, unit) call" where
  "start env reschedule lazy m =
     (case lazy of
        None \<Rightarrow> (Inl no_handle, m)
      | Some h \<Rightarrow>
          (case frame_of h m of
             Inl e \<Rightarrow> (Inl e, m)
           | Inr f \<Rightarrow>
               let d = next_frame m; f' = f\<lparr>lp_continuation := Some d\<rparr>
               in awaitSuspendImpl env reschedule h f'
                    (m\<lparr>frames := (frames m)(h := Some (Lazy_frame f'), d := Some (Detached_frame h)),
                       next_frame := d + 1\<rparr>)))"

definition directlyStart :: "lazy_env \<Rightarrow> nat option \<Rightarrow> nat option \<Rightarrow> 'v machine \<Rightarrow> ('v machine, unit) call" where
  "directlyStart env ex lazy m =
     (case lazy of
        None \<Rightarrow> (Inl (Undefined ''null handle''), m)
      | Some h \<Rightarrow> (case frame_of h m of
                     Inl e \<Rightarrow> (Inl e, m)
                   | Inr f \<Rightarrow> start env False lazy (set_frame h (f\<lparr>lp_executor := ex\<rparr>) m)))"

text \<open>
  \<open>syncAwait\<close>: the callback stores the result and releases the condition; the caller blocks until
  then, so that the machine runs until it has nothing left to do.
\<close>

definition syncAwait :: "lazy_env \<Rightarrow> bool \<Rightarrow> nat option \<Rightarrow> 'v machine \<Rightarrow> ('v result \<times> 'v machine) option" where
  "syncAwait env reschedule lazy m =
     (case getExecutor lazy m of
        Inl e \<Rightarrow> Some (Inl e, m)
      | Inr ex \<Rightarrow>
          if (case ex of None \<Rightarrow> False | Some e \<Rightarrow> in_ex env e)
          then Some (throw (Logic_error ''do not sync await in the same executor with Lazy''), m)
          else (case start env reschedule lazy m of
                  (Inl e, m1) \<Rightarrow> Some (Inl e, m1)
                | (Inr _, m1) \<Rightarrow>
                    (case drive env m1 of
                       None \<Rightarrow> None
                     | Some m2 \<Rightarrow> (case delivered m2 of
                                     t # _ \<Rightarrow> Some (try_value_of t, m2) | [] \<Rightarrow> None))))"

definition syncAwait_on :: "lazy_env \<Rightarrow> nat option \<Rightarrow> nat option \<Rightarrow> 'v machine \<Rightarrow> ('v result \<times> 'v machine) option" where
  "syncAwait_on env ex lazy m =
     (case lazy_via ex lazy m of
        (Inl e, m1) \<Rightarrow> Some (Inl e, m1) | (Inr lazy', m1) \<Rightarrow> syncAwait env True lazy' m1)"

section \<open>Specification\<close>

text \<open>
  What a body computes, without frames, handles and executors' queues: the executor of the whole
  chain, the lazy locals and the number of schedule calls are the state.
\<close>

record spec_state =
  sp_ex :: "nat option"
  sp_locals :: local_store
  sp_attempts :: nat

primrec eval :: "lazy_env \<Rightarrow> 'v prog \<Rightarrow> nat option \<Rightarrow> spec_state \<Rightarrow> (exc + 'v) \<times> spec_state" where
  "eval env (Co_return v) loc st = (Inr v, st)"
| "eval env (Co_throw e) loc st = (Inl e, st)"
| "eval env (Co_await l p k) loc st =
     (let (r, st') = eval env p (if l = None then loc else l) st in eval env (k r) loc st')"
| "eval env (Co_awaitTry l p k) loc st =
     (let (r, st') = eval env p (if l = None then loc else l) st
      in eval env (k (case r of Inl e \<Rightarrow> Exception e | Inr v \<Rightarrow> Value v)) loc st')"
| "eval env (Current_executor k) loc st = eval env (k (sp_ex st)) loc st"
| "eval env (Current_locals k) loc st = eval env (k loc) loc st"
| "eval env (Current_slot k) loc st = eval env (k (getSlot (sp_locals st) loc)) loc st"
| "eval env (Forbid_signal p) loc st =
     eval env p loc
       (case loc of None \<Rightarrow> st
        | Some l \<Rightarrow> st\<lparr>sp_locals := (sp_locals st)(l := forbidSignal (sp_locals st l))\<rparr>)"
| "eval env (Co_yield k) loc st =
     (let slot = getSlot (sp_locals st) loc
      in if YieldAwaiter_ready env slot then eval env (k (YieldAwaiter_resume env slot)) loc st
         else if sp_ex st = None
         then eval env (k (Some (Logic_error ''Yielding is only meaningful with an executor!''))) loc st
         else eval env (k None) loc (st\<lparr>sp_attempts := sp_attempts st + 1\<rparr>))"
| "eval env (Co_dispatch ex k) loc st =
     (if ex = None then eval env (k (Some (Logic_error ''dispatch's param should not be nullptr''))) loc st
      else if sp_ex st = ex then eval env (k None) loc st
      else if accepts env By_dispatch (sp_attempts st)
      then eval env (k None) loc (st\<lparr>sp_ex := ex, sp_attempts := sp_attempts st + 1\<rparr>)
      else eval env (k (Some dispatch_failed)) loc (st\<lparr>sp_attempts := sp_attempts st + 1\<rparr>))"
| "eval env (Co_external rdy t k) loc st = eval env (k t) loc st"
| "eval env (Plain g k) loc st =
     (let (e, L) = g (sp_locals st) in eval env (k e) loc (st\<lparr>sp_locals := L\<rparr>))"

text \<open>The stack of a single chain of coroutines, innermost first, and the machine that holds it.\<close>

type_synonym 'v stack = "(nat \<times> 'v frame) list"

definition stack_ex :: "nat option \<Rightarrow> 'v stack \<Rightarrow> 'v stack" where
  "stack_ex ex = map (\<lambda>(h, fr). (h, recolour ex fr))"

fun linked_stack :: "'v stack \<Rightarrow> bool" where
  "linked_stack [] = False"
| "linked_stack [(h, fr)] = (case fr of Detached_frame c \<Rightarrow> True | _ \<Rightarrow> False)"
| "linked_stack ((h, fr) # (h', fr') # stk) =
     ((case fr of Lazy_frame f \<Rightarrow> lp_continuation f = Some h' | _ \<Rightarrow> False) \<and> linked_stack ((h', fr') # stk))"

definition mach :: "'v stack \<Rightarrow> nat \<Rightarrow> nat option \<Rightarrow> spec_state \<Rightarrow> 'v machine" where
  "mach stk n act st =
     \<lparr>frames = map_of (stack_ex (sp_ex st) stk), next_frame = n, locals = sp_locals st,
      attempts = sp_attempts st, ready_queue = [], waiting = [], active = act, delivered = [], broken = None\<rparr>"


section \<open>Machine and stack\<close>

lemma drive_step: "machine_step env m = Some m' \<Longrightarrow> drive env m = drive env m'"
  by (subst drive.simps) simp

lemma drive_end: "machine_step env m = None \<Longrightarrow> drive env m = Some m"
  by (subst drive.simps) simp

lemma recolour_simps [simp]:
  "recolour ex (Lazy_frame f) = Lazy_frame (f\<lparr>lp_executor := ex\<rparr>)"
  "recolour ex (Detached_frame c) = Detached_frame c"
  by (simp_all add: recolour_def)

lemma stack_ex_simps [simp]:
  "stack_ex ex [] = []"
  "stack_ex ex ((h, fr) # stk) = (h, recolour ex fr) # stack_ex ex stk"
  by (simp_all add: stack_ex_def)

lemma recolour_twice [simp]: "recolour ex (recolour ex' fr) = recolour ex fr"
  by (cases fr) simp_all

lemma stack_ex_twice [simp]: "stack_ex ex (stack_ex ex' stk) = stack_ex ex stk"
  by (induction stk) auto

lemma stack_ex_map_keys [simp]: "map fst (stack_ex ex stk) = map fst stk"
  by (induction stk) auto

lemma stack_ex_keys [simp]: "fst ` set (stack_ex ex stk) = fst ` set stk"
  by (metis set_map stack_ex_map_keys)

lemma linked_stack_ex [simp]: "linked_stack (stack_ex ex stk) = linked_stack stk"
  by (induction stk rule: linked_stack.induct) (auto split: frame.splits)

lemma add_stack_ex: "map_of (stack_ex ex stk) ++ map_of (stack_ex ex' stk) = map_of (stack_ex ex' stk)"
proof
  fix x
  have "map_of (stack_ex ex' stk) x = None \<longleftrightarrow> map_of (stack_ex ex stk) x = None"
    by (simp add: map_of_eq_None_iff)
  then show "(map_of (stack_ex ex stk) ++ map_of (stack_ex ex' stk)) x = map_of (stack_ex ex' stk) x"
    by (auto simp: map_add_def split: option.splits)
qed

text \<open>The walk over the continuations ends and gives every \<open>Lazy\<close> of the chain the executor.\<close>

lemma change_agrees:
  assumes "linked_stack stk" and "distinct (map fst stk)" and "\<And>x fr. (x, fr) \<in> set stk \<Longrightarrow> F x = Some fr"
  shows "ChangeLaziessExecutorTo F (fst (hd stk)) ex = Some (F ++ map_of (stack_ex ex stk))"
  using assms
proof (induction stk arbitrary: F rule: linked_stack.induct)
  case 1
  then show ?case by simp
next
  case (2 h fr)
  then have "F h = Some fr" "\<exists>c. fr = Detached_frame c" by (auto split: frame.splits)
  then show ?case
    by (subst ChangeLaziessExecutorTo.simps)
      (auto simp: GetContinuationFromHandle_def map_add_def fun_eq_iff)
next
  case (3 h fr h' fr' stk)
  let ?F = "F(h := Some (recolour ex fr))"
  have F: "F h = Some fr" using "3.prems"(3) by simp
  then have G: "GetContinuationFromHandle F h = Some h'"
    using "3.prems"(1) by (auto simp: GetContinuationFromHandle_def split: frame.splits)
  have "ChangeLaziessExecutorTo ?F (fst (hd ((h', fr') # stk))) ex =
      Some (?F ++ map_of (stack_ex ex ((h', fr') # stk)))"
  proof (rule "3.IH")
    show "linked_stack ((h', fr') # stk)" "distinct (map fst ((h', fr') # stk))" using 3 by auto
    fix x fx
    assume "(x, fx) \<in> set ((h', fr') # stk)"
    moreover from this have "x \<noteq> h" using "3.prems"(2) by force
    ultimately show "?F x = Some fx" using "3.prems"(3)[of x fx] by simp
  qed
  moreover have "?F ++ map_of (stack_ex ex ((h', fr') # stk)) = F ++ map_of (stack_ex ex ((h, fr) # (h', fr') # stk))"
  proof -
    have "map_of (stack_ex ex ((h', fr') # stk)) h = None"
      using "3.prems"(2) by (simp add: map_of_eq_None_iff)
    then show ?thesis by (auto simp: map_add_def fun_eq_iff split: option.splits)
  qed
  ultimately show ?case using F G by (subst ChangeLaziessExecutorTo.simps) simp
qed

lemma change_stack:
  assumes "linked_stack ((h, fr) # stk)" and "distinct (map fst ((h, fr) # stk))"
  shows "ChangeLaziessExecutorTo (map_of (stack_ex ex ((h, fr) # stk))) h ex' =
    Some (map_of (stack_ex ex' ((h, fr) # stk)))"
proof -
  let ?stk = "stack_ex ex ((h, fr) # stk)"
  have "ChangeLaziessExecutorTo (map_of ?stk) (fst (hd ?stk)) ex' =
      Some (map_of ?stk ++ map_of (stack_ex ex' ?stk))"
  proof (rule change_agrees)
    show "linked_stack ?stk" using assms(1) by (simp only: linked_stack_ex)
    show d: "distinct (map fst ?stk)" using assms(2) by (simp only: stack_ex_map_keys)
    show "map_of ?stk x = Some fx" if "(x, fx) \<in> set ?stk" for x fx
      using d that by (rule map_of_is_SomeI)
  qed
  then show ?thesis by (simp only: stack_ex_twice add_stack_ex) simp
qed

text \<open>The machine of a stack: reading and writing its top frame, and its other fields.\<close>

lemma mach_fields [simp]:
  "broken (mach stk n act st) = None" "active (mach stk n act st) = act"
  "ready_queue (mach stk n act st) = []" "waiting (mach stk n act st) = []"
  "locals (mach stk n act st) = sp_locals st" "attempts (mach stk n act st) = sp_attempts st"
  "next_frame (mach stk n act st) = n" "delivered (mach stk n act st) = []"
  by (simp_all add: mach_def)

lemma mach_updates [simp]:
  "mach stk n act st\<lparr>active := a\<rparr> = mach stk n a st"
  "mach stk n act st\<lparr>next_frame := k\<rparr> = mach stk k act st"
  "mach stk n act st\<lparr>locals := L\<rparr> = mach stk n act (st\<lparr>sp_locals := L\<rparr>)"
  "mach stk n act st\<lparr>attempts := j\<rparr> = mach stk n act (st\<lparr>sp_attempts := j\<rparr>)"
  "mach stk n act st\<lparr>ready_queue := []\<rparr> = mach stk n act st"
  "mach stk n act st\<lparr>waiting := []\<rparr> = mach stk n act st"
  by (simp_all add: mach_def)

lemma mach_top [simp]: "frames (mach ((h, fr) # stk) n act st) h = Some (recolour (sp_ex st) fr)"
  by (simp add: mach_def)

lemma set_top:
  "lp_executor f = sp_ex st \<Longrightarrow>
     set_frame h f (mach ((h, fr) # stk) n act st) = mach ((h, Lazy_frame f) # stk) n act st"
  by (simp add: mach_def fun_eq_iff)

lemma mach_ex: "mach ((h, Lazy_frame (f\<lparr>lp_executor := sp_ex st\<rparr>)) # stk) n act st = mach ((h, Lazy_frame f) # stk) n act st"
  by (simp add: mach_def)

abbreviation at_code :: "'v LazyPromise \<Rightarrow> 'v code \<Rightarrow> 'v frame" where
  "at_code f cd \<equiv> Lazy_frame (f\<lparr>lp_code := cd\<rparr>)"

text \<open>A step of the machine that resumes the top frame and leaves the stack.\<close>

lemma step_top:
  "machine_step env (mach ((h, at_code f cd) # stk) n (Some h) st) =
     Some (resume_lazy env h (f\<lparr>lp_code := cd, lp_executor := sp_ex st\<rparr>)
       (mach ((h, at_code f cd) # stk) n (Some h) st))"
  by (simp add: machine_step_def)

lemma set_code_top:
  "set_frame h (f\<lparr>lp_code := cd, lp_executor := sp_ex st, lp_code := cd'\<rparr>) (mach ((h, at_code f cd) # stk) n act st) =
     mach ((h, at_code f cd') # stk) n act st"
  by (simp add: mach_def fun_eq_iff)

definition try_of :: "exc + 'v \<Rightarrow> 'v Try_t" where
  "try_of r = (case r of Inl e \<Rightarrow> Exception e | Inr v \<Rightarrow> Value v)"

abbreviation final_frame :: "'v LazyPromise \<Rightarrow> exc + 'v \<Rightarrow> 'v frame" where
  "final_frame f r \<equiv> Lazy_frame (f\<lparr>lp_code := At_final, lp_value := try_of r\<rparr>)"

text \<open>The statements that leave the top frame running, and the final suspend point.\<close>

lemmas step_defs = machine_step_def mach_def fun_eq_iff

abbreviation run_top ::
  "lazy_env \<Rightarrow> nat \<Rightarrow> 'v LazyPromise \<Rightarrow> 'v stack \<Rightarrow> nat \<Rightarrow> 'v prog \<Rightarrow> spec_state \<Rightarrow> 'v machine option" where
  "run_top env h f stk n p st \<equiv> drive env (mach ((h, at_code f (Run p)) # stk) n (Some h) st)"

lemma ready_steps:
  "run_top env h f stk n (Current_executor k) st = run_top env h f stk n (k (sp_ex st)) st"
  "run_top env h f stk n (Current_locals k) st = run_top env h f stk n (k (lp_local f)) st"
  "run_top env h f stk n (Current_slot k) st = run_top env h f stk n (k (getSlot (sp_locals st) (lp_local f))) st"
  "run_top env h f stk n (Forbid_signal p) st = run_top env h f stk n p
       (case lp_local f of None \<Rightarrow> st
        | Some l \<Rightarrow> st\<lparr>sp_locals := (sp_locals st)(l := forbidSignal (sp_locals st l))\<rparr>)"
  "g (sp_locals st) = (e, L) \<Longrightarrow> run_top env h f stk n (Plain g k') st = run_top env h f stk n (k' e) (st\<lparr>sp_locals := L\<rparr>)"
  by (rule drive_step, simp add: step_defs split: option.split)+

lemma final_steps:
  "drive env (mach ((h, at_code f (Run (Co_return v))) # stk) n (Some h) st) =
     drive env (mach ((h, final_frame f (Inr v)) # stk) n (lp_continuation f) st)"
  "drive env (mach ((h, at_code f (Run (Co_throw e))) # stk) n (Some h) st) =
     drive env (mach ((h, final_frame f (Inl e)) # stk) n (lp_continuation f) st)"
  by (rule drive_step, simp add: step_defs FinalAwaiter_suspend_def return_value_def
      unhandled_exception_def try_of_def)+

text \<open>Suspensions that come back through an executor or an external event.\<close>

lemma yield_steps:
  fixes f :: "'v LazyPromise"
  assumes "accepts env By_yield (sp_attempts st)"
  defines "slot \<equiv> getSlot (sp_locals st) (lp_local f)"
  shows "run_top env h f stk n (Co_yield k) st =
    (if YieldAwaiter_ready env slot then run_top env h f stk n (k (YieldAwaiter_resume env slot)) st
     else if sp_ex st = None
     then run_top env h f stk n (k (Some (Logic_error ''Yielding is only meaningful with an executor!''))) st
     else run_top env h f stk n (k None) (st\<lparr>sp_attempts := sp_attempts st + 1\<rparr>))"
proof (cases "YieldAwaiter_ready env slot \<or> sp_ex st = None")
  case True
  then show ?thesis unfolding slot_def
    by (auto simp: step_defs YieldAwaiter_suspend_def intro!: drive_step)
next
  case False
  then obtain ex where ex: "sp_ex st = Some ex" "\<not> YieldAwaiter_ready env slot" by auto
  let ?st = "st\<lparr>sp_attempts := sp_attempts st + 1\<rparr>"
  let ?m = "mach ((h, at_code f (Wait_yield k)) # stk) n None ?st"
  have "run_top env h f stk n (Co_yield k) st = drive env (?m\<lparr>ready_queue := [(ex, h)]\<rparr>)"
    using ex assms(1)
    by (intro drive_step) (simp add: step_defs YieldAwaiter_suspend_def slot_def)
  also have "\<dots> = drive env (?m\<lparr>active := Some h\<rparr>)"
    by (rule drive_step) (simp add: step_defs)
  also have "\<dots> = run_top env h f stk n (k None) ?st"
    using ex
    by (intro drive_step) (simp add: step_defs YieldAwaiter_resume_def slot_def)
  finally show ?thesis using ex by simp
qed

lemma external_steps:
  "drive env (mach ((h, at_code f (Run (Co_external rdy t k))) # stk) n (Some h) st) =
     drive env (mach ((h, at_code f (Run (k t))) # stk) n (Some h) st)"
proof (cases rdy)
  case True
  then show ?thesis by (intro drive_step) (simp add: step_defs)
next
  case False
  let ?v = "getWrappedContinuation env (sp_ex st) h"
  let ?m = "mach ((h, at_code f (Wait_external t k)) # stk) n None st"
  have "drive env (mach ((h, at_code f (Run (Co_external rdy t k))) # stk) n (Some h) st) =
      drive env (?m\<lparr>waiting := [?v]\<rparr>)"
    using False by (intro drive_step) (simp add: step_defs ViaAsyncAwaiter_suspend_def)
  also have "\<dots> = drive env (?m\<lparr>active := Some h\<rparr>)"
  proof (cases "sp_ex st")
    case None
    then show ?thesis
      by (intro drive_step) (simp add: step_defs ViaCoroutine_final_def getWrappedContinuation_def)
  next
    case (Some ex)
    then have "drive env (?m\<lparr>waiting := [?v]\<rparr>) = drive env (?m\<lparr>ready_queue := [(ex, h)]\<rparr>)"
      by (intro drive_step) (simp add: step_defs ViaCoroutine_final_def getWrappedContinuation_def)
    also have "\<dots> = drive env (?m\<lparr>active := Some h\<rparr>)" by (intro drive_step) (simp add: step_defs)
    finally show ?thesis .
  qed
  also have "\<dots> = drive env (mach ((h, at_code f (Run (k t))) # stk) n (Some h) st)"
    by (intro drive_step) (simp add: step_defs)
  finally show ?thesis .
qed


lemma lp_swap: "f\<lparr>lp_executor := b, lp_code := a\<rparr> = f\<lparr>lp_code := a, lp_executor := b\<rparr>"
  by simp

lemma dispatch_steps:
  assumes "linked_stack ((h, Lazy_frame f) # stk)" and "distinct (map fst ((h, Lazy_frame f) # stk))"
  shows "run_top env h f stk n (Co_dispatch ex k) st =
    (if ex = None then run_top env h f stk n (k (Some (Logic_error ''dispatch's param should not be nullptr''))) st
     else if sp_ex st = ex then run_top env h f stk n (k None) st
     else if accepts env By_dispatch (sp_attempts st)
     then run_top env h f stk n (k None) (st\<lparr>sp_ex := ex, sp_attempts := sp_attempts st + 1\<rparr>)
     else run_top env h f stk n (k (Some dispatch_failed)) (st\<lparr>sp_attempts := sp_attempts st + 1\<rparr>))"
proof (cases "ex = None \<or> sp_ex st = ex")
  case True
  then show ?thesis
    by (auto simp: step_defs dispatch_def DispatchAwaiter_suspend_def intro!: drive_step)
next
  case False
  then obtain e where e: "ex = Some e" "sp_ex st \<noteq> Some e" by auto
  let ?w = "at_code f (Wait_dispatch k)"
  have w: "linked_stack ((h, ?w) # stk)" "distinct (map fst ((h, ?w) # stk))"
    using assms by (cases stk; auto)+
  note ch = change_stack[OF w]
  show ?thesis
  proof (cases "accepts env By_dispatch (sp_attempts st)")
    case True
    let ?st = "st\<lparr>sp_ex := Some e, sp_attempts := sp_attempts st + 1\<rparr>"
    let ?m = "mach ((h, ?w) # stk) n None ?st"
    have "run_top env h f stk n (Co_dispatch ex k) st = drive env (?m\<lparr>ready_queue := [(e, h)]\<rparr>)"
      using e True ch[of "sp_ex st" "Some e"]
      by (intro drive_step) (simp add: machine_step_def mach_def dispatch_def DispatchAwaiter_suspend_def Let_def
        lp_swap)
    also have "\<dots> = drive env (?m\<lparr>active := Some h\<rparr>)" by (rule drive_step) (simp add: step_defs)
    also have "\<dots> = run_top env h f stk n (k None) ?st"
      by (intro drive_step) (simp add: step_defs)
    finally show ?thesis using e True by simp
  next
    case False
    then show ?thesis
      using e ch[of "sp_ex st" "Some e"] ch[of "Some e" "sp_ex st"]
      by (auto simp: machine_step_def mach_def dispatch_def DispatchAwaiter_suspend_def Let_def lp_swap intro!: drive_step)
  qed
qed

text \<open>Awaiting a coroutine: the call, and the return into the caller.\<close>

definition child_of :: "nat \<Rightarrow> 'v LazyPromise \<Rightarrow> nat option \<Rightarrow> nat option \<Rightarrow> 'v prog \<Rightarrow> 'v LazyPromise" where
  "child_of h f ex l p = AwaiterBase_suspend h f (coAwait ex l p)"

lemma child_fields [simp]:
  "lp_continuation (child_of h f ex l p) = Some h"
  "lp_local (child_of h f ex l p) = (if l = None then lp_local f else l)"
  "child_of h f ex l p\<lparr>lp_code := Run p\<rparr> = child_of h f ex l p"
  by (simp_all add: child_of_def AwaiterBase_suspend_def coAwait_def LazyPromise_new_def)

lemma await_call:
  assumes "h < n" and "\<And>x. x \<in> fst ` set stk \<Longrightarrow> x < n"
    and "p' = Co_await l p k \<and> cd = Wait_value n k \<or> p' = Co_awaitTry l p k' \<and> cd = Wait_try n k'"
  shows "run_top env h f stk n p' st =
    run_top env n (child_of h f (sp_ex st) l p) ((h, at_code f cd) # stk) (n + 1) p st"
  using assms(3)
  by (intro drive_step)
    (auto simp: step_defs await_lazy_def child_of_def AwaiterBase_suspend_def coAwait_def
      LazyPromise_new_def Let_def)

lemma await_return:
  assumes "h < n" and "\<And>x. x \<in> fst ` set stk \<Longrightarrow> x < n"
    and "cd = Wait_value n k \<and> q = k r \<or> cd = Wait_try n k' \<and> q = k' (try_of r)"
  shows "drive env (mach ((n, final_frame c r) # (h, at_code f cd) # stk) n' (Some h) st) =
    run_top env h f stk n' q st"
proof (rule drive_step)
  have "n \<noteq> h" "map_of (stack_ex (sp_ex st) stk) n = None"
    using assms(1,2) by (auto simp: map_of_eq_None_iff)
  then show "machine_step env (mach ((n, final_frame c r) # (h, at_code f cd) # stk) n' (Some h) st) =
      Some (mach ((h, at_code f (Run q)) # stk) n' (Some h) st)"
    using assms(3)
    by (cases r) (auto simp: step_defs awaitResume_def awaitResumeTry_def promise_result_def tryResult_def
        destroy_def try_of_def)
qed


lemma child_stack:
  assumes "linked_stack ((h, Lazy_frame f) # stk)" and "distinct (map fst ((h, Lazy_frame f) # stk))"
    and "h < n" and "\<And>x. x \<in> fst ` set stk \<Longrightarrow> x < n"
  shows "linked_stack ((n, Lazy_frame (child_of h f ex l p)) # (h, at_code f cd) # stk)"
    and "distinct (map fst ((n, Lazy_frame (child_of h f ex l p)) # (h, at_code f cd) # stk))"
    and "x \<in> fst ` set ((h, at_code f cd) # stk) \<Longrightarrow> x < n + 1"
proof -
  show "linked_stack ((n, Lazy_frame (child_of h f ex l p)) # (h, at_code f cd) # stk)"
    using assms(1) by (cases stk) auto
  show "distinct (map fst ((n, Lazy_frame (child_of h f ex l p)) # (h, at_code f cd) # stk))"
    using assms(2-4) by auto
  show "x \<in> fst ` set ((h, at_code f cd) # stk) \<Longrightarrow> x < n + 1"
    using assms(3,4) by (force simp: less_Suc_eq)
qed

text \<open>A body awaits another one and goes on with \<open>k\<close> of its result.\<close>

abbreviation runs_to :: "lazy_env \<Rightarrow> nat \<Rightarrow> 'v LazyPromise \<Rightarrow> 'v stack \<Rightarrow> nat \<Rightarrow> 'v prog \<Rightarrow> spec_state \<Rightarrow> exc + 'v \<Rightarrow> spec_state \<Rightarrow> bool" where
  "runs_to env h f stk n p st r st' \<equiv>
     \<exists>n' \<ge> n. run_top env h f stk n p st = drive env (mach ((h, final_frame f r) # stk) n' (lp_continuation f) st')"

definition as_specified :: "lazy_env \<Rightarrow> 'v prog \<Rightarrow> bool" where
  "as_specified env p \<longleftrightarrow>
     (\<forall>h f stk n st r st'. linked_stack ((h, Lazy_frame f) # stk) \<longrightarrow> distinct (map fst ((h, Lazy_frame f) # stk)) \<longrightarrow> h < n \<longrightarrow>
        (\<forall>x \<in> fst ` set stk. x < n) \<longrightarrow> eval env p (lp_local f) st = (r, st') \<longrightarrow> runs_to env h f stk n p st r st')"

lemma as_specifiedI:
  assumes "\<And>h f stk n st r st'. linked_stack ((h, Lazy_frame f) # stk) \<Longrightarrow> distinct (map fst ((h, Lazy_frame f) # stk)) \<Longrightarrow> h < n \<Longrightarrow>
    (\<And>x. x \<in> fst ` set stk \<Longrightarrow> x < n) \<Longrightarrow> eval env p (lp_local f) st = (r, st') \<Longrightarrow> runs_to env h f stk n p st r st'"
  shows "as_specified env p"
  unfolding as_specified_def by (intro allI impI) (rule assms, auto)

lemma as_specifiedD:
  assumes "as_specified env p" and "linked_stack ((h, Lazy_frame f) # stk)" and "distinct (map fst ((h, Lazy_frame f) # stk))"
    and "h < n" and "\<And>x. x \<in> fst ` set stk \<Longrightarrow> x < n" and "eval env p (lp_local f) st = (r, st')"
  shows "runs_to env h f stk n p st r st'"
  using assms(1)[unfolded as_specified_def, rule_format, OF assms(2-4) _ assms(6)] assms(5) by blast

lemma run_awaited:
  fixes next_of :: "exc + 'v \<Rightarrow> 'v prog"
  assumes "as_specified env p" and "\<And>r. as_specified env (next_of r)"
    and stk: "linked_stack ((h, Lazy_frame f) # stk)" "distinct (map fst ((h, Lazy_frame f) # stk))" "h < n" "\<And>x. x \<in> fst ` set stk \<Longrightarrow> x < n"
    and form: "q = Co_await l p k \<and> cd = Wait_value n k \<and> next_of = k \<or> q = Co_awaitTry l p k' \<and> cd = Wait_try n k' \<and> next_of = (\<lambda>r. k' (try_of r))"
    and "eval env q (lp_local f) st = (r, st')"
  shows "runs_to env h f stk n q st r st'"
proof -
  let ?c = "child_of h f (sp_ex st) l p" and ?w = "at_code f cd"
  obtain r1 st1 where e1: "eval env p (if l = None then lp_local f else l) st = (r1, st1)"
    by (cases "eval env p (if l = None then lp_local f else l) st")
  obtain n1 where n1: "n1 \<ge> n + 1" "run_top env n ?c ((h, ?w) # stk) (n + 1) p st =
      drive env (mach ((n, final_frame ?c r1) # (h, ?w) # stk) n1 (Some h) st1)"
  proof -
    have e2: "eval env p (lp_local ?c) st = (r1, st1)" using e1 by simp
    have "runs_to env n ?c ((h, ?w) # stk) (n + 1) p st r1 st1"
      using assms(1) child_stack(1,2)[OF stk] less_add_one child_stack(3)[OF stk] e2 by (rule as_specifiedD)
    then show thesis using that unfolding child_fields by blast
  qed
  have "eval env (next_of r1) (lp_local f) st1 = (r, st')" using form assms(8) e1 by (auto simp: try_of_def)
  then obtain n2 where n2: "n2 \<ge> n1" "run_top env h f stk n1 (next_of r1) st1 =
      drive env (mach ((h, final_frame f r) # stk) n2 (lp_continuation f) st')"
    using as_specifiedD[OF assms(2) stk(1,2), of n1 r1 st1 r st'] stk(3,4) n1(1) by fastforce
  have "run_top env h f stk n q st = run_top env n ?c ((h, ?w) # stk) (n + 1) p st"
    using stk(3,4) form by (intro await_call) auto
  also note n1(2)
  also have "drive env (mach ((n, final_frame ?c r1) # (h, ?w) # stk) n1 (Some h) st1) = run_top env h f stk n1 (next_of r1) st1"
    using stk(3,4) form by (intro await_return) auto
  also note n2(2)
  finally show ?thesis using n1(1) n2(1) by (intro exI[of _ n2]) simp
qed

text \<open>
  The body of the top frame runs to its final suspend point and leaves there what the specification
  computes.  Every frame that was created on the way is gone.
\<close>

lemma run_prog:
  assumes acc: "\<And>i. accepts env By_yield i"
    and "linked_stack ((h, Lazy_frame f) # stk)" and "distinct (map fst ((h, Lazy_frame f) # stk))"
    and "h < n" and "\<And>x. x \<in> fst ` set stk \<Longrightarrow> x < n"
    and "eval env p (lp_local f) st = (r, st')"
  shows "\<exists>n' \<ge> n. run_top env h f stk n p st =
    drive env (mach ((h, final_frame f r) # stk) n' (lp_continuation f) st')"
  using assms(2-)
proof (induction p arbitrary: h f stk n st r st')
  case (Co_return v)
  then show ?case by (auto simp: final_steps)
next
  case (Co_throw e)
  then show ?case by (auto simp: final_steps)
next
  case (Co_await l p k)
  have "as_specified env p" "\<And>r. as_specified env (k r)"
    by (rule as_specifiedI, rule Co_await.IH(1), assumption+) (rule as_specifiedI, rule Co_await.IH(2)[OF rangeI], assumption+)
  then show ?case by (rule run_awaited[OF _ _ Co_await.prems(1-4) _ Co_await.prems(5), of p k l k "Wait_value n k"]) auto
next
  case (Co_awaitTry l p k)
  have "as_specified env p" "\<And>r. as_specified env (k (try_of r))"
    by (rule as_specifiedI, rule Co_awaitTry.IH(1), assumption+) (rule as_specifiedI, rule Co_awaitTry.IH(2)[OF rangeI], assumption+)
  then show ?case
    by (rule run_awaited[OF _ _ Co_awaitTry.prems(1-4) _ Co_awaitTry.prems(5), of p "\<lambda>r. k (try_of r)" l _ "Wait_try n k"]) auto
next
  case (Current_executor k)
  then show ?case by (simp add: ready_steps)
next
  case (Current_locals k)
  then show ?case by (simp add: ready_steps)
next
  case (Current_slot k)
  then show ?case by (simp add: ready_steps)
next
  case (Forbid_signal p)
  then show ?case by (simp add: ready_steps)
next
  case (Co_yield k)
  then show ?case using acc by (auto simp: yield_steps Let_def split: if_splits)
next
  case (Co_dispatch ex k)
  show ?case
    using Co_dispatch.prems Co_dispatch.IH[OF rangeI Co_dispatch.prems(1-4)]
    by (auto simp: dispatch_steps[OF Co_dispatch.prems(1,2)] split: if_splits)
next
  case (Co_external rdy t k)
  then show ?case by (simp add: external_steps)
next
  case (Plain g k)
  then show ?case by (auto simp: ready_steps(5) Let_def split: prod.splits)
qed

section \<open>Whole programs\<close>

lemma run_root:
  assumes "\<And>i. accepts env By_yield i" and "lp_continuation f = Some 1" and "eval env p (lp_local f) st = (r, st')"
  shows "\<exists>m. run_top env 0 f [(1, Detached_frame 0)] 2 p st = Some m \<and> delivered m = [try_of r]
    \<and> frames m = Map.empty \<and> broken m = None \<and> ready_queue m = [] \<and> waiting m = [] \<and> locals m = sp_locals st'"
proof -
  obtain n where n: "run_top env 0 f [(1, Detached_frame 0)] 2 p st =
      drive env (mach [(0, final_frame f r), (1, Detached_frame 0)] n (Some 1) st')"
    using run_prog[of env 0 f "[(1, Detached_frame 0)]" 2 p st r st'] assms by auto
  let ?m = "(mach [] n None st')\<lparr>delivered := [try_of r]\<rparr>"
  have "drive env (mach [(0, final_frame f r), (1, Detached_frame 0)] n (Some 1) st') = drive env ?m"
    by (intro drive_step, cases r)
      (simp_all add: step_defs resume_detached_def awaitResumeTry_def tryResult_def destroy_def try_of_def)
  also have "\<dots> = Some ?m" by (rule drive_end) (simp add: step_defs)
  finally show ?thesis using n by (simp add: mach_def)
qed

definition outcome_of :: "exc + 'v \<Rightarrow> 'v result" where
  "outcome_of r = (case r of Inl e \<Rightarrow> throw e | Inr v \<Rightarrow> ok v)"

lemma try_value_try_of: "try_value_of (try_of r) = outcome_of r"
  by (cases r) (simp_all add: try_of_def outcome_of_def try_value_cases)

text \<open>\<open>start\<close>: the callback receives what the body computes.\<close>

lemma start_delivers:
  assumes "\<And>i. accepts env By_yield i" and "eval env p None \<lparr>sp_ex = None, sp_locals = L, sp_attempts = 0\<rparr> = (r, st')"
  shows "\<exists>m1 m. start env False (fst (get_return_object p (machine_new L))) (snd (get_return_object p (machine_new L))) = (ok (), m1)
      \<and> drive env m1 = Some m \<and> delivered m = [try_of r] \<and> frames m = Map.empty \<and> broken m = None
      \<and> ready_queue m = [] \<and> waiting m = [] \<and> locals m = sp_locals st'"
proof -
  let ?f = "(LazyPromise_new p)\<lparr>lp_continuation := Some 1\<rparr>"
  let ?m0 = "mach [(0, at_code ?f (Run p)), (1, Detached_frame 0)] 2 (Some 0) \<lparr>sp_ex = None, sp_locals = L, sp_attempts = 0\<rparr>"
  obtain m where m: "drive env ?m0 = Some m" "delivered m = [try_of r]" "frames m = Map.empty" "broken m = None"
      "ready_queue m = []" "waiting m = []" "locals m = sp_locals st'"
    using run_root[of env ?f p _ r st'] assms by (auto simp: LazyPromise_new_def)
  have "start env False (Some 0) (snd (get_return_object p (machine_new L))) = (ok (), ?m0)"
    by (simp add: start_def get_return_object_def machine_new_def frame_of_def awaitSuspendImpl_def
        mach_def LazyPromise_new_def fun_eq_iff)
  moreover have "fst (get_return_object p (machine_new L)) = Some 0" by (simp add: get_return_object_def machine_new_def)
  ultimately show ?thesis using m by auto
qed

lemma syncAwait_direct:
  assumes "\<And>i. accepts env By_yield i" and "eval env p None \<lparr>sp_ex = None, sp_locals = L, sp_attempts = 0\<rparr> = (r, st')"
  shows "\<exists>m. syncAwait env False (fst (get_return_object p (machine_new L))) (snd (get_return_object p (machine_new L))) =
      Some (outcome_of r, m) \<and> frames m = Map.empty \<and> broken m = None \<and> ready_queue m = [] \<and> waiting m = []
      \<and> locals m = sp_locals st'"
proof -
  let ?h = "fst (get_return_object p (machine_new L))" and ?m = "snd (get_return_object p (machine_new L))"
  obtain m1 m where m: "start env False ?h ?m = (ok (), m1)" "drive env m1 = Some m" "delivered m = [try_of r]" "frames m = Map.empty"
      "broken m = None" "ready_queue m = []" "waiting m = []" "locals m = sp_locals st'"
    using start_delivers[OF assms] by blast
  have "getExecutor ?h ?m = ok None"
    by (simp add: getExecutor_def frame_of_def get_return_object_def machine_new_def LazyPromise_new_def)
  then have "syncAwait env False ?h ?m = Some (outcome_of r, m)" using m(1-3) by (simp add: syncAwait_def try_value_try_of)
  then show ?thesis using m by simp
qed

lemma syncAwait_rescheduled:
  assumes "\<And>i. accepts env By_yield i" and "accepts env By_reschedule 0" and "\<not> in_ex env ex"
    and "eval env p None \<lparr>sp_ex = Some ex, sp_locals = L, sp_attempts = 1\<rparr> = (r, st')"
  shows "\<exists>m. syncAwait_on env (Some ex) (fst (get_return_object p (machine_new L))) (snd (get_return_object p (machine_new L))) =
      Some (outcome_of r, m) \<and> frames m = Map.empty \<and> broken m = None \<and> ready_queue m = [] \<and> waiting m = []
      \<and> locals m = sp_locals st'"
proof -
  let ?f = "(LazyPromise_new p)\<lparr>lp_continuation := Some 1\<rparr>"
  let ?m0 = "mach [(0, at_code ?f (Run p)), (1, Detached_frame 0)] 2 (Some 0) \<lparr>sp_ex = Some ex, sp_locals = L, sp_attempts = 1\<rparr>"
  define m1 where "m1 = snd (lazy_via (Some ex) (Some 0) (snd (get_return_object p (machine_new L))))"
  obtain m where m: "drive env ?m0 = Some m" "delivered m = [try_of r]" "frames m = Map.empty" "broken m = None"
      "ready_queue m = []" "waiting m = []" "locals m = sp_locals st'"
    using run_root[of env ?f p _ r st'] assms by (auto simp: LazyPromise_new_def)
  have "start env True (Some 0) m1 = (ok (), ?m0\<lparr>active := None, ready_queue := [(ex, 0)]\<rparr>)"
    using assms(2)
    by (simp add: m1_def start_def get_return_object_def machine_new_def frame_of_def awaitSuspendImpl_def lazy_via_def
        mach_def LazyPromise_new_def fun_eq_iff)
  moreover have "getExecutor (Some 0) m1 = ok (Some ex)"
    by (simp add: m1_def getExecutor_def frame_of_def get_return_object_def machine_new_def LazyPromise_new_def lazy_via_def)
  moreover have "drive env (?m0\<lparr>active := None, ready_queue := [(ex, 0)]\<rparr>) = drive env ?m0"
    by (rule drive_step) (simp add: step_defs)
  ultimately have "syncAwait env True (Some 0) m1 = Some (outcome_of r, m)"
    using m(1,2) assms(3) by (simp add: syncAwait_def try_value_try_of)
  moreover have "lazy_via (Some ex) (Some 0) (snd (get_return_object p (machine_new L))) = (ok (Some 0), m1)"
    by (simp add: m1_def lazy_via_def frame_of_def get_return_object_def machine_new_def)
  moreover have "fst (get_return_object p (machine_new L)) = Some 0" by (simp add: get_return_object_def machine_new_def)
  ultimately show ?thesis using m by (simp add: syncAwait_on_def)
qed


definition demo_env :: lazy_env where
  "demo_env = \<lparr>accepts = (\<lambda>w n. w \<noteq> By_dispatch \<or> n > 1), hasCanceled = (\<lambda>_. False),
     checkout_ctx = (\<lambda>_. 0), in_ex = (\<lambda>_. False)\<rparr>"

text \<open>A body that tries to dispatch, is refused, awaits a child that yields, and uses its value.\<close>

definition demo_prog :: "nat prog" where
  "demo_prog =
     Co_dispatch (Some 4) (\<lambda>e. Co_await None (Co_yield (\<lambda>y. if y = None then Co_return 5 else Co_throw (User_exc 1)))
       (\<lambda>r. case r of Inr v \<Rightarrow> Co_return (if e = None then v else v + 1) | Inl e' \<Rightarrow> Co_throw e'))"


text \<open>
  C30.  \<open>ChangeLaziessExecutorTo\<close>, whose loop has no bound, ends on every chain of coroutines that
  reaches a detached coroutine; it gives every \<open>Lazy\<close> of the chain the new executor, touches nothing
  else, and calling it again with the old executor restores a chain that had one executor.
\<close>

theorem change_executor_total:
  assumes "linked_stack ((h, fr) # stk)" and "distinct (map fst ((h, fr) # stk))"
  shows "ChangeLaziessExecutorTo (map_of ((h, fr) # stk)) h ex = Some (map_of (stack_ex ex ((h, fr) # stk)))
    \<and> Option.bind (ChangeLaziessExecutorTo (map_of (stack_ex old ((h, fr) # stk))) h ex)
        (\<lambda>F. ChangeLaziessExecutorTo F h old) = Some (map_of (stack_ex old ((h, fr) # stk)))"
proof
  have "ChangeLaziessExecutorTo (map_of ((h, fr) # stk)) (fst (hd ((h, fr) # stk))) ex =
      Some (map_of ((h, fr) # stk) ++ map_of (stack_ex ex ((h, fr) # stk)))"
    using assms map_of_is_SomeI[OF assms(2)] by (rule change_agrees)
  moreover have "map_of ((h, fr) # stk) ++ map_of (stack_ex ex ((h, fr) # stk)) = map_of (stack_ex ex ((h, fr) # stk))"
  proof
    fix x
    have "map_of (stack_ex ex ((h, fr) # stk)) x = None \<longleftrightarrow> map_of ((h, fr) # stk) x = None"
      by (simp add: map_of_eq_None_iff)
    then show "(map_of ((h, fr) # stk) ++ map_of (stack_ex ex ((h, fr) # stk))) x = map_of (stack_ex ex ((h, fr) # stk)) x"
      by (cases "map_of (stack_ex ex ((h, fr) # stk)) x") (simp_all add: map_add_def)
  qed
  ultimately show "ChangeLaziessExecutorTo (map_of ((h, fr) # stk)) h ex = Some (map_of (stack_ex ex ((h, fr) # stk)))"
    by simp
  show "Option.bind (ChangeLaziessExecutorTo (map_of (stack_ex old ((h, fr) # stk))) h ex)
      (\<lambda>F. ChangeLaziessExecutorTo F h old) = Some (map_of (stack_ex old ((h, fr) # stk)))"
    by (simp only: change_stack[OF assms] bind.bind_lunit)
qed

theorem change_executor_total_witness:
  "ChangeLaziessExecutorTo
     (map_of [(7, Lazy_frame ((LazyPromise_new (Co_return (1::nat)))\<lparr>lp_continuation := Some 5\<rparr>)), (5, Detached_frame 7)]) 7 (Some 2) =
   Some (map_of [(7, Lazy_frame ((LazyPromise_new (Co_return 1))\<lparr>lp_continuation := Some 5, lp_executor := Some 2\<rparr>)),
     (5, Detached_frame 7)])"
  using change_executor_total[of 7 "Lazy_frame ((LazyPromise_new (Co_return (1::nat)))\<lparr>lp_continuation := Some 5\<rparr>)"
      "[(5, Detached_frame 7)]" "Some 2"]
  by simp

end
