(* ===== verification/LazyHandle_Model.thy ===== *)
theory LazyHandle_Model
  imports Lazy_Model Ownership_Base
begin

text \<open>
  The objects around a coroutine frame (async_simple/coro/Lazy.h): \<open>Lazy\<close> and the awaiters, which own
  the frame through its handle, the promise of \<open>Lazy<void>\<close>, and the guards of \<open>setLazyLocal\<close>.

  A program is a sequence of the special member functions on a list of objects; \<open>machine\<close> of
  Lazy\_Model holds the frames.
\<close>

section \<open>Handles\<close>

text \<open>\<open>destroy()\<close> of a handle; destroying a frame twice is undefined.\<close>

definition handle_destroy :: "nat \<Rightarrow> 'v machine \<Rightarrow> 'v machine" where
  "handle_destroy h m = (if frames m h = None then crash (Undefined ''frame destroyed twice'') m else destroy h m)"

text \<open>Destructors: \<open>None\<close> is the null handle.\<close>

definition LazyBase_delete :: "nat option \<Rightarrow> 'v machine \<Rightarrow> 'v machine" where
  "LazyBase_delete coro m = (case coro of None \<Rightarrow> m | Some h \<Rightarrow> handle_destroy h m)"

definition LazyAwaiterBase_delete :: "nat option \<Rightarrow> 'v machine \<Rightarrow> 'v machine" where
  "LazyAwaiterBase_delete handle m = (case handle of None \<Rightarrow> m | Some h \<Rightarrow> handle_destroy h m)"

text \<open>Moves return the new object and what is left of the old one; the move assignment of an awaiter swaps.\<close>

definition LazyBase_move :: "nat option \<Rightarrow> nat option \<times> nat option" where
  "LazyBase_move other = (other, None)"

definition LazyAwaiterBase_move :: "nat option \<Rightarrow> nat option \<times> nat option" where
  "LazyAwaiterBase_move other = (other, None)"

definition LazyAwaiterBase_move_assign :: "nat option \<Rightarrow> nat option \<Rightarrow> nat option \<times> nat option" where
  "LazyAwaiterBase_move_assign self other = (other, self)"

text \<open>\<open>operator co_await\<close> and \<open>coAwaitTry\<close>: the awaiter takes the handle out of the \<open>Lazy\<close>.\<close>

definition operator_co_await :: "nat option \<Rightarrow> nat option \<times> nat option" where
  "operator_co_await coro = (coro, None)"

definition coAwaitTry :: "nat option \<Rightarrow> nat option \<times> nat option" where
  "coAwaitTry coro = (coro, None)"

text \<open>\<open>TryAwaiter::coAwait\<close>; \<open>r\<close> says whether the \<open>Lazy\<close> is a \<open>RescheduleLazy\<close>.\<close>

definition TryAwaiter_coAwait :: "bool \<Rightarrow> nat option \<Rightarrow> 'v LazyPromise \<Rightarrow> 'v LazyPromise result" where
  "TryAwaiter_coAwait r ex f =
     (if r then throw (Logic_error ''RescheduleLazy should be only allowed in DetachedCoroutine'')
      else ok (f\<lparr>lp_executor := ex\<rparr>))"

text \<open>
  \<open>await_resume\<close> of the two awaiters.  When the result is an exception the value awaiter rethrows it before
  it reaches \<open>destroy\<close>: it still owns the frame, and its destructor frees it.
\<close>

definition ValueAwaiter_resume :: "nat option \<Rightarrow> 'v machine \<Rightarrow> nat option \<times> 'v machine" where
  "ValueAwaiter_resume handle m =
     (case handle of
        None \<Rightarrow> (None, crash (Undefined ''null handle'') m)
      | Some h \<Rightarrow>
          (case frame_of h m of
             Inl e \<Rightarrow> (Some h, crash e m)
           | Inr f \<Rightarrow>
               (case promise_result f of
                  Inl e \<Rightarrow> (Some h, crash e m) | Inr (Inl e) \<Rightarrow> (Some h, m) | Inr (Inr v) \<Rightarrow> (None, handle_destroy h m))))"

definition TryAwaiter_resume :: "nat option \<Rightarrow> 'v machine \<Rightarrow> nat option \<times> 'v machine" where
  "TryAwaiter_resume handle m =
     (case handle of
        None \<Rightarrow> (None, crash (Undefined ''null handle'') m)
      | Some h \<Rightarrow>
          (case frame_of h m of
             Inl e \<Rightarrow> (Some h, crash e m)
           | Inr f \<Rightarrow> (case tryResult f of Inl e \<Rightarrow> (Some h, crash e m) | Inr t \<Rightarrow> (None, handle_destroy h m))))"

section \<open>Lazy of void\<close>

record LazyPromise_void =
  lv_exception :: "exc option"

definition lvoid_unhandled_exception :: "exc \<Rightarrow> LazyPromise_void \<Rightarrow> LazyPromise_void" where
  "lvoid_unhandled_exception e p = p\<lparr>lv_exception := Some e\<rparr>"

definition lvoid_return :: "LazyPromise_void \<Rightarrow> LazyPromise_void" where
  "lvoid_return p = p"

definition lvoid_result :: "LazyPromise_void \<Rightarrow> exc + unit" where
  "lvoid_result p = (case lv_exception p of None \<Rightarrow> Inr () | Some e \<Rightarrow> Inl e)"

definition lvoid_tryResult :: "LazyPromise_void \<Rightarrow> Try_void" where
  "lvoid_tryResult p = \<lparr>error_ptr = lv_exception p\<rparr>"

section \<open>Guards\<close>

definition setLazyLocal :: "nat option \<Rightarrow> nat \<Rightarrow> 'v prog \<Rightarrow> 'v prog result" where
  "setLazyLocal coro local self = (if coro = None then Inl no_handle else ok (setLazyLocalImpl local self))"

text \<open>The callback of \<open>RescheduleLazy::detach\<close>.\<close>

definition detach_callback :: "'v Try_t \<Rightarrow> unit result" where
  "detach_callback t =
     (if hasError t then (case getException t of Inl f \<Rightarrow> Inl f | Inr e \<Rightarrow> throw e) else ok ())"

section \<open>Programs\<close>

datatype lobj = Dead | Lazy_obj "nat option" | Awaiter_obj "nat option"

record 'v lsys =
  lobjs :: "lobj list"
  lmach :: "'v machine"

datatype 'v lop =
    L_call nat "'v prog"
  | L_fail nat
  | L_move nat nat
  | L_await nat nat
  | L_try nat nat
  | L_awaiter_move nat nat
  | L_awaiter_assign nat nat
  | L_body nat "exc + 'v"
  | L_resume nat
  | L_resume_try nat
  | L_delete nat

definition obj :: "nat \<Rightarrow> 'v lsys \<Rightarrow> lobj" where
  "obj x s = (if x < length (lobjs s) then lobjs s ! x else Dead)"

definition set_obj :: "nat \<Rightarrow> lobj \<Rightarrow> 'v lsys \<Rightarrow> 'v lsys" where
  "set_obj x v s = s\<lparr>lobjs := (lobjs s)[x := v]\<rparr>"

abbreviation is_free :: "nat \<Rightarrow> 'v lsys \<Rightarrow> bool" where
  "is_free x s \<equiv> x < length (lobjs s) \<and> obj x s = Dead"

text \<open>The body of an awaited coroutine ends and leaves its result in the promise.\<close>

definition body_ends :: "exc + 'v \<Rightarrow> nat \<Rightarrow> 'v machine \<Rightarrow> 'v machine" where
  "body_ends r h m =
     (case frame_of h m of
        Inl e \<Rightarrow> crash e m
      | Inr f \<Rightarrow> set_frame h (case r of Inl e \<Rightarrow> unhandled_exception e f | Inr v \<Rightarrow> return_value v f) m)"

definition running :: "nat \<Rightarrow> 'v machine \<Rightarrow> bool" where
  "running h m = (case frame_of h m of Inl _ \<Rightarrow> False | Inr f \<Rightarrow> \<not> available (lp_value f))"

text \<open>
  \<open>await_resume\<close> is called when the awaited coroutine is no longer running.  A statement that the types
  or lifetimes forbid is no step.
\<close>

fun lrun :: "'v lop \<Rightarrow> 'v lsys \<Rightarrow> 'v lsys option" where
  "lrun (L_call x p) s =
     (if is_free x s
      then (let (h, m) = get_return_object p (lmach s) in Some ((set_obj x (Lazy_obj h) s)\<lparr>lmach := m\<rparr>)) else None)"
| "lrun (L_fail x) s =
     (if is_free x s then Some (set_obj x (Lazy_obj get_return_object_on_allocation_failure) s) else None)"
| "lrun (L_move x y) s =
     (case obj y s of
        Lazy_obj h \<Rightarrow>
          if is_free x s
          then (let (a, b) = LazyBase_move h in Some (set_obj x (Lazy_obj a) (set_obj y (Lazy_obj b) s))) else None
      | _ \<Rightarrow> None)"
| "lrun (L_await x y) s =
     (case obj y s of
        Lazy_obj h \<Rightarrow>
          if is_free x s
          then (let (a, b) = operator_co_await h in Some (set_obj x (Awaiter_obj a) (set_obj y (Lazy_obj b) s))) else None
      | _ \<Rightarrow> None)"
| "lrun (L_try x y) s =
     (case obj y s of
        Lazy_obj h \<Rightarrow>
          if is_free x s
          then (let (a, b) = coAwaitTry h in Some (set_obj x (Awaiter_obj a) (set_obj y (Lazy_obj b) s))) else None
      | _ \<Rightarrow> None)"
| "lrun (L_awaiter_move x y) s =
     (case obj y s of
        Awaiter_obj h \<Rightarrow>
          if is_free x s
          then (let (a, b) = LazyAwaiterBase_move h in Some (set_obj x (Awaiter_obj a) (set_obj y (Awaiter_obj b) s)))
          else None
      | _ \<Rightarrow> None)"
| "lrun (L_awaiter_assign x y) s =
     (case (obj x s, obj y s) of
        (Awaiter_obj g, Awaiter_obj h) \<Rightarrow>
          (let (a, b) = LazyAwaiterBase_move_assign g h
           in Some (set_obj x (Awaiter_obj a) (set_obj y (Awaiter_obj b) s)))
      | _ \<Rightarrow> None)"
| "lrun (L_body x r) s =
     (case obj x s of
        Awaiter_obj (Some h) \<Rightarrow> if running h (lmach s) then Some (s\<lparr>lmach := body_ends r h (lmach s)\<rparr>) else None
      | _ \<Rightarrow> None)"
| "lrun (L_resume x) s =
     (case obj x s of
        Awaiter_obj (Some h) \<Rightarrow>
          if running h (lmach s) then None
          else (let (a, m) = ValueAwaiter_resume (Some h) (lmach s) in Some ((set_obj x (Awaiter_obj a) s)\<lparr>lmach := m\<rparr>))
      | _ \<Rightarrow> None)"
| "lrun (L_resume_try x) s =
     (case obj x s of
        Awaiter_obj (Some h) \<Rightarrow>
          if running h (lmach s) then None
          else (let (a, m) = TryAwaiter_resume (Some h) (lmach s) in Some ((set_obj x (Awaiter_obj a) s)\<lparr>lmach := m\<rparr>))
      | _ \<Rightarrow> None)"
| "lrun (L_delete x) s =
     (case obj x s of
        Dead \<Rightarrow> None
      | Lazy_obj h \<Rightarrow> Some ((set_obj x Dead s)\<lparr>lmach := LazyBase_delete h (lmach s)\<rparr>)
      | Awaiter_obj h \<Rightarrow> Some ((set_obj x Dead s)\<lparr>lmach := LazyAwaiterBase_delete h (lmach s)\<rparr>))"

inductive lstep :: "'v lsys \<Rightarrow> 'v lsys \<Rightarrow> bool" where
  "lrun op s = Some t \<Longrightarrow> lstep s t"

definition linit :: "'v lsys \<Rightarrow> bool" where
  "linit s \<longleftrightarrow> (\<exists>n L. s = \<lparr>lobjs = replicate n Dead, lmach = machine_new L\<rparr>)"

section \<open>Ownership of frames\<close>

fun handle_holds :: "nat option \<Rightarrow> nat multiset" where
  "handle_holds None = {#}"
| "handle_holds (Some h) = {#h#}"

fun lobj_holds :: "lobj \<Rightarrow> nat multiset" where
  "lobj_holds Dead = {#}"
| "lobj_holds (Lazy_obj h) = handle_holds h"
| "lobj_holds (Awaiter_obj h) = handle_holds h"

interpretation lo: owners lobj_holds Dead
  by unfold_locales simp

definition owned :: "'v lsys \<Rightarrow> nat multiset" where
  "owned s = sum_list (map lobj_holds (lobjs s))"

text \<open>The frames that exist are those that are owned, each by one object.\<close>

definition frames_ok :: "nat multiset \<Rightarrow> 'v machine \<Rightarrow> bool" where
  "frames_ok H m \<longleftrightarrow> broken m = None \<and> {h. frames m h \<noteq> None} = set_mset H \<and> (\<forall>h. count H h \<le> 1)
     \<and> (\<forall>h \<in># H. h < next_frame m \<and> (\<exists>f. frames m h = Some (Lazy_frame f)))"

definition linv :: "'v lsys \<Rightarrow> bool" where
  "linv s \<longleftrightarrow> frames_ok (owned s) (lmach s)"

lemma frames_ok_call:
  assumes "frames_ok H m" and "get_return_object p m = (h, m')"
  shows "frames_ok (H + handle_holds h) m'"
proof -
  have "next_frame m \<notin># H" using assms(1) by (auto simp: frames_ok_def)
  then show ?thesis
    using assms by (auto simp: frames_ok_def get_return_object_def not_in_iff less_Suc_eq)
qed

lemma frames_ok_destroy:
  assumes "frames_ok (add_mset h H) m"
  shows "frames_ok H (destroy h m)" and "handle_destroy h m = destroy h m"
proof -
  have h: "frames m h \<noteq> None" "\<exists>f. frames m h = Some (Lazy_frame f)" using assms by (auto simp: frames_ok_def)
  have "h \<notin># H" using assms by (auto simp: frames_ok_def not_in_iff dest: spec[of _ h])
  moreover have "count H g \<le> 1" for g
  proof -
    have "count (add_mset h H) g \<le> 1" using assms unfolding frames_ok_def by blast
    then show ?thesis by (simp split: if_splits)
  qed
  ultimately show "frames_ok H (destroy h m)" using assms by (auto simp: frames_ok_def destroy_def)
  show "handle_destroy h m = destroy h m" using h by (auto simp: handle_destroy_def)
qed

lemma frames_ok_owned:
  assumes "frames_ok (add_mset h H) m"
  obtains f where "frame_of h m = ok f" "frames m h = Some (Lazy_frame f)"
  using assms by (auto simp: frames_ok_def frame_of_def)

lemma frames_ok_body:
  assumes "frames_ok (add_mset h H) m"
  shows "frames_ok (add_mset h H) (body_ends r h m)"
proof -
  obtain f where f: "frame_of h m = ok f" "frames m h = Some (Lazy_frame f)" using assms by (rule frames_ok_owned)
  have "frames_ok (add_mset h H) (set_frame h g m)" for g using assms f(2) by (auto simp: frames_ok_def)
  then show ?thesis by (simp add: body_ends_def f(1))
qed

lemma frames_ok_resume:
  assumes "frames_ok (add_mset h H) m" and "\<not> running h m"
  shows "ValueAwaiter_resume (Some h) m = (a, m') \<Longrightarrow> frames_ok (H + handle_holds a) m'"
    and "TryAwaiter_resume (Some h) m = (a, m') \<Longrightarrow> frames_ok (H + handle_holds a) m'"
proof -
  obtain f where f: "frame_of h m = ok f" using frames_ok_owned[OF assms(1)] by blast
  then have v: "lp_value f \<noteq> Nothing" using assms(2) by (auto simp: running_def)
  show "ValueAwaiter_resume (Some h) m = (a, m') \<Longrightarrow> frames_ok (H + handle_holds a) m'"
    using f v assms(1) frames_ok_destroy[OF assms(1)] by (auto simp: ValueAwaiter_resume_def promise_result_def split: Try_t.splits)
  show "TryAwaiter_resume (Some h) m = (a, m') \<Longrightarrow> frames_ok (H + handle_holds a) m'"
    using f v assms(1) frames_ok_destroy[OF assms(1)] by (auto simp: TryAwaiter_resume_def tryResult_def split: Try_t.splits)
qed

lemma frames_ok_delete:
  assumes "frames_ok (H + handle_holds h) m"
  shows "frames_ok H (LazyBase_delete h m)" and "frames_ok H (LazyAwaiterBase_delete h m)"
  using assms frames_ok_destroy[of _ H m]
  by (auto simp: LazyBase_delete_def LazyAwaiterBase_delete_def split: option.splits)

text \<open>Changing one object, or two that own together what they owned before.\<close>

lemma linv_set:
  assumes "linv s" and "x < length (lobjs s)"
    and "\<And>H. frames_ok (H + lobj_holds (obj x s)) (lmach s) \<Longrightarrow> frames_ok (H + lobj_holds v) m"
  shows "linv ((set_obj x v s)\<lparr>lmach := m\<rparr>)"
proof -
  have o: "lobjs s ! x = obj x s" using assms(2) by (simp add: obj_def)
  have "frames_ok (lo.others x (lobjs s) + lobj_holds v) m"
    using assms(1) lo.total_others(1)[OF assms(2)] unfolding linv_def owned_def o by (intro assms(3)) simp
  then show ?thesis
    using lo.total_others(2)[OF assms(2), of v] by (simp add: linv_def owned_def set_obj_def)
qed

lemma linv_exchange:
  assumes "linv s" and "x < length (lobjs s)" and "y < length (lobjs s)" and "x \<noteq> y"
    and "lobj_holds (obj x s) + lobj_holds (obj y s) = lobj_holds v + lobj_holds w"
  shows "linv (set_obj x v (set_obj y w s))"
proof -
  have "owned (set_obj x v (set_obj y w s)) = owned s"
    using lo.total_exchange[OF assms(2-4), of v w] assms(2,3,5) by (simp add: owned_def set_obj_def obj_def)
  then show ?thesis using assms(1) by (simp add: linv_def set_obj_def)
qed

lemma obj_alive: "obj x s \<noteq> Dead \<Longrightarrow> x < length (lobjs s)"
  by (simp add: obj_def split: if_splits)

lemma linv_take:
  assumes "linv s" and "obj y s = v" and "v \<noteq> Dead" and "is_free x s" and "lobj_holds v = lobj_holds a + lobj_holds b"
  shows "linv (set_obj x a (set_obj y b s))"
  using assms obj_alive[of y s] by (intro linv_exchange) auto

lemma linv_swap:
  assumes "linv s" and "obj x s = Awaiter_obj g" and "obj y s = Awaiter_obj h"
  shows "linv (set_obj x (Awaiter_obj h) (set_obj y (Awaiter_obj g) s))"
proof (cases "x = y")
  case True
  have l: "x < length (lobjs s)" using assms(2) obj_alive[of x s] by simp
  have g: "g = h" using True assms(2,3) by simp
  have "lobjs s ! x = Awaiter_obj h" using assms(2) g l by (simp add: obj_def)
  then have "(lobjs s)[x := Awaiter_obj h] = lobjs s" by (metis list_update_id)
  then show ?thesis using assms(1) True g by (simp add: set_obj_def)
next
  case False
  then show ?thesis using linv_exchange[OF assms(1) _ _ False] assms(2,3) obj_alive[of x s] obj_alive[of y s] by (simp add: add.commute)
qed

lemma linv_body:
  assumes "linv s" and "obj x s = Awaiter_obj (Some h)"
  shows "linv (s\<lparr>lmach := body_ends r h (lmach s)\<rparr>)"
proof -
  have l: "x < length (lobjs s)" using assms(2) obj_alive[of x s] by simp
  then have "lobjs s ! x = Awaiter_obj (Some h)" using assms(2) by (simp add: obj_def)
  then have "owned s = add_mset h (lo.others x (lobjs s))" using lo.total_others(1)[OF l] unfolding owned_def by simp
  then have "frames_ok (owned s) (body_ends r h (lmach s))" using assms(1) frames_ok_body[of h] unfolding linv_def by simp
  then show ?thesis by (simp add: linv_def owned_def)
qed

lemma linv_delete:
  assumes "linv s"
  shows "obj x s = Lazy_obj h \<Longrightarrow> linv ((set_obj x Dead s)\<lparr>lmach := LazyBase_delete h (lmach s)\<rparr>)"
    and "obj x s = Awaiter_obj h \<Longrightarrow> linv ((set_obj x Dead s)\<lparr>lmach := LazyAwaiterBase_delete h (lmach s)\<rparr>)"
  using linv_set[OF assms, of x Dead] obj_alive[of x s] frames_ok_delete[of _ h "lmach s"] by auto

lemma linv_run: "linv s \<Longrightarrow> lrun op s = Some t \<Longrightarrow> linv t"
proof (induction op s rule: lrun.induct)
  case (1 x p s)
  obtain h m where m: "get_return_object p (lmach s) = (h, m)" by fastforce
  then have "t = (set_obj x (Lazy_obj h) s)\<lparr>lmach := m\<rparr>" "is_free x s" using "1.prems" by (auto split: if_splits)
  then show ?case using linv_set[OF "1.prems"(1), of x "Lazy_obj h" m] frames_ok_call[OF _ m] by auto
next
  case (2 x s)
  then show ?case using linv_set[of s x "Lazy_obj None" "lmach s"]
    by (auto simp: get_return_object_on_allocation_failure_def set_obj_def split: if_splits)
next
  case (3 x y s)
  then show ?case using linv_take[OF "3.prems"(1), of y _ x] by (auto simp: LazyBase_move_def split: lobj.splits if_splits)
next
  case (4 x y s)
  then show ?case using linv_take[OF "4.prems"(1), of y _ x] by (auto simp: operator_co_await_def split: lobj.splits if_splits)
next
  case (5 x y s)
  then show ?case using linv_take[OF "5.prems"(1), of y _ x] by (auto simp: coAwaitTry_def split: lobj.splits if_splits)
next
  case (6 x y s)
  then show ?case using linv_take[OF "6.prems"(1), of y _ x] by (auto simp: LazyAwaiterBase_move_def split: lobj.splits if_splits)
next
  case (7 x y s)
  then show ?case using linv_swap[OF "7.prems"(1), of x _ y]
    by (auto simp: LazyAwaiterBase_move_assign_def split: lobj.splits)
next
  case (8 x r s)
  then show ?case using linv_body[OF "8.prems"(1), of x] by (auto split: lobj.splits option.splits if_splits)
next
  case (9 x s)
  then obtain h a m where o: "obj x s = Awaiter_obj (Some h)" "\<not> running h (lmach s)"
      "ValueAwaiter_resume (Some h) (lmach s) = (a, m)" "t = (set_obj x (Awaiter_obj a) s)\<lparr>lmach := m\<rparr>"
    by (auto simp: Let_def split: lobj.splits option.splits if_splits prod.splits)
  then show ?case using frames_ok_resume(1)[OF _ o(2,3)] obj_alive[of x s] linv_set[OF "9.prems"(1), of x "Awaiter_obj a" m] by simp
next
  case (10 x s)
  then obtain h a m where o: "obj x s = Awaiter_obj (Some h)" "\<not> running h (lmach s)"
      "TryAwaiter_resume (Some h) (lmach s) = (a, m)" "t = (set_obj x (Awaiter_obj a) s)\<lparr>lmach := m\<rparr>"
    by (auto simp: Let_def split: lobj.splits option.splits if_splits prod.splits)
  then show ?case using frames_ok_resume(2)[OF _ o(2,3)] obj_alive[of x s] linv_set[OF "10.prems"(1), of x "Awaiter_obj a" m] by simp
next
  case (11 x s)
  then show ?case using linv_delete[OF "11.prems"(1), of x] by (auto split: lobj.splits)
qed

lemma linit_inv: "linit s \<Longrightarrow> linv s"
proof -
  have "sum_list (map lobj_holds (replicate n Dead)) = {#}" for n by (rule lo.total_empty) auto
  then show "linit s \<Longrightarrow> linv s" by (auto simp: linit_def linv_def owned_def frames_ok_def machine_new_def)
qed

interpretation lz: inv_system linit lstep linv
  by unfold_locales (auto simp: linit_inv elim!: lstep.cases intro: linv_run)

section \<open>Properties\<close>

text \<open>
  C6.  Coroutine frames are owned linearly.  Whatever sequence of calls of coroutine functions, failed
  allocations, moves, \<open>co_await\<close>s, swaps of awaiters, resumptions (with a value or an exception) and destructions a program performs on
  \<open>Lazy\<close> objects and their awaiters, the frames that exist are exactly those that some object owns, no
  frame has two owners, no frame is destroyed twice or used after its destruction; when all objects
  have been destroyed no frame is left.
\<close>

theorem lazy_frames_owned:
  assumes "reach linit lstep s"
  shows "broken (lmach s) = None \<and> {h. frames (lmach s) h \<noteq> None} = set_mset (owned s) \<and> (\<forall>h. count (owned s) h \<le> 1)
    \<and> (set (lobjs s) \<subseteq> {Dead} \<longrightarrow> frames (lmach s) = Map.empty)"
proof -
  have inv: "frames_ok (owned s) (lmach s)" using lz.reach_inv[OF assms] by (simp add: linv_def)
  moreover have "frames (lmach s) = Map.empty" if "set (lobjs s) \<subseteq> {Dead}"
    using inv lo.total_empty[OF that] by (auto simp: frames_ok_def owned_def fun_eq_iff)
  ultimately show ?thesis by (simp add: frames_ok_def)
qed

text \<open>A \<open>Lazy\<close> is created, awaited, and its awaiter moved.\<close>

definition demo_lsys :: "nat lsys" where
  "demo_lsys = the (lrun (L_await 1 0) (the (lrun (L_call 0 (Co_return 7))
     \<lparr>lobjs = [Dead, Dead], lmach = machine_new (\<lambda>_. \<lparr>ll_typeinfo = None, ll_slot = None\<rparr>)\<rparr>)))"

lemma demo_lsys_reach: "reach linit lstep demo_lsys" "lobjs demo_lsys = [Lazy_obj None, Awaiter_obj (Some 0)]"
proof -
  let ?s0 = "\<lparr>lobjs = [Dead, Dead], lmach = machine_new (\<lambda>_. \<lparr>ll_typeinfo = None, ll_slot = None\<rparr>)\<rparr> :: nat lsys"
  let ?s1 = "the (lrun (L_call 0 (Co_return 7)) ?s0)"
  have 1: "lrun (L_call 0 (Co_return 7)) ?s0 = Some ?s1" "lobjs ?s1 = [Lazy_obj (Some 0), Dead]"
    by (simp_all add: obj_def set_obj_def get_return_object_def machine_new_def)
  have 2: "lrun (L_await 1 0) ?s1 = Some demo_lsys" "lobjs demo_lsys = [Lazy_obj None, Awaiter_obj (Some 0)]"
    unfolding demo_lsys_def using 1(2) by (simp_all add: obj_def set_obj_def operator_co_await_def del: lrun.simps(1))
  have "[Dead, Dead] = replicate 2 Dead" by (simp add: numeral_2_eq_2)
  then have 0: "linit ?s0" unfolding linit_def by auto
  have "reach linit lstep ?s0" using 0 by (rule reach_init)
  then have "reach linit lstep ?s1" using reach_step[of linit lstep ?s0 ?s1] lstep.intros[OF 1(1)] by simp
  then show "reach linit lstep demo_lsys" using reach_step[of linit lstep ?s1 demo_lsys] lstep.intros[OF 2(1)] by simp
  show "lobjs demo_lsys = [Lazy_obj None, Awaiter_obj (Some 0)]" by (rule 2(2))
qed

theorem lazy_frames_owned_witness:
  "lobjs demo_lsys = [Lazy_obj None, Awaiter_obj (Some 0)] \<and> {h. frames (lmach demo_lsys) h \<noteq> None} = {0}
     \<and> broken (lmach demo_lsys) = None"
  using lazy_frames_owned[OF demo_lsys_reach(1)] demo_lsys_reach(2) by (simp add: owned_def)

text \<open>
  The promise of \<open>Lazy<void>\<close>, which keeps only an exception pointer, behaves like that of a \<open>Lazy\<close> of a
  unit value once the coroutine has ended.
\<close>

definition void_of :: "unit LazyPromise \<Rightarrow> LazyPromise_void" where
  "void_of f = \<lparr>lv_exception = (case lp_value f of Exception e \<Rightarrow> Some e | _ \<Rightarrow> None)\<rparr>"

lemma void_promise_refines:
  "void_of (unhandled_exception e f) = lvoid_unhandled_exception e (void_of f)"
  "lp_value f = Nothing \<Longrightarrow> void_of (return_value () f) = lvoid_return (void_of f)"
  "lp_value f \<noteq> Nothing \<Longrightarrow> promise_result f = ok (lvoid_result (void_of f))"
  "tryResult f = ok t \<Longrightarrow> to_void t = ok (lvoid_tryResult (void_of f))"
  by (auto simp: void_of_def unhandled_exception_def lvoid_unhandled_exception_def return_value_def lvoid_return_def
      promise_result_def lvoid_result_def tryResult_def lvoid_tryResult_def to_void_def getException_def logicAssert_def
      split: Try_t.splits)

lemma detach_rethrows: "detach_callback (Exception e) = throw e" "detach_callback (Value v) = ok ()"
  by (simp_all add: detach_callback_def getException_def logicAssert_def)

section \<open>Awaiting foreign awaitables\<close>

text \<open>
  \<open>ViaAsyncAwaiter\<close> (async_simple/coro/ViaCoroutine.h) as the executor sees it: it is checked out of when the
  continuation is wrapped, and checked in to with a function, the continuation (\<open>Some h\<close>) or one that
  does nothing (\<open>None\<close>).
\<close>

datatype via_event = Checkout nat "64 word" | Checkin nat "64 word" "nat option" | Goes_on nat

definition wrap_event :: "ViaCoroutine \<Rightarrow> via_event list" where
  "wrap_event v = (case via_ex v of None \<Rightarrow> [] | Some ex \<Rightarrow> [Checkout ex (via_ctx v)])"

definition ViaCoroutine_checkin :: "ViaCoroutine \<Rightarrow> via_event list" where
  "ViaCoroutine_checkin v = (case via_ex v of None \<Rightarrow> [] | Some ex \<Rightarrow> [Checkin ex (via_ctx v) None])"

definition via_final_event :: "ViaCoroutine \<Rightarrow> via_event list" where
  "via_final_event v =
     (case via_ex v of
        None \<Rightarrow> [Goes_on (via_continuation v)] | Some ex \<Rightarrow> [Checkin ex (via_ctx v) (Some (via_continuation v))])"

text \<open>
  What the wrapped awaiter does: it is ready; its \<open>await_suspend\<close> returns nothing, a handle or \<open>true\<close> and the
  wrapped continuation is resumed later; or it returns \<open>false\<close> and the coroutine goes on at once.
\<close>

datatype awaiter_answer = Ready | Suspends | Refuses

definition ViaAsyncAwaiter_await :: "lazy_env \<Rightarrow> nat option \<Rightarrow> nat \<Rightarrow> awaiter_answer \<Rightarrow> via_event list" where
  "ViaAsyncAwaiter_await env ex h a =
     (case a of
        Ready \<Rightarrow> [Goes_on h]
      | Suspends \<Rightarrow> (let v = getWrappedContinuation env ex h in wrap_event v @ via_final_event v)
      | Refuses \<Rightarrow> (let v = getWrappedContinuation env ex h in wrap_event v @ ViaCoroutine_checkin v @ [Goes_on h]))"

text \<open>\<open>ReadyAwaiter\<close>: its answer, and what \<open>await_resume\<close> returns.\<close>

definition ReadyAwaiter_await :: "'v \<Rightarrow> awaiter_answer \<times> 'v" where
  "ReadyAwaiter_await value = (Ready, value)"

fun leaves :: "via_event \<Rightarrow> (nat \<times> 64 word) list" where
  "leaves (Checkout ex c) = [(ex, c)]"
| "leaves _ = []"

fun returns :: "via_event \<Rightarrow> (nat \<times> 64 word) list" where
  "returns (Checkin ex c _) = [(ex, c)]"
| "returns _ = []"

fun continues :: "via_event \<Rightarrow> nat list" where
  "continues (Goes_on h) = [h]"
| "continues (Checkin _ _ (Some h)) = [h]"
| "continues _ = []"

text \<open>
  Every context checked out is checked in to the executor it came from, once, and the coroutine goes on
  exactly once, through the executor when the awaiter has suspended.
\<close>

lemma via_balanced:
  "concat (map leaves (ViaAsyncAwaiter_await env ex h a)) = concat (map returns (ViaAsyncAwaiter_await env ex h a))"
  "concat (map continues (ViaAsyncAwaiter_await env ex h a)) = [h]"
  "a = Suspends \<Longrightarrow> ex \<noteq> None \<Longrightarrow> Goes_on h \<notin> set (ViaAsyncAwaiter_await env ex h a)"
  by (auto simp: ViaAsyncAwaiter_await_def getWrappedContinuation_def wrap_event_def ViaCoroutine_checkin_def
      via_final_event_def Let_def split: awaiter_answer.splits option.splits)

lemma via_final_agrees:
  "via_final_event v = [Goes_on h] \<Longrightarrow> active (ViaCoroutine_final v m) = Some h"
  "via_final_event v = [Checkin ex c (Some h)] \<Longrightarrow> ready_queue (ViaCoroutine_final v m) = ready_queue m @ [(ex, h)]"
  by (auto simp: via_final_event_def ViaCoroutine_final_def split: option.splits)

end
