(* ===== verification/Collect_Model.thy ===== *)
theory Collect_Model
  imports Try_Model
begin

text \<open>
  Waiting for several coroutines or futures: \<open>CountEvent\<close> (async_simple/coro/CountEvent.h),
  \<open>collectAll\<close>, \<open>collectAny\<close> and the windowed variants (async_simple/coro/Collect.h), and
  \<open>collectAll\<close> on futures (async_simple/Collect.h).

  A system has the loop of \<open>await_suspend\<close>, which starts the inputs, and the callbacks of the inputs;
  their atomic accesses interleave.  The values the inputs end with are fixed when the system starts,
  the moments are not.  An access to the awaiter after the coroutine was resumed is a failure, because
  the awaiter lives in the coroutine's frame.
\<close>

section \<open>CountEvent\<close>

record CountEvent =
  ce_count :: "64 word"
  ce_awaitingCoro :: "nat option"

definition CountEvent_new :: "64 word \<Rightarrow> CountEvent" where
  "CountEvent_new n = \<lparr>ce_count = n, ce_awaitingCoro = None\<rparr>"

definition CountEvent_move :: "CountEvent \<Rightarrow> CountEvent \<times> CountEvent" where
  "CountEvent_move other = (other, other\<lparr>ce_count := 0, ce_awaitingCoro := None\<rparr>)"

definition ce_down :: "64 word \<Rightarrow> CountEvent \<Rightarrow> 64 word \<times> nat option \<times> CountEvent" where
  "ce_down n e =
     (let oldCount = ce_count e; e' = e\<lparr>ce_count := oldCount - n\<rparr>
      in if oldCount = 1 then (oldCount, ce_awaitingCoro e, e'\<lparr>ce_awaitingCoro := None\<rparr>)
         else (oldCount, None, e'))"

definition downCount :: "64 word \<Rightarrow> CountEvent \<Rightarrow> 64 word \<times> CountEvent" where
  "downCount n e = (ce_count e, e\<lparr>ce_count := ce_count e - n\<rparr>)"

definition setAwaitingCoro :: "nat \<Rightarrow> CountEvent \<Rightarrow> CountEvent" where
  "setAwaitingCoro h e = e\<lparr>ce_awaitingCoro := Some h\<rparr>"

section \<open>collectAll\<close>

datatype input_pc =
    I_idle
  | I_queued
  | I_running
  | I_count
  | I_emit "64 word" "nat option"
  | I_resume "nat option"
  | I_end

record 'v collect_all =
  ca_vals :: "'v Try_t list"
  ca_execs :: "nat option list"
  ca_para :: bool
  ca_coro :: nat
  ca_next :: nat
  ca_output :: "'v Try_t list"
  ca_event :: CountEvent
  ca_pcs :: "input_pc list"
  ca_emits :: nat
  ca_resumed :: "'v Try_t list list"
  ca_failed :: bool

abbreviation ca_size :: "'v collect_all \<Rightarrow> nat" where
  "ca_size s \<equiv> length (ca_vals s)"

text \<open>The awaiter dies when the coroutine it lives in is resumed.\<close>

definition ca_gone :: "'v collect_all \<Rightarrow> bool" where
  "ca_gone s = (ca_resumed s \<noteq> [])"

definition CollectAllAwaiter_ready :: "'v collect_all \<Rightarrow> bool" where
  "CollectAllAwaiter_ready s = (ca_vals s = [])"

text \<open>Construction, and \<open>await_suspend\<close> up to its loop.  \<open>exs\<close> are the executors of the inputs.\<close>

definition CollectAllAwaiter_new :: "bool \<Rightarrow> nat option \<Rightarrow> nat option list \<Rightarrow> nat \<Rightarrow> 'v Try_t list \<Rightarrow> 'v collect_all" where
  "CollectAllAwaiter_new para executor exs h vals =
     \<lparr>ca_vals = vals, ca_execs = map (\<lambda>e. if e = None then executor else e) exs, ca_para = para, ca_coro = h,
      ca_next = 0, ca_output = replicate (length vals) Nothing,
      ca_event = setAwaitingCoro h (CountEvent_new (of_nat (length vals))),
      ca_pcs = replicate (length vals) I_idle, ca_emits = 0, ca_resumed = [], ca_failed = False\<rparr>"

text \<open>The variadic form differs in the type of its inputs: a tuple, which is never empty.\<close>

definition CollectAllVariadicAwaiter_suspend ::
  "bool \<Rightarrow> nat option \<Rightarrow> nat option list \<Rightarrow> nat \<Rightarrow> 'v Try_t list \<Rightarrow> 'v collect_all" where
  "CollectAllVariadicAwaiter_suspend para executor exs h vals = CollectAllAwaiter_new para executor exs h vals"

text \<open>
  One round of the loop: the input is started in place, or its start is scheduled on its executor
  when the parallel form has more than one input.
\<close>

definition ca_loop :: "'v collect_all \<Rightarrow> 'v collect_all option" where
  "ca_loop s =
     (let i = ca_next s
      in if ca_size s \<le> i then None
         else if ca_gone s then Some (s\<lparr>ca_failed := True\<rparr>)
         else Some (s\<lparr>ca_next := i + 1,
                      ca_pcs := (ca_pcs s)[i := if ca_para s \<and> 1 < ca_size s \<and> ca_execs s ! i \<noteq> None
                                                then I_queued else I_running]\<rparr>))"

text \<open>The atomic steps of input \<open>i\<close>: it is started, ends, and its callback runs.\<close>

definition ca_input :: "nat \<Rightarrow> 'v collect_all \<Rightarrow> 'v collect_all option" where
  "ca_input i s =
     (case ca_pcs s ! i of
        I_idle \<Rightarrow> None
      | I_queued \<Rightarrow> Some (s\<lparr>ca_pcs := (ca_pcs s)[i := I_running]\<rparr>)
      | I_running \<Rightarrow>
          if ca_gone s then Some (s\<lparr>ca_failed := True, ca_pcs := (ca_pcs s)[i := I_end]\<rparr>)
          else Some (s\<lparr>ca_output := (ca_output s)[i := ca_vals s ! i], ca_pcs := (ca_pcs s)[i := I_count]\<rparr>)
      | I_count \<Rightarrow>
          if ca_gone s then Some (s\<lparr>ca_failed := True, ca_pcs := (ca_pcs s)[i := I_end]\<rparr>)
          else (let (old, h, e) = ce_down 1 (ca_event s)
                in Some (s\<lparr>ca_event := e, ca_pcs := (ca_pcs s)[i := I_emit old h]\<rparr>))
      | I_emit old h \<Rightarrow>
          Some (s\<lparr>ca_emits := ca_emits s + (if old = of_nat (ca_size s) then 1 else 0),
                  ca_pcs := (ca_pcs s)[i := I_resume h]\<rparr>)
      | I_resume h \<Rightarrow>
          Some (s\<lparr>ca_resumed := ca_resumed s @ (if h = None then [] else [ca_output s]),
                  ca_pcs := (ca_pcs s)[i := I_end]\<rparr>)
      | I_end \<Rightarrow> None)"

inductive ca_step :: "'v collect_all \<Rightarrow> 'v collect_all \<Rightarrow> bool" where
  ca_loop_step: "ca_loop s = Some t \<Longrightarrow> ca_step s t"
| ca_input_step: "i < ca_size s \<Longrightarrow> ca_input i s = Some t \<Longrightarrow> ca_step s t"

definition ca_init :: "'v collect_all \<Rightarrow> bool" where
  "ca_init s \<longleftrightarrow> (\<exists>para ex exs h vals. s = CollectAllAwaiter_new para ex exs h vals
     \<and> vals \<noteq> [] \<and> length vals < 2 ^ 64)"

subsection \<open>Invariant\<close>

fun counted :: "input_pc \<Rightarrow> bool" where
  "counted (I_emit _ _) = True"
| "counted (I_resume _) = True"
| "counted I_end = True"
| "counted _ = False"

fun holds_coro :: "input_pc \<Rightarrow> bool" where
  "holds_coro (I_emit _ h) = (h \<noteq> None)"
| "holds_coro (I_resume h) = (h \<noteq> None)"
| "holds_coro _ = False"

fun emits_first :: "nat \<Rightarrow> input_pc \<Rightarrow> bool" where
  "emits_first n (I_emit old _) = (unat old = n)"
| "emits_first n _ = False"

definition ca_inv :: "'v collect_all \<Rightarrow> bool" where
  "ca_inv s \<longleftrightarrow>
     ca_vals s \<noteq> [] \<and> ca_size s < 2 ^ 64 \<and> length (ca_pcs s) = ca_size s \<and> length (ca_output s) = ca_size s
     \<and> \<not> ca_failed s
     \<and> unat (ce_count (ca_event s)) + cnt counted (ca_pcs s) = ca_size s
     \<and> (0 < unat (ce_count (ca_event s)) \<longrightarrow> ce_awaitingCoro (ca_event s) = Some (ca_coro s))
     \<and> cnt holds_coro (ca_pcs s) + length (ca_resumed s) = (if unat (ce_count (ca_event s)) = 0 then 1 else 0)
     \<and> cnt (emits_first (ca_size s)) (ca_pcs s) + ca_emits s =
         (if unat (ce_count (ca_event s)) = ca_size s then 0 else 1)
     \<and> (\<forall>i < ca_size s. ca_pcs s ! i = I_idle \<longleftrightarrow> ca_next s \<le> i)
     \<and> (\<forall>i < ca_size s. counted (ca_pcs s ! i) \<or> ca_pcs s ! i = I_count \<longrightarrow> ca_output s ! i = ca_vals s ! i)
     \<and> (\<forall>r \<in> set (ca_resumed s). r = ca_vals s)"


text \<open>An input that has not counted down keeps the coroutine suspended.\<close>

lemma ca_not_gone:
  assumes "ca_inv s" and "i < ca_size s" and "\<not> counted (ca_pcs s ! i)"
  shows "0 < unat (ce_count (ca_event s))" and "\<not> ca_gone s"
proof -
  have "cnt counted (ca_pcs s) < ca_size s"
    using assms cnt_le[of counted "ca_pcs s"] cnt_full[of counted "ca_pcs s"]
    by (auto simp: ca_inv_def le_less)
  then show "0 < unat (ce_count (ca_event s))" using assms(1) by (auto simp: ca_inv_def)
  then show "\<not> ca_gone s" using assms(1) by (auto simp: ca_inv_def ca_gone_def)
qed

lemma ce_down_1:
  assumes "0 < unat (ce_count e)"
  shows "ce_down 1 e =
    (ce_count e, if unat (ce_count e) = 1 then ce_awaitingCoro e else None,
     \<lparr>ce_count = ce_count e - 1, ce_awaitingCoro = (if unat (ce_count e) = 1 then None else ce_awaitingCoro e)\<rparr>)"
    and "unat (ce_count e - 1) = unat (ce_count e) - 1"
proof -
  have "ce_count e \<noteq> 0" using assms by auto
  then show "unat (ce_count e - 1) = unat (ce_count e) - 1" by (rule unat_word_dec)
qed (auto simp: ce_down_def Let_def word_eq_1)

lemma ca_loop_cases:
  assumes "ca_inv s" and "ca_loop s = Some t"
  obtains x where "t = s\<lparr>ca_next := ca_next s + 1, ca_pcs := (ca_pcs s)[ca_next s := x]\<rparr>"
    and "x = I_queued \<or> x = I_running" and "ca_next s < ca_size s" and "ca_pcs s ! ca_next s = I_idle"
    and "length (ca_pcs s) = ca_size s"
proof -
  have i: "ca_next s < ca_size s" using assms(2) by (auto simp: ca_loop_def Let_def split: if_splits)
  have p: "ca_pcs s ! ca_next s = I_idle" "length (ca_pcs s) = ca_size s" using assms(1) i by (auto simp: ca_inv_def)
  have "\<not> ca_gone s" using ca_not_gone(2)[OF assms(1) i] p by simp
  then show thesis
    using that assms(2) i p by (auto simp: ca_loop_def Let_def split: if_splits)
qed

lemma ca_loop_inv:
  assumes "ca_inv s" and "ca_loop s = Some t"
  shows "ca_inv t"
proof -
  let ?i = "ca_next s"
  obtain x where x: "t = s\<lparr>ca_next := ?i + 1, ca_pcs := (ca_pcs s)[?i := x]\<rparr>" "x = I_queued \<or> x = I_running"
    and i: "?i < ca_size s" and p: "ca_pcs s ! ?i = I_idle" "length (ca_pcs s) = ca_size s"
    using ca_loop_cases[OF assms] .
  have "cnt P ((ca_pcs s)[?i := x]) = cnt P (ca_pcs s)" if "\<not> P I_idle" "\<not> P x" for P
    using cnt_update[of ?i "ca_pcs s" P x] that i p by simp
  then have "cnt counted ((ca_pcs s)[?i := x]) = cnt counted (ca_pcs s)"
    "cnt holds_coro ((ca_pcs s)[?i := x]) = cnt holds_coro (ca_pcs s)"
    "cnt (emits_first (ca_size s)) ((ca_pcs s)[?i := x]) = cnt (emits_first (ca_size s)) (ca_pcs s)"
    using x(2) by auto
  then show ?thesis
    using assms(1) x i p by (auto simp: ca_inv_def nth_list_update)
qed

lemma ca_pcs_length: "ca_inv s \<Longrightarrow> length (ca_pcs s) = ca_size s"
  by (simp add: ca_inv_def)

text \<open>What a step of one input does to the counts.\<close>

lemma ca_cnt_same:
  assumes "ca_inv s" and "i < ca_size s" and "P x = P (ca_pcs s ! i)"
  shows "cnt P ((ca_pcs s)[i := x]) = cnt P (ca_pcs s)"
  using cnt_update[of i "ca_pcs s" P x] ca_pcs_length[OF assms(1)] assms(2,3) by (simp split: if_splits)

lemma ca_cnt_more:
  assumes "ca_inv s" and "i < ca_size s" and "P x" and "\<not> P (ca_pcs s ! i)"
  shows "cnt P ((ca_pcs s)[i := x]) = cnt P (ca_pcs s) + 1"
  using cnt_update[of i "ca_pcs s" P x] ca_pcs_length[OF assms(1)] assms(2-4) by simp

lemma ca_cnt_less:
  assumes "ca_inv s" and "i < ca_size s" and "\<not> P x" and "P (ca_pcs s ! i)"
  shows "cnt P (ca_pcs s) = cnt P ((ca_pcs s)[i := x]) + 1"
  using cnt_update[of i "ca_pcs s" P x] ca_pcs_length[OF assms(1)] assms(2-4) by simp

lemma ca_count_inv:
  assumes inv: "ca_inv s" and i: "i < ca_size s" and step: "ca_input i s = Some t" and I_count: "ca_pcs s ! i = I_count"
  shows "ca_inv t"
proof -
  note len = ca_pcs_length[OF inv] and same = ca_cnt_same[OF inv i] and more = ca_cnt_more[OF inv i] and less = ca_cnt_less[OF inv i]
  have idle: "ca_pcs s ! i = I_idle \<longleftrightarrow> ca_next s \<le> i" using inv i unfolding ca_inv_def by blast
  note gone = ca_not_gone[OF inv i]
  let ?c = "ce_count (ca_event s)"
  have pos: "0 < unat ?c" "\<not> ca_gone s" using gone I_count by simp_all
  define h where "h = (if unat ?c = 1 then ce_awaitingCoro (ca_event s) else None)"
  define e where "e = \<lparr>ce_count = ?c - 1, ce_awaitingCoro = (if unat ?c = 1 then None else ce_awaitingCoro (ca_event s))\<rparr>"
  have t: "t = s\<lparr>ca_event := e, ca_pcs := (ca_pcs s)[i := I_emit ?c h]\<rparr>"
    using step pos I_count ce_down_1(1)[OF pos(1)] by (simp add: ca_input_def h_def e_def)
  have e: "unat (ce_count e) = unat ?c - 1" "0 < unat ?c - 1 \<longrightarrow> ce_awaitingCoro e = Some (ca_coro s)"
    using ce_down_1(2)[OF pos(1)] inv pos by (auto simp: e_def ca_inv_def)
  have h: "h \<noteq> None \<longleftrightarrow> unat ?c = 1" "ca_resumed s = []" using inv pos by (auto simp: h_def ca_inv_def)
  have "cnt counted ((ca_pcs s)[i := I_emit ?c h]) = cnt counted (ca_pcs s) + 1" using I_count by (simp add: more)
  moreover have "cnt holds_coro ((ca_pcs s)[i := I_emit ?c h]) = (if unat ?c - 1 = 0 then 1 else 0)"
    using I_count inv pos h by (auto simp: ca_inv_def more same)
  moreover have "cnt (emits_first (ca_size s)) ((ca_pcs s)[i := I_emit ?c h]) + ca_emits s = 1"
    using I_count inv by (cases "unat ?c = ca_size s") (auto simp: ca_inv_def more same)
  moreover have "unat ?c - 1 \<noteq> ca_size s" using inv pos by (auto simp: ca_inv_def)
  moreover have "\<not> ca_next s \<le> i" using idle I_count by simp
  ultimately show ?thesis
    using inv i pos I_count unfolding ca_inv_def t by (simp add: e h nth_list_update)
qed

lemma ca_emit_inv:
  assumes inv: "ca_inv s" and i: "i < ca_size s" and step: "ca_input i s = Some t" and I_emit: "ca_pcs s ! i = I_emit old h"
  shows "ca_inv t"
proof -
  note len = ca_pcs_length[OF inv] and same = ca_cnt_same[OF inv i] and more = ca_cnt_more[OF inv i] and less = ca_cnt_less[OF inv i]
  have idle: "ca_pcs s ! i = I_idle \<longleftrightarrow> ca_next s \<le> i" using inv i unfolding ca_inv_def by blast
  note gone = ca_not_gone[OF inv i]
  have t: "t = s\<lparr>ca_emits := ca_emits s + (if unat old = ca_size s then 1 else 0), ca_pcs := (ca_pcs s)[i := I_resume h]\<rparr>"
    using step I_emit inv word_eq_of_nat[of "ca_size s" old] by (simp add: ca_input_def ca_inv_def)
  have "cnt (emits_first (ca_size s)) (ca_pcs s) =
      cnt (emits_first (ca_size s)) ((ca_pcs s)[i := I_resume h]) + (if unat old = ca_size s then 1 else 0)"
    using I_emit less[of "emits_first (ca_size s)" "I_resume h"] same[of "emits_first (ca_size s)" "I_resume h"] by auto
  moreover have "cnt counted ((ca_pcs s)[i := I_resume h]) = cnt counted (ca_pcs s)"
    "cnt holds_coro ((ca_pcs s)[i := I_resume h]) = cnt holds_coro (ca_pcs s)"
    using I_emit by (simp_all add: same)
  moreover have "\<not> ca_next s \<le> i" using idle I_emit by simp
  ultimately show ?thesis
    using inv i I_emit unfolding ca_inv_def t by (simp add: nth_list_update)
qed

lemma ca_resume_inv:
  assumes inv: "ca_inv s" and i: "i < ca_size s" and step: "ca_input i s = Some t" and I_resume: "ca_pcs s ! i = I_resume h"
  shows "ca_inv t"
proof -
  note len = ca_pcs_length[OF inv] and same = ca_cnt_same[OF inv i] and more = ca_cnt_more[OF inv i] and less = ca_cnt_less[OF inv i]
  have idle: "ca_pcs s ! i = I_idle \<longleftrightarrow> ca_next s \<le> i" using inv i unfolding ca_inv_def by blast
  note gone = ca_not_gone[OF inv i]
  have t: "t = s\<lparr>ca_resumed := ca_resumed s @ (if h = None then [] else [ca_output s]), ca_pcs := (ca_pcs s)[i := I_end]\<rparr>"
    using step I_resume by (simp add: ca_input_def)
  show ?thesis
  proof (cases h)
    case None
    then show ?thesis using t inv i I_resume by (auto simp: ca_inv_def nth_list_update same)
  next
    case (Some a)
    have c: "cnt holds_coro (ca_pcs s) = cnt holds_coro ((ca_pcs s)[i := I_end]) + 1"
      using I_resume Some by (intro less) simp_all
    then have z: "unat (ce_count (ca_event s)) = 0" using inv by (auto simp: ca_inv_def split: if_splits)
    then have "cnt counted (ca_pcs s) = length (ca_pcs s)" using inv by (simp add: ca_inv_def)
    then have "\<forall>j < ca_size s. counted (ca_pcs s ! j)" using len by (metis cnt_full nth_mem)
    then have "ca_output s = ca_vals s" using inv by (auto simp: ca_inv_def intro: nth_equalityI)
    then show ?thesis using t inv i I_resume Some c z by (auto simp: ca_inv_def nth_list_update same)
  qed
qed

lemma ca_input_inv:
  assumes inv: "ca_inv s" and i: "i < ca_size s" and "ca_input i s = Some t"
  shows "ca_inv t"
proof -
  note same = ca_cnt_same[OF inv i]
  note gone = ca_not_gone[OF inv i]
  show ?thesis
  proof (cases "ca_pcs s ! i")
    case I_idle
    then show ?thesis using assms(3) by (simp add: ca_input_def)
  next
    case I_queued
    then have "t = s\<lparr>ca_pcs := (ca_pcs s)[i := I_running]\<rparr>" using assms(3) by (simp add: ca_input_def)
    then show ?thesis using inv i I_queued by (auto simp: ca_inv_def nth_list_update same)
  next
    case I_running
    then have "t = s\<lparr>ca_output := (ca_output s)[i := ca_vals s ! i], ca_pcs := (ca_pcs s)[i := I_count]\<rparr>"
      using assms(3) gone by (simp add: ca_input_def)
    then show ?thesis using inv i I_running by (auto simp: ca_inv_def nth_list_update same)
  next
    case I_count
    then show ?thesis by (rule ca_count_inv[OF assms])
  next
    case (I_emit old h)
    then show ?thesis by (rule ca_emit_inv[OF assms])
  next
    case (I_resume h)
    then show ?thesis by (rule ca_resume_inv[OF assms])
  next
    case I_end
    then show ?thesis using assms(3) by (simp add: ca_input_def)
  qed
qed

lemma ca_init_inv: "ca_init s \<Longrightarrow> ca_inv s"
  by (auto simp: ca_init_def ca_inv_def CollectAllAwaiter_new_def setAwaitingCoro_def CountEvent_new_def
      cnt_replicate unat_of_nat take_bit_nat_eq_self)

text \<open>The rank: what is left to start, and the position of each input.\<close>

fun input_rank :: "input_pc \<Rightarrow> nat" where
  "input_rank I_idle = 6"
| "input_rank I_queued = 5"
| "input_rank I_running = 4"
| "input_rank I_count = 3"
| "input_rank (I_emit _ _) = 2"
| "input_rank (I_resume _) = 1"
| "input_rank I_end = 0"

definition ca_rank :: "'v collect_all \<Rightarrow> nat" where
  "ca_rank s = (\<Sum>p \<leftarrow> ca_pcs s. input_rank p)"

lemma input_rank_update:
  "i < length xs \<Longrightarrow> input_rank x < input_rank (xs ! i) \<Longrightarrow>
     (\<Sum>p \<leftarrow> xs[i := x]. input_rank p) < (\<Sum>p \<leftarrow> xs. input_rank p)"
  using sum_list_update_nat[of i "map input_rank xs" "input_rank x"] by (simp add: map_update)

lemma ca_step_rank:
  assumes "ca_step s t" and "ca_inv s"
  shows "ca_rank t < ca_rank s"
  using assms
proof (cases rule: ca_step.cases)
  case ca_loop_step
  then have "ca_next s < ca_size s" by (auto simp: ca_loop_def Let_def split: if_splits)
  moreover from this have "\<not> ca_gone s" "ca_pcs s ! ca_next s = I_idle" "length (ca_pcs s) = ca_size s"
    using assms(2) ca_not_gone(2)[of s "ca_next s"] by (auto simp: ca_inv_def)
  ultimately show ?thesis
    using ca_loop_step(1) by (auto simp: ca_loop_def ca_rank_def Let_def split: if_splits intro!: input_rank_update)
next
  case (ca_input_step i)
  then have "i < length (ca_pcs s)" using assms(2) by (simp add: ca_inv_def)
  with ca_input_step show ?thesis
    by (auto simp: ca_input_def ca_rank_def Let_def split: input_pc.splits if_splits prod.splits intro!: input_rank_update)
qed

interpretation ca: bounded_system ca_init ca_step ca_inv ca_rank
  by unfold_locales (auto intro: ca_init_inv ca_step_rank ca_loop_inv ca_input_inv elim: ca_step.cases)

text \<open>A state without a step is the end of the collection.\<close>

lemma ca_stuck:
  assumes "ca_inv s" and "\<forall>t. \<not> ca_step s t"
  shows "ca_resumed s = [ca_vals s]" and "ca_emits s = 1" and "ca_pcs s = replicate (ca_size s) I_end"
proof -
  have "ca_loop s = None" using assms(2) ca_loop_step by (metis not_None_eq)
  then have all: "ca_size s \<le> ca_next s" by (auto simp: ca_loop_def Let_def split: if_splits)
  have "ca_pcs s ! i = I_end" if "i < ca_size s" for i
  proof -
    have "ca_input i s = None" using assms(2) that ca_input_step by (metis not_None_eq)
    then have "ca_pcs s ! i = I_idle \<or> ca_pcs s ! i = I_end"
      by (auto simp: ca_input_def Let_def split: input_pc.splits if_splits prod.splits)
    moreover have "ca_pcs s ! i \<noteq> I_idle" using assms(1) that all by (auto simp: ca_inv_def)
    ultimately show ?thesis by blast
  qed
  then show p: "ca_pcs s = replicate (ca_size s) I_end"
    using assms(1) by (auto simp: ca_inv_def intro: nth_equalityI)
  have "unat (ce_count (ca_event s)) = 0" "ca_size s \<noteq> 0" using assms(1) p by (auto simp: ca_inv_def cnt_replicate)
  then show "ca_emits s = 1" "ca_resumed s = [ca_vals s]"
    using assms(1) p by (auto simp: ca_inv_def cnt_replicate length_Suc_conv)
qed

subsection \<open>The abstract collection\<close>

text \<open>
  Inputs finish in any order, each once; when all have finished the values are delivered once, in the
  order of the inputs.
\<close>

record 'v gather =
  g_vals :: "'v Try_t list"
  g_finished :: "nat set"
  g_delivered :: "'v Try_t list option"

inductive gather_step :: "'v gather \<Rightarrow> 'v gather \<Rightarrow> bool" where
  finish: "i < length (g_vals g) \<Longrightarrow> i \<notin> g_finished g \<Longrightarrow> gather_step g (g\<lparr>g_finished := insert i (g_finished g)\<rparr>)"
| deliver: "g_finished g = {..<length (g_vals g)} \<Longrightarrow> g_delivered g = None \<Longrightarrow>
     gather_step g (g\<lparr>g_delivered := Some (g_vals g)\<rparr>)"

definition gather_init :: "'v gather \<Rightarrow> bool" where
  "gather_init g \<longleftrightarrow> g_finished g = {} \<and> g_delivered g = None"

fun written :: "input_pc \<Rightarrow> bool" where
  "written I_count = True"
| "written p = counted p"

definition ca_abs :: "'v collect_all \<Rightarrow> 'v gather" where
  "ca_abs s = \<lparr>g_vals = ca_vals s, g_finished = {i. i < ca_size s \<and> written (ca_pcs s ! i)},
     g_delivered = (case ca_resumed s of [] \<Rightarrow> None | r # _ \<Rightarrow> Some r)\<rparr>"

lemma finished_update:
  assumes "i < n" and "length ps = n" and "written x = written (ps ! i)"
  shows "{j. j < n \<and> written (ps[i := x] ! j)} = {j. j < n \<and> written (ps ! j)}"
  using assms by (auto simp: nth_list_update)

lemma ca_loop_abs:
  assumes "ca_inv s" and "ca_loop s = Some t"
  shows "ca_abs t = ca_abs s"
proof (rule ca_loop_cases[OF assms])
  fix x
  assume t: "t = s\<lparr>ca_next := ca_next s + 1, ca_pcs := (ca_pcs s)[ca_next s := x]\<rparr>"
    and "x = I_queued \<or> x = I_running" "ca_next s < ca_size s" "ca_pcs s ! ca_next s = I_idle"
      "length (ca_pcs s) = ca_size s"
  then have "{j. j < ca_size s \<and> written ((ca_pcs s)[ca_next s := x] ! j)} = {j. j < ca_size s \<and> written (ca_pcs s ! j)}"
    by (intro finished_update) auto
  then show ?thesis by (simp add: t ca_abs_def)
qed

lemma ca_input_abs:
  assumes inv: "ca_inv s" and i: "i < ca_size s" and t: "ca_input i s = Some t"
  shows "ca_abs t = ca_abs s \<or> gather_step (ca_abs s) (ca_abs t)"
proof -
  have len: "length (ca_pcs s) = ca_size s" using inv by (simp add: ca_inv_def)
  note gone = ca_not_gone(2)[OF inv i]
  consider (run) "ca_pcs s ! i = I_running" | (res) h where "ca_pcs s ! i = I_resume (Some h)"
    | (other) "ca_pcs s ! i \<noteq> I_running" "\<And>h. ca_pcs s ! i \<noteq> I_resume (Some h)" by blast
  then show ?thesis
  proof cases
    case run
    then have "t = s\<lparr>ca_output := (ca_output s)[i := ca_vals s ! i], ca_pcs := (ca_pcs s)[i := I_count]\<rparr>"
      using t gone by (simp add: ca_input_def)
    then have "ca_abs t = (ca_abs s)\<lparr>g_finished := insert i (g_finished (ca_abs s))\<rparr>"
      using i len by (auto simp: ca_abs_def nth_list_update)
    moreover have "i < length (g_vals (ca_abs s))" "i \<notin> g_finished (ca_abs s)" using i run by (simp_all add: ca_abs_def)
    ultimately show ?thesis by (metis gather_step.finish)
  next
    case res
    have c: "0 < cnt holds_coro (ca_pcs s)" using cnt_pos[of i "ca_pcs s" holds_coro] i len res by simp
    have "cnt holds_coro (ca_pcs s) + length (ca_resumed s) = (if unat (ce_count (ca_event s)) = 0 then 1 else 0)"
      using inv by (simp only: ca_inv_def)
    with c have z: "unat (ce_count (ca_event s)) = 0" "ca_resumed s = []"
      by (auto simp: length_0_conv[symmetric] simp del: length_0_conv split: if_splits)
    then have "cnt counted (ca_pcs s) = length (ca_pcs s)" using inv by (simp add: ca_inv_def)
    then have all: "\<forall>j < ca_size s. counted (ca_pcs s ! j)" using len by (metis cnt_full nth_mem)
    then have "\<forall>j < ca_size s. written (ca_pcs s ! j)" by (metis written.elims(3) written.simps(1))
    then have g: "g_finished (ca_abs s) = {..<length (g_vals (ca_abs s))}" by (auto simp: ca_abs_def)
    have "ca_output s = ca_vals s" using all inv by (auto simp: ca_inv_def intro: nth_equalityI)
    then have "t = s\<lparr>ca_resumed := [ca_vals s], ca_pcs := (ca_pcs s)[i := I_end]\<rparr>"
      using t res z by (simp add: ca_input_def)
    then have "ca_abs t = (ca_abs s)\<lparr>g_delivered := Some (g_vals (ca_abs s))\<rparr>"
      using i len res z by (simp add: ca_abs_def finished_update)
    moreover have "g_delivered (ca_abs s) = None" using z by (simp add: ca_abs_def)
    ultimately show ?thesis using gather_step.deliver[OF g] by metis
  next
    case other
    have "(\<exists>x. ca_pcs t = (ca_pcs s)[i := x] \<and> written x = written (ca_pcs s ! i))
        \<and> ca_vals t = ca_vals s \<and> ca_resumed t = ca_resumed s"
      using t other gone
      by (cases "ca_pcs s ! i") (auto simp: ca_input_def Let_def split: if_splits prod.splits option.splits)
    then obtain x where "ca_pcs t = (ca_pcs s)[i := x]" "written x = written (ca_pcs s ! i)"
      "ca_vals t = ca_vals s" "ca_resumed t = ca_resumed s" by blast
    then have "ca_abs t = ca_abs s" using finished_update[OF i len, of x] by (simp add: ca_abs_def)
    then show ?thesis ..
  qed
qed

interpretation casim: simulation ca_init ca_step gather_init gather_step ca_abs ca_inv
proof
  show "ca_inv s \<and> gather_init (ca_abs s)" if "ca_init s" for s :: "'a collect_all"
    using ca_init_inv[OF that] that
    by (auto simp: ca_init_def gather_init_def ca_abs_def CollectAllAwaiter_new_def)
  show "ca_inv t \<and> (ca_abs t = ca_abs s \<or> gather_step (ca_abs s) (ca_abs t))"
    if "ca_inv s" "ca_step s t" for s t :: "'a collect_all"
    using that(2) ca.step_inv[OF that] ca_loop_abs[OF that(1)] ca_input_abs[OF that(1)]
    by (auto elim: ca_step.cases)
qed

section \<open>collectAny\<close>

datatype any_pc = A_idle | A_running | A_count | A_won | A_resume | A_end

text \<open>
  The parties are the inputs and, last, the handler that cancels the wait; \<open>cy_resumed\<close> records the
  result that each resumption of the coroutine finds.
\<close>

record 'v collect_any =
  cy_vals :: "'v Try_t list"
  cy_next :: nat
  cy_event :: CountEvent
  cy_pcs :: "any_pc list"
  cy_result :: "(nat \<times> 'v Try_t) option"
  cy_emits :: nat
  cy_resumed :: "(nat \<times> 'v Try_t) option list"
  cy_failed :: bool

abbreviation cy_size :: "'v collect_any \<Rightarrow> nat" where
  "cy_size s \<equiv> length (cy_vals s)"

definition CollectAnyAwaiter_ready :: "'v Try_t list \<Rightarrow> bool \<Rightarrow> bool" where
  "CollectAnyAwaiter_ready input canceled \<longleftrightarrow> input = [] \<or> canceled"

text \<open>
  \<open>await_suspend\<close> before its loop: without a slot no handler is armed; when the slot has been cancelled
  meanwhile the handler is refused and the coroutine goes on at once.
\<close>

definition CollectAnyAwaiter_suspend :: "bool \<Rightarrow> bool \<Rightarrow> 'v Try_t list \<Rightarrow> 'v collect_any option" where
  "CollectAnyAwaiter_suspend has_slot canceled vals =
     (if has_slot \<and> canceled then None
      else Some \<lparr>cy_vals = vals, cy_next = 0, cy_event = CountEvent_new (of_nat (length vals + 1)),
        cy_pcs = replicate (length vals) A_idle @ [if has_slot then A_running else A_idle],
        cy_result = None, cy_emits = 0, cy_resumed = [], cy_failed = False\<rparr>)"

definition cy_loop :: "'v collect_any \<Rightarrow> 'v collect_any option" where
  "cy_loop s =
     (if cy_size s \<le> cy_next s then None
      else Some (s\<lparr>cy_next := cy_next s + 1, cy_pcs := (cy_pcs s)[cy_next s := A_running]\<rparr>))"

text \<open>The callback of an input and the cancellation handler: only the first to count down goes on.\<close>

definition cy_party :: "nat \<Rightarrow> 'v collect_any \<Rightarrow> 'v collect_any option" where
  "cy_party i s =
     (case cy_pcs s ! i of
        A_idle \<Rightarrow> None
      | A_running \<Rightarrow> Some (s\<lparr>cy_pcs := (cy_pcs s)[i := A_count]\<rparr>)
      | A_count \<Rightarrow>
          (let (count, e) = downCount 1 (cy_event s)
           in Some (s\<lparr>cy_event := e,
                      cy_pcs := (cy_pcs s)[i := if count \<noteq> of_nat (cy_size s + 1) then A_end
                                                else if i < cy_size s then A_won else A_resume]\<rparr>))
      | A_won \<Rightarrow>
          Some (s\<lparr>cy_failed := (cy_failed s \<or> cy_resumed s \<noteq> []), cy_result := Some (i, cy_vals s ! i),
                  cy_emits := cy_emits s + 1, cy_pcs := (cy_pcs s)[i := A_resume]\<rparr>)
      | A_resume \<Rightarrow> Some (s\<lparr>cy_resumed := cy_resumed s @ [cy_result s], cy_pcs := (cy_pcs s)[i := A_end]\<rparr>)
      | A_end \<Rightarrow> None)"

record 'v CollectAnyResult =
  car_idx :: "64 word"
  car_value :: "'v Try_t"

definition CollectAnyResult_new :: "'v CollectAnyResult" where
  "CollectAnyResult_new = \<lparr>car_idx = - 1, car_value = Nothing\<rparr>"

definition CollectAnyResult_move :: "'v CollectAnyResult \<Rightarrow> 'v CollectAnyResult \<times> 'v CollectAnyResult" where
  "CollectAnyResult_move other = (other, other\<lparr>car_idx := - 1\<rparr>)"

definition CollectAnyResult_value :: "'v CollectAnyResult \<Rightarrow> 'v result" where
  "CollectAnyResult_value r = try_value_of (car_value r)"

text \<open>The result of a collection of \<open>Lazy<void>\<close> keeps a \<open>Try<void>\<close>.\<close>

record CollectAnyResult_void =
  carv_idx :: "64 word"
  carv_value :: Try_void

definition CollectAnyResult_void_new :: CollectAnyResult_void where
  "CollectAnyResult_void_new = \<lparr>carv_idx = - 1, carv_value = \<lparr>error_ptr = None\<rparr>\<rparr>"

definition CollectAnyResult_void_at :: "64 word \<Rightarrow> CollectAnyResult_void" where
  "CollectAnyResult_void_at idx = \<lparr>carv_idx = idx, carv_value = \<lparr>error_ptr = None\<rparr>\<rparr>"

definition CollectAnyResult_void_move_assign ::
  "CollectAnyResult_void \<Rightarrow> CollectAnyResult_void \<Rightarrow> CollectAnyResult_void \<times> CollectAnyResult_void" where
  "CollectAnyResult_void_move_assign self other =
     (let (v, w) = void_move_assign (carv_value self) (carv_value other)
      in (\<lparr>carv_idx = carv_idx other, carv_value = v\<rparr>, \<lparr>carv_idx = - 1, carv_value = w\<rparr>))"

definition CollectAnyResult_void_hasError :: "CollectAnyResult_void \<Rightarrow> bool" where
  "CollectAnyResult_void_hasError r = void_hasError (carv_value r)"

definition CollectAnyResult_void_getException :: "CollectAnyResult_void \<Rightarrow> exc option" where
  "CollectAnyResult_void_getException r = void_getException (carv_value r)"

text \<open>A move assignment takes over the index and the error; the source is left with the index \<open>-1\<close>.\<close>

lemma any_void_move:
  assumes "CollectAnyResult_void_move_assign self other = (r, rest)"
  shows "carv_idx r = carv_idx other" and "carv_idx rest = - 1"
    and "CollectAnyResult_void_getException r = CollectAnyResult_void_getException other"
  using assms
  by (auto simp: CollectAnyResult_void_move_assign_def CollectAnyResult_void_getException_def void_getException_def
      void_move_assign_def Let_def)

text \<open>\<open>await_resume\<close>: a cancelled slot throws; an empty input gives the index \<open>-1\<close>.\<close>

definition CollectAnyAwaiter_resume :: "bool \<Rightarrow> (nat \<times> 'v Try_t) option \<Rightarrow> 'v CollectAnyResult result" where
  "CollectAnyAwaiter_resume canceled r =
     (if canceled then throw (Signal_exception 1 ''async_simple::CollectAny is canceled!'')
      else case r of None \<Rightarrow> ok CollectAnyResult_new
                   | Some (i, v) \<Rightarrow> ok (fst (CollectAnyResult_move \<lparr>car_idx = of_nat i, car_value = v\<rparr>)))"

text \<open>The variadic form: it is ready only when cancelled, and its result is dereferenced unchecked.\<close>

definition CollectAnyVariadicAwaiter_suspend :: "bool \<Rightarrow> bool \<Rightarrow> 'v Try_t list \<Rightarrow> 'v collect_any option" where
  "CollectAnyVariadicAwaiter_suspend has_slot canceled vals = CollectAnyAwaiter_suspend has_slot canceled vals"

definition CollectAnyVariadicAwaiter_resume :: "bool \<Rightarrow> (nat \<times> 'v Try_t) option \<Rightarrow> (nat \<times> 'v Try_t) result" where
  "CollectAnyVariadicAwaiter_resume canceled r =
     (if canceled then throw (Signal_exception 1 ''async_simple::CollectAny is canceled!'')
      else case r of None \<Rightarrow> Inl (Undefined ''null result'') | Some x \<Rightarrow> ok x)"

inductive cy_step :: "'v collect_any \<Rightarrow> 'v collect_any \<Rightarrow> bool" where
  cy_loop_step: "cy_loop s = Some t \<Longrightarrow> cy_step s t"
| cy_party_step: "i \<le> cy_size s \<Longrightarrow> cy_party i s = Some t \<Longrightarrow> cy_step s t"

definition cy_init :: "'v collect_any \<Rightarrow> bool" where
  "cy_init s \<longleftrightarrow> (\<exists>has_slot vals. CollectAnyAwaiter_suspend has_slot False vals = Some s
     \<and> vals \<noteq> [] \<and> length vals + 1 < 2 ^ 64)"

fun any_counted :: "any_pc \<Rightarrow> bool" where
  "any_counted A_won = True"
| "any_counted A_resume = True"
| "any_counted A_end = True"
| "any_counted _ = False"

fun any_holds :: "any_pc \<Rightarrow> bool" where
  "any_holds A_won = True"
| "any_holds A_resume = True"
| "any_holds _ = False"

definition cy_counts :: "'v collect_any \<Rightarrow> bool" where
  "cy_counts s \<longleftrightarrow>
     cy_size s + 1 < 2 ^ 64 \<and> length (cy_pcs s) = cy_size s + 1
     \<and> unat (ce_count (cy_event s)) + cnt any_counted (cy_pcs s) = cy_size s + 1
     \<and> cnt any_holds (cy_pcs s) + length (cy_resumed s) =
         (if unat (ce_count (cy_event s)) = cy_size s + 1 then 0 else 1)
     \<and> (\<forall>i < cy_size s. cy_pcs s ! i = A_idle \<longleftrightarrow> cy_next s \<le> i)"

fun any_result :: "'v Try_t list \<Rightarrow> (nat \<times> 'v Try_t) option \<Rightarrow> nat \<Rightarrow> bool" where
  "any_result vals None n = (n = 0)"
| "any_result vals (Some (i, v)) n = (n = 1 \<and> i < length vals \<and> v = vals ! i)"

definition cy_result_ok :: "'v collect_any \<Rightarrow> bool" where
  "cy_result_ok s \<longleftrightarrow>
     \<not> cy_failed s
     \<and> any_result (cy_vals s) (cy_result s) (cy_emits s)
     \<and> (unat (ce_count (cy_event s)) = cy_size s + 1 \<longrightarrow> cy_result s = None)
     \<and> (\<forall>i \<le> cy_size s. cy_pcs s ! i = A_won \<longrightarrow> i < cy_size s \<and> cy_result s = None)
     \<and> (\<forall>i < cy_size s. cy_pcs s ! i = A_resume \<longrightarrow> cy_result s = Some (i, cy_vals s ! i))
     \<and> (\<forall>r \<in> set (cy_resumed s). r = cy_result s)
     \<and> (cy_resumed s \<noteq> [] \<longrightarrow> cy_result s \<noteq> None \<or> cy_pcs s ! cy_size s = A_end)"

definition cy_inv :: "'v collect_any \<Rightarrow> bool" where
  "cy_inv s \<longleftrightarrow> cy_counts s \<and> cy_result_ok s"

lemma downCount_1:
  assumes "0 < unat (ce_count e)"
  shows "fst (downCount 1 e) = ce_count e" and "unat (ce_count (snd (downCount 1 e))) = unat (ce_count e) - 1"
proof -
  have "ce_count e \<noteq> 0" using assms by auto
  then show "unat (ce_count (snd (downCount 1 e))) = unat (ce_count e) - 1"
    by (simp add: downCount_def unat_word_dec)
qed (simp add: downCount_def)

lemma cy_pending:
  assumes "cy_counts s" and "i \<le> cy_size s" and "\<not> any_counted (cy_pcs s ! i)"
  shows "0 < unat (ce_count (cy_event s))"
proof -
  have "cnt any_counted (cy_pcs s) < cy_size s + 1"
    using assms cnt_le[of any_counted "cy_pcs s"] cnt_full[of any_counted "cy_pcs s"]
    by (fastforce simp: cy_counts_def le_less)
  then show ?thesis using assms(1) by (simp add: cy_counts_def)
qed

lemma cy_loop_inv:
  assumes "cy_inv s" and "cy_loop s = Some t"
  shows "cy_inv t"
proof -
  let ?i = "cy_next s"
  have i: "?i < cy_size s" "t = s\<lparr>cy_next := ?i + 1, cy_pcs := (cy_pcs s)[?i := A_running]\<rparr>"
    using assms(2) by (auto simp: cy_loop_def split: if_splits)
  have p: "cy_pcs s ! ?i = A_idle" "length (cy_pcs s) = cy_size s + 1"
    using assms(1) i by (auto simp: cy_inv_def cy_counts_def)
  have "cnt any_counted ((cy_pcs s)[?i := A_running]) = cnt any_counted (cy_pcs s)"
    "cnt any_holds ((cy_pcs s)[?i := A_running]) = cnt any_holds (cy_pcs s)"
    using cnt_update[of ?i "cy_pcs s" any_counted A_running] cnt_update[of ?i "cy_pcs s" any_holds A_running] i p
    by simp_all
  then have "cy_counts t" using assms(1) i p by (auto simp: cy_inv_def cy_counts_def nth_list_update)
  moreover have "cy_result_ok t"
    using assms(1) i p unfolding cy_inv_def cy_result_ok_def i(2) by (auto simp: nth_list_update)
  ultimately show ?thesis by (simp add: cy_inv_def)
qed

lemma cy_party_counts:
  assumes inv: "cy_inv s" and i: "i \<le> cy_size s" and "cy_party i s = Some t"
  shows "cy_counts t"
proof -
  have len: "length (cy_pcs s) = cy_size s + 1" and c: "cy_counts s" using inv by (simp_all add: cy_inv_def cy_counts_def)
  have upd: "cnt P ((cy_pcs s)[i := x]) + (if P (cy_pcs s ! i) then 1 else 0) = cnt P (cy_pcs s) + (if P x then 1 else 0)" for P x
    using cnt_update[of i "cy_pcs s" P x] i len by simp
  have idle: "\<forall>j < cy_size s. (cy_pcs s)[i := x] ! j = A_idle \<longleftrightarrow> cy_next s \<le> j"
    if "cy_pcs s ! i \<noteq> A_idle" "x \<noteq> A_idle" for x
  proof -
    have "\<forall>j < cy_size s. cy_pcs s ! j = A_idle \<longleftrightarrow> cy_next s \<le> j" using c unfolding cy_counts_def by blast
    with that i len show ?thesis by (metis less_Suc_eq_le Suc_eq_plus1 nth_list_update_eq nth_list_update_neq)
  qed
  show ?thesis
  proof (cases "cy_pcs s ! i")
    case A_running
    then show ?thesis
      using assms(3) c idle[of A_count] upd[of any_counted A_count] upd[of any_holds A_count]
      by (simp add: cy_party_def cy_counts_def) (auto simp: cy_counts_def)
  next
    case A_count
    let ?c = "ce_count (cy_event s)"
    have pos: "0 < unat ?c" using cy_pending[OF c i] A_count by simp
    define x where "x = (if unat ?c \<noteq> cy_size s + 1 then A_end else if i < cy_size s then A_won else A_resume)"
    define e where "e = snd (downCount 1 (cy_event s))"
    have x: "any_counted x" "any_holds x \<longleftrightarrow> unat ?c = cy_size s + 1" "x \<noteq> A_idle" by (auto simp: x_def)
    have t: "t = s\<lparr>cy_event := e, cy_pcs := (cy_pcs s)[i := x]\<rparr>"
      using assms(3) A_count c word_eq_of_nat[of "cy_size s + 1" ?c] downCount_1(1)[OF pos]
      by (auto simp: cy_party_def cy_counts_def x_def e_def split: prod.splits)
    have "unat (ce_count e) = unat ?c - 1" using downCount_1(2)[OF pos] by (simp add: e_def)
    then show ?thesis
      using c pos x idle[of x] A_count upd[of any_counted x] upd[of any_holds x] unfolding t cy_counts_def
      by (auto split: if_splits)
  next
    case A_won
    then show ?thesis
      using assms(3) c idle[of A_resume] upd[of any_counted A_resume] upd[of any_holds A_resume]
      by (simp add: cy_party_def cy_counts_def) (auto simp: cy_counts_def)
  next
    case A_resume
    then show ?thesis
      using assms(3) c idle[of A_end] upd[of any_counted A_end] upd[of any_holds A_end]
      by (simp add: cy_party_def cy_counts_def)
        (auto simp: cy_counts_def length_0_conv[symmetric] simp del: length_0_conv)
  qed (use assms(3) in \<open>simp_all add: cy_party_def\<close>)
qed

lemma cy_party_result:
  assumes inv: "cy_inv s" and i: "i \<le> cy_size s" and "cy_party i s = Some t"
  shows "cy_result_ok t"
proof -
  have len: "length (cy_pcs s) = cy_size s + 1" and c: "cy_counts s" and r: "cy_result_ok s"
    using inv by (simp_all add: cy_inv_def cy_counts_def)
  have one: "cnt any_holds (cy_pcs s) + length (cy_resumed s) \<le> 1" using c by (simp add: cy_counts_def)
  have alone: "cy_resumed s = []" "\<And>j. j \<le> cy_size s \<Longrightarrow> any_holds (cy_pcs s ! j) \<Longrightarrow> j = i"
    if "any_holds (cy_pcs s ! i)"
  proof -
    have "0 < cnt any_holds (cy_pcs s)" using cnt_pos[of i "cy_pcs s" any_holds] that i len by simp
    then show "cy_resumed s = []" using one by (auto simp: length_0_conv[symmetric] simp del: length_0_conv)
    show "j = i" if "j \<le> cy_size s" "any_holds (cy_pcs s ! j)" for j
      using cnt_unique[of any_holds "cy_pcs s" j i] one that \<open>any_holds (cy_pcs s ! i)\<close> i len by simp
  qed
  show ?thesis
  proof (cases "cy_pcs s ! i")
    case A_running
    then have "t = s\<lparr>cy_pcs := (cy_pcs s)[i := A_count]\<rparr>" using assms(3) by (simp add: cy_party_def)
    then show ?thesis using r i len A_running by (auto simp: cy_result_ok_def nth_list_update)
  next
    case A_count
    let ?c = "ce_count (cy_event s)"
    have pos: "0 < unat ?c" using cy_pending[OF c i] A_count by simp
    define x where "x = (if unat ?c \<noteq> cy_size s + 1 then A_end else if i < cy_size s then A_won else A_resume)"
    define e where "e = snd (downCount 1 (cy_event s))"
    have t: "t = s\<lparr>cy_event := e, cy_pcs := (cy_pcs s)[i := x]\<rparr>"
      using assms(3) A_count c word_eq_of_nat[of "cy_size s + 1" ?c] downCount_1(1)[OF pos]
      by (auto simp: cy_party_def cy_counts_def x_def e_def split: prod.splits)
    have ec: "unat (ce_count e) \<noteq> cy_size s + 1"
      using downCount_1(2)[OF pos] pos c by (auto simp: e_def cy_counts_def)
    have x: "x = A_won \<longrightarrow> i < cy_size s \<and> cy_result s = None" "x = A_resume \<longrightarrow> i = cy_size s"
      "unat ?c = cy_size s + 1 \<longrightarrow> cy_resumed s = []" "unat ?c = cy_size s + 1 \<or> x = A_end"
      using r i c by (auto simp: x_def cy_result_ok_def cy_counts_def)
    have "cy_pcs s ! cy_size s = A_end \<longrightarrow> (cy_pcs s)[i := x] ! cy_size s = A_end" using A_count by (cases "i = cy_size s") auto
    then show ?thesis
      using r i len A_count x ec unfolding t cy_result_ok_def
      by (cases "unat ?c = cy_size s + 1") (auto simp: nth_list_update)
  next
    case A_won
    then have t: "t = s\<lparr>cy_failed := (cy_failed s \<or> cy_resumed s \<noteq> []), cy_result := Some (i, cy_vals s ! i),
        cy_emits := cy_emits s + 1, cy_pcs := (cy_pcs s)[i := A_resume]\<rparr>" using assms(3) by (simp add: cy_party_def)
    have h: "any_holds (cy_pcs s ! i)" using A_won by simp
    have p: "j = i" if "j \<le> cy_size s" "cy_pcs s ! j = A_won \<or> cy_pcs s ! j = A_resume" for j
      using alone(2)[OF h that(1)] that(2) by auto
    have w: "i < cy_size s" "cy_result s = None" "cy_emits s = 0" using r i A_won by (auto simp: cy_result_ok_def)
    have "unat (ce_count (cy_event s)) \<noteq> cy_size s + 1"
      using c cnt_pos[of i "cy_pcs s" any_holds] h i len by (auto simp: cy_counts_def split: if_splits)
    then show ?thesis
      using r i len w alone(1)[OF h] p unfolding t cy_result_ok_def by (auto simp: nth_list_update dest: p[OF less_imp_le])
  next
    case A_resume
    then have t: "t = s\<lparr>cy_resumed := cy_resumed s @ [cy_result s], cy_pcs := (cy_pcs s)[i := A_end]\<rparr>"
      using assms(3) by (simp add: cy_party_def)
    have "cy_resumed s = []" using alone(1) A_resume by simp
    moreover have "i = cy_size s \<or> cy_result s \<noteq> None" using r A_resume i by (auto simp: cy_result_ok_def le_less)
    ultimately show ?thesis using r i len A_resume unfolding t cy_result_ok_def by (auto simp: nth_list_update)
  qed (use assms(3) in \<open>simp_all add: cy_party_def\<close>)
qed

lemma cy_init_inv: "cy_init s \<Longrightarrow> cy_inv s"
  by (auto simp: cy_init_def cy_inv_def cy_counts_def cy_result_ok_def CollectAnyAwaiter_suspend_def
      CountEvent_new_def cnt_def nth_append unat_of_nat take_bit_nat_eq_self simp del: of_nat_Suc of_nat_add split: if_splits)

interpretation cy: inv_system cy_init cy_step cy_inv
proof
  show "cy_inv t" if "cy_inv s" "cy_step s t" for s t :: "'a collect_any"
    using that(2) cy_loop_inv[OF that(1)] cy_party_counts[OF that(1)] cy_party_result[OF that(1)]
    by (auto simp: cy_inv_def elim: cy_step.cases)
qed (rule cy_init_inv)

section \<open>collectAllWindowed\<close>

text \<open>
  The loop of \<open>collectAllWindowedImpl\<close>.  \<open>collect\<close> is the \<open>co_await\<close> of one batch; the result is the
  output, the batches and the number of yields.  The loop is entered with \<open>maxConcurrency \<noteq> 0\<close>.
\<close>

function windowed_loop ::
  "('a list \<Rightarrow> 'b list) \<Rightarrow> nat \<Rightarrow> bool \<Rightarrow> 'a list \<Rightarrow> nat \<Rightarrow> 'b list \<times> 'a list list \<times> nat" where
  "windowed_loop collect maxConcurrency yld input start =
     (if length input \<le> start \<or> maxConcurrency = 0 then ([], [], 0)
      else let fin = min (length input) (start + maxConcurrency);
               tmp_group = take (fin - start) (drop start input);
               (out, gs, ys) = windowed_loop collect maxConcurrency yld input fin
           in (collect tmp_group @ out, tmp_group # gs, (if yld then 1 else 0) + ys))"
  by pat_completeness auto
termination by (relation "measure (\<lambda>(c, m, y, input, start). length input - start)") auto

definition collectAllWindowedImpl ::
  "('a list \<Rightarrow> 'b list) \<Rightarrow> nat \<Rightarrow> bool \<Rightarrow> 'a list \<Rightarrow> 'b list \<times> 'a list list \<times> nat" where
  "collectAllWindowedImpl collect maxConcurrency yld input =
     (if maxConcurrency = 0 \<or> length input \<le> maxConcurrency then (collect input, [input], 0)
      else windowed_loop collect maxConcurrency yld input 0)"

text \<open>Whether the inputs are started through their executors: the template argument of each entry point.\<close>

definition collectAll_para :: bool where "collectAll_para = False"
definition collectAllPara_para :: bool where "collectAllPara_para = True"
definition collectAllWindowed_para :: bool where "collectAllWindowed_para = True"
definition collectAllWindowedPara_para :: bool where "collectAllWindowedPara_para = False"

declare windowed_loop.simps [simp del]

lemma windowed_loop_spec:
  assumes "m \<noteq> 0"
  shows "\<exists>gs. windowed_loop (map f) m yld input start =
      (map f (drop start input), gs, if yld then length gs else 0) \<and> concat gs = drop start input
      \<and> (\<forall>g \<in> set gs. g \<noteq> [] \<and> length g \<le> m)"
proof (induction "length input - start" arbitrary: start rule: less_induct)
  case less
  show ?case
  proof (cases "length input \<le> start")
    case True
    then show ?thesis by (subst windowed_loop.simps) simp
  next
    case False
    define e where "e = min (length input) (start + m)"
    define g where "g = take (e - start) (drop start input)"
    have e: "length input - e < length input - start" "start \<le> e" using False assms by (auto simp: e_def)
    obtain gs where gs: "windowed_loop (map f) m yld input e =
        (map f (drop e input), gs, if yld then length gs else 0)" "concat gs = drop e input"
        "\<forall>g \<in> set gs. g \<noteq> [] \<and> length g \<le> m"
      using less[OF e(1)] by blast
    have split: "g @ drop e input = drop start input"
      using append_take_drop_id[of "e - start" "drop start input"] e(2) by (simp add: g_def)
    then have mf: "map f g @ map f (drop e input) = map f (drop start input)" by (metis map_append)
    have "g \<noteq> []" "length g \<le> m" using False assms by (auto simp: g_def e_def min_def)
    moreover have "windowed_loop (map f) m yld input start =
        (map f (drop start input), g # gs, if yld then length (g # gs) else 0)"
      using False assms gs(1) mf
      by (subst windowed_loop.simps) (simp add: Let_def e_def[symmetric] g_def[symmetric])
    ultimately show ?thesis using gs(2,3) split by (intro exI[of _ "g # gs"]) simp
  qed
qed

section \<open>collectAll on futures\<close>

datatype fut_pc = F_idle | F_waiting | F_drop | F_end

text \<open>
  \<open>fc_refs\<close> counts the owners of the shared context: the call itself and the installed continuations.
  Its destructor sets the promise: \<open>fc_set\<close>.
\<close>

record 'v fut_collect =
  fc_vals :: "'v Try_t list"
  fc_ready :: "bool list"
  fc_next :: nat
  fc_returned :: bool
  fc_results :: "'v Try_t list"
  fc_pcs :: "fut_pc list"
  fc_refs :: nat
  fc_set :: "'v Try_t list list"

abbreviation fc_size :: "'v fut_collect \<Rightarrow> nat" where
  "fc_size s \<equiv> length (fc_vals s)"

text \<open>When every future has its result, a ready future is returned; otherwise the context is made.\<close>

definition collectAll_futures :: "bool list \<Rightarrow> 'v Try_t list \<Rightarrow> 'v Try_t list + 'v fut_collect" where
  "collectAll_futures ready vals =
     (if list_all id ready then Inl vals
      else Inr \<lparr>fc_vals = vals, fc_ready = ready, fc_next = 0, fc_returned = False,
                fc_results = replicate (length vals) Nothing, fc_pcs = replicate (length vals) F_idle,
                fc_refs = 1, fc_set = []\<rparr>)"

text \<open>Dropping a reference; the last one destroys the context.\<close>

definition Context_release :: "'v fut_collect \<Rightarrow> 'v fut_collect" where
  "Context_release s =
     (let s' = s\<lparr>fc_refs := fc_refs s - 1\<rparr>
      in if fc_refs s = 1 then s'\<lparr>fc_set := fc_set s @ [fc_results s]\<rparr> else s')"

definition fc_loop :: "'v fut_collect \<Rightarrow> 'v fut_collect option" where
  "fc_loop s =
     (let i = fc_next s
      in if fc_returned s then None
         else if fc_size s \<le> i then Some (Context_release (s\<lparr>fc_returned := True\<rparr>))
         else if fc_ready s ! i
         then Some (s\<lparr>fc_next := i + 1, fc_results := (fc_results s)[i := fc_vals s ! i], fc_pcs := (fc_pcs s)[i := F_end]\<rparr>)
         else Some (s\<lparr>fc_next := i + 1, fc_refs := fc_refs s + 1, fc_pcs := (fc_pcs s)[i := F_waiting]\<rparr>))"

text \<open>The continuation of future \<open>i\<close> runs once the future has its result, and is then destroyed.\<close>

definition fc_callback :: "nat \<Rightarrow> 'v fut_collect \<Rightarrow> 'v fut_collect option" where
  "fc_callback i s =
     (case fc_pcs s ! i of
        F_waiting \<Rightarrow>
          if fc_ready s ! i
          then Some (s\<lparr>fc_results := (fc_results s)[i := fc_vals s ! i], fc_pcs := (fc_pcs s)[i := F_drop]\<rparr>)
          else None
      | F_drop \<Rightarrow> Some (Context_release (s\<lparr>fc_pcs := (fc_pcs s)[i := F_end]\<rparr>))
      | _ \<Rightarrow> None)"

inductive fc_step :: "'v fut_collect \<Rightarrow> 'v fut_collect \<Rightarrow> bool" where
  fc_loop_step: "fc_loop s = Some t \<Longrightarrow> fc_step s t"
| fc_callback_step: "i < fc_size s \<Longrightarrow> fc_callback i s = Some t \<Longrightarrow> fc_step s t"
| fc_result_step: "i < fc_size s \<Longrightarrow> \<not> fc_ready s ! i \<Longrightarrow> fc_step s (s\<lparr>fc_ready := (fc_ready s)[i := True]\<rparr>)"

definition fc_init :: "'v fut_collect \<Rightarrow> bool" where
  "fc_init s \<longleftrightarrow> (\<exists>ready vals. length ready = length vals \<and> collectAll_futures ready vals = Inr s)"

fun fc_owns :: "fut_pc \<Rightarrow> bool" where
  "fc_owns F_waiting = True"
| "fc_owns F_drop = True"
| "fc_owns _ = False"

definition fc_shape :: "'v fut_collect \<Rightarrow> bool" where
  "fc_shape s \<longleftrightarrow>
     length (fc_ready s) = fc_size s \<and> length (fc_results s) = fc_size s \<and> length (fc_pcs s) = fc_size s
     \<and> (fc_returned s \<longrightarrow> fc_size s \<le> fc_next s)
     \<and> (\<forall>i < fc_size s. fc_pcs s ! i = F_idle \<longleftrightarrow> fc_next s \<le> i)
     \<and> (\<forall>i < fc_size s. fc_pcs s ! i = F_drop \<or> fc_pcs s ! i = F_end \<longrightarrow> fc_results s ! i = fc_vals s ! i)"

definition fc_owners :: "'v fut_collect \<Rightarrow> nat" where
  "fc_owners s = (if fc_returned s then 0 else 1) + cnt fc_owns (fc_pcs s)"

definition fc_inv :: "'v fut_collect \<Rightarrow> bool" where
  "fc_inv s \<longleftrightarrow> fc_shape s \<and> fc_refs s = fc_owners s \<and> fc_set s = (if fc_refs s = 0 then [fc_vals s] else [])"

text \<open>Without owners every future has delivered its result.\<close>

lemma fc_complete:
  assumes "fc_shape s" and "fc_owners s = 0"
  shows "fc_results s = fc_vals s"
proof (rule nth_equalityI)
  show "length (fc_results s) = fc_size s" using assms(1) by (simp add: fc_shape_def)
  fix i
  assume "i < length (fc_results s)"
  then have i: "i < fc_size s" using assms(1) by (simp add: fc_shape_def)
  have "fc_returned s" "cnt fc_owns (fc_pcs s) = 0" using assms(2) by (auto simp: fc_owners_def split: if_splits)
  then have "\<not> fc_owns (fc_pcs s ! i)" "fc_pcs s ! i \<noteq> F_idle"
    using assms(1) i by (auto simp: fc_shape_def cnt_0)
  then show "fc_results s ! i = fc_vals s ! i"
    using assms(1) i by (cases "fc_pcs s ! i") (auto simp: fc_shape_def)
qed

lemma release_inv:
  assumes "fc_shape s" and "fc_refs s = fc_owners s + 1" and "fc_set s = []"
  shows "fc_inv (Context_release s)"
proof -
  have "fc_shape (s\<lparr>fc_refs := r, fc_set := x\<rparr>)" "fc_owners (s\<lparr>fc_refs := r, fc_set := x\<rparr>) = fc_owners s"
    "fc_shape (s\<lparr>fc_refs := r\<rparr>)" "fc_owners (s\<lparr>fc_refs := r\<rparr>) = fc_owners s" for r x
    using assms(1) by (simp_all add: fc_shape_def fc_owners_def)
  then show ?thesis using assms fc_complete[OF assms(1)] by (auto simp: Context_release_def fc_inv_def Let_def)
qed

lemma fc_shape_update:
  assumes "fc_shape s" and "i < fc_size s" and "x \<noteq> F_idle" and "n = fc_next s \<and> fc_pcs s ! i \<noteq> F_idle \<or> n = i + 1 \<and> i = fc_next s"
    and "\<not> fc_returned s \<or> n = fc_next s"
    and "rs = (fc_results s)[i := fc_vals s ! i] \<or> rs = fc_results s \<and> x = F_waiting \<or> rs = fc_results s \<and> fc_pcs s ! i = F_drop"
  shows "fc_shape (s\<lparr>fc_next := n, fc_results := rs, fc_pcs := (fc_pcs s)[i := x]\<rparr>)"
  using assms by (auto simp: fc_shape_def nth_list_update)

lemma fc_owns_update:
  assumes "fc_shape s" and "i < fc_size s"
  shows "cnt fc_owns ((fc_pcs s)[i := x]) + (if fc_owns (fc_pcs s ! i) then 1 else 0) =
    cnt fc_owns (fc_pcs s) + (if fc_owns x then 1 else 0)"
  using cnt_update[of i "fc_pcs s" fc_owns x] assms by (simp add: fc_shape_def)

lemma fc_loop_inv:
  assumes inv: "fc_inv s" and "fc_loop s = Some t"
  shows "fc_inv t"
proof -
  let ?i = "fc_next s"
  have sh: "fc_shape s" and r: "fc_refs s = fc_owners s" and nr: "\<not> fc_returned s" and e: "fc_set s = []"
    using assms by (auto simp: fc_inv_def fc_loop_def fc_owners_def Let_def split: if_splits)
  show ?thesis
  proof (cases "fc_size s \<le> ?i")
    case True
    then have "t = Context_release (s\<lparr>fc_returned := True\<rparr>)" using assms(2) nr by (simp add: fc_loop_def Let_def)
    moreover have "fc_shape (s\<lparr>fc_returned := True\<rparr>)" using sh True by (auto simp: fc_shape_def)
    ultimately show ?thesis using r nr e by (simp add: release_inv fc_owners_def)
  next
    case False
    then have i: "?i < fc_size s" by simp
    then have idle: "fc_pcs s ! ?i = F_idle" using sh by (simp add: fc_shape_def)
    define x where "x = (if fc_ready s ! ?i then F_end else F_waiting)"
    define rs where "rs = (if fc_ready s ! ?i then (fc_results s)[?i := fc_vals s ! ?i] else fc_results s)"
    define n where "n = (if fc_ready s ! ?i then fc_refs s else fc_refs s + 1)"
    have t: "t = s\<lparr>fc_next := ?i + 1, fc_results := rs, fc_pcs := (fc_pcs s)[?i := x], fc_refs := n\<rparr>"
      using assms(2) nr False by (cases s) (simp add: fc_loop_def Let_def x_def rs_def n_def split: if_splits)
    have x: "x = F_end \<and> rs = (fc_results s)[?i := fc_vals s ! ?i] \<and> n = fc_refs s
        \<or> x = F_waiting \<and> rs = fc_results s \<and> n = fc_refs s + 1"
      by (simp add: x_def rs_def n_def)
    let ?s = "s\<lparr>fc_next := ?i + 1, fc_results := rs, fc_pcs := (fc_pcs s)[?i := x]\<rparr>"
    have "fc_shape ?s" using x nr by (intro fc_shape_update[OF sh i]) auto
    then have "fc_shape t" by (simp add: t fc_shape_def)
    moreover have "fc_owners t = n" using fc_owns_update[OF sh i, of x] x idle r by (auto simp: t fc_owners_def)
    moreover have "0 < n" using x r nr by (auto simp: fc_owners_def)
    ultimately show ?thesis using e by (simp add: fc_inv_def t)
  qed
qed

lemma fc_callback_inv:
  assumes inv: "fc_inv s" and i: "i < fc_size s" and "fc_callback i s = Some t"
  shows "fc_inv t"
proof -
  have sh: "fc_shape s" and r: "fc_refs s = fc_owners s" using inv by (simp_all add: fc_inv_def)
  have own: "fc_owns (fc_pcs s ! i)" "fc_pcs s ! i \<noteq> F_idle"
    using assms(3) by (auto simp: fc_callback_def split: fut_pc.splits)
  have "fc_refs s \<noteq> 0"
    using cnt_pos[of i "fc_pcs s" fc_owns] i own sh r by (auto simp: fc_owners_def fc_shape_def)
  then have e: "fc_set s = []" using inv by (simp add: fc_inv_def)
  show ?thesis
  proof (cases "fc_pcs s ! i")
    case F_waiting
    let ?t = "s\<lparr>fc_next := fc_next s, fc_results := (fc_results s)[i := fc_vals s ! i], fc_pcs := (fc_pcs s)[i := F_drop]\<rparr>"
    have "t = ?t" using assms(3) F_waiting by (simp add: fc_callback_def split: if_splits)
    moreover have "fc_shape ?t" using own by (intro fc_shape_update[OF sh i]) auto
    moreover have "fc_owners ?t = fc_owners s"
      using fc_owns_update[OF sh i, of F_drop] F_waiting by (simp add: fc_owners_def)
    ultimately show ?thesis using r e \<open>fc_refs s \<noteq> 0\<close> by (simp add: fc_inv_def)
  next
    case F_drop
    let ?t = "s\<lparr>fc_next := fc_next s, fc_results := fc_results s, fc_pcs := (fc_pcs s)[i := F_end]\<rparr>"
    have "t = Context_release ?t" using assms(3) F_drop by (simp add: fc_callback_def)
    moreover have "fc_shape ?t" using own F_drop by (intro fc_shape_update[OF sh i]) auto
    moreover have "fc_refs ?t = fc_owners ?t + 1"
      using fc_owns_update[OF sh i, of F_end] F_drop r by (simp add: fc_owners_def)
    ultimately show ?thesis using e by (simp add: release_inv)
  qed (use own in simp_all)
qed

lemma fc_result_inv:
  "fc_inv s \<Longrightarrow> fc_inv (s\<lparr>fc_ready := (fc_ready s)[i := True]\<rparr>)"
  by (simp add: fc_inv_def fc_shape_def fc_owners_def)

lemma fc_init_inv: "fc_init s \<Longrightarrow> fc_inv s"
  by (auto simp: fc_init_def fc_inv_def fc_shape_def fc_owners_def collectAll_futures_def cnt_replicate split: if_splits)

fun fut_rank :: "fut_pc \<Rightarrow> nat" where
  "fut_rank F_idle = 3"
| "fut_rank F_waiting = 2"
| "fut_rank F_drop = 1"
| "fut_rank F_end = 0"

definition fc_rank :: "'v fut_collect \<Rightarrow> nat" where
  "fc_rank s = (\<Sum>p \<leftarrow> fc_pcs s. fut_rank p) + cnt Not (fc_ready s) + (if fc_returned s then 0 else 1)"

lemma fut_rank_update:
  "i < length xs \<Longrightarrow> fut_rank x < fut_rank (xs ! i) \<Longrightarrow>
     (\<Sum>p \<leftarrow> xs[i := x]. fut_rank p) < (\<Sum>p \<leftarrow> xs. fut_rank p)"
  using sum_list_update_nat[of i "map fut_rank xs" "fut_rank x"] by (simp add: map_update)

lemma fc_step_rank:
  assumes "fc_step s t" and "fc_inv s"
  shows "fc_rank t < fc_rank s"
  using assms(1)
proof (cases rule: fc_step.cases)
  case fc_loop_step
  have "fc_pcs s ! fc_next s = F_idle" "fc_next s < length (fc_pcs s)" if "fc_next s < fc_size s"
    using that assms(2) by (simp_all add: fc_inv_def fc_shape_def)
  then have "(\<Sum>p \<leftarrow> (fc_pcs s)[fc_next s := x]. fut_rank p) < (\<Sum>p \<leftarrow> fc_pcs s. fut_rank p)"
    if "fc_next s < fc_size s" "fut_rank x < 3" for x using that by (intro fut_rank_update) simp_all
  from this[of F_end] this[of F_waiting] show ?thesis
    using fc_loop_step by (auto simp: fc_loop_def fc_rank_def Context_release_def Let_def split: if_splits)
next
  case (fc_callback_step i)
  then have "i < length (fc_pcs s)" using assms(2) by (simp add: fc_inv_def fc_shape_def)
  then show ?thesis
    using fc_callback_step
    by (auto simp: fc_callback_def fc_rank_def Context_release_def Let_def split: fut_pc.splits if_splits intro!: fut_rank_update)
next
  case (fc_result_step i)
  then have "i < length (fc_ready s)" using assms(2) by (simp add: fc_inv_def fc_shape_def)
  then show ?thesis
    using fc_result_step cnt_update[of i "fc_ready s" Not True] by (simp add: fc_rank_def)
qed

interpretation fc: bounded_system fc_init fc_step fc_inv fc_rank
  by unfold_locales
    (auto intro: fc_init_inv fc_step_rank fc_loop_inv fc_callback_inv fc_result_inv elim: fc_step.cases)

lemma fc_stuck:
  assumes "fc_inv s" and "\<forall>t. \<not> fc_step s t"
  shows "fc_set s = [fc_vals s]"
proof -
  have "fc_loop s = None" using assms(2) fc_loop_step by (metis not_None_eq)
  then have ret: "fc_returned s" by (auto simp: fc_loop_def Let_def split: if_splits)
  have "\<not> fc_owns (fc_pcs s ! i)" if "i < fc_size s" for i
  proof -
    have "fc_callback i s = None" using assms(2) that fc_callback_step by (metis not_None_eq)
    moreover have "fc_ready s ! i" using assms(2) that fc_result_step by blast
    ultimately show ?thesis by (auto simp: fc_callback_def split: fut_pc.splits)
  qed
  then have "cnt fc_owns (fc_pcs s) = 0" using assms(1) by (auto simp: cnt_0 fc_inv_def fc_shape_def in_set_conv_nth)
  then show ?thesis using assms(1) ret by (simp add: fc_inv_def fc_owners_def)
qed

section \<open>Properties\<close>


definition demo_all :: "nat collect_all" where
  "demo_all = CollectAllAwaiter_new True (Some 3) [None, Some 4] 9 [Value 7, Exception (User_exc 2)]"

lemma demo_all_reach: "reach ca_init ca_step demo_all"
  by (rule reach_init, unfold ca_init_def demo_all_def, (rule exI)+, rule conjI, rule refl) simp



definition demo_any :: "nat collect_any" where
  "demo_any = \<lparr>cy_vals = [Value 7], cy_next = 0, cy_event = CountEvent_new 2, cy_pcs = [A_idle, A_running],
     cy_result = None, cy_emits = 0, cy_resumed = [], cy_failed = False\<rparr>"

lemma demo_any_reach: "reach cy_init cy_step demo_any"
  by (rule reach_init) (auto simp: cy_init_def demo_any_def CollectAnyAwaiter_suspend_def intro: exI[of _ True] exI[of _ "[Value 7]"])


text \<open>
  The windowed collection gives the results of all inputs in order; its batches are consecutive
  parts of the input, none is empty or longer than \<open>maxConcurrency\<close>, and it yields once per batch when
  asked to.  With \<open>maxConcurrency\<close> zero or not below the number of inputs there is one batch.
\<close>

theorem windowed_collects:
  assumes "input \<noteq> []"
  shows "\<exists>gs ys. collectAllWindowedImpl (map f) m yld input = (map f input, gs, ys) \<and> concat gs = input
    \<and> (\<forall>g \<in> set gs. g \<noteq> [] \<and> (m = 0 \<or> length g \<le> m))
    \<and> (if m = 0 \<or> length input \<le> m then length gs = 1 \<and> ys = 0 else ys = (if yld then length gs else 0))"
proof (cases "m = 0 \<or> length input \<le> m")
  case True
  then show ?thesis using assms by (auto simp: collectAllWindowedImpl_def)
next
  case False
  then obtain gs where "windowed_loop (map f) m yld input 0 = (map f (drop 0 input), gs, if yld then length gs else 0)"
      "concat gs = drop 0 input" "\<forall>g \<in> set gs. g \<noteq> [] \<and> length g \<le> m"
    using windowed_loop_spec[of m f yld input 0] by blast
  then show ?thesis using False by (auto simp: collectAllWindowedImpl_def)
qed

theorem windowed_collects_witness:
  "\<exists>gs ys. collectAllWindowedImpl (map Suc) 2 True [1, 2, 3, 4, 5] = ([2, 3, 4, 5, 6], gs, ys) \<and> concat gs = [1, 2, 3, 4, 5]"
  using windowed_collects[of "[1, 2, 3, 4, 5]" Suc 2 True] by auto

text \<open>
  C26.  \<open>collectAll\<close> on futures, however the futures become ready during and after its loop: the promise
  is set at most once, with the results of all futures in the order of the futures, exactly when the
  last owner of the context is gone.  Every run takes at most \<open>fc_rank\<close> steps, can be continued to its
  end, and there the promise has been set.
\<close>

theorem future_collect_all:
  assumes "reach fc_init fc_step s"
  shows "fc_set s = (if fc_refs s = 0 then [fc_vals s] else [])
    \<and> (\<exists>n t. steps fc_step n s t \<and> (\<forall>u. \<not> fc_step t u))
    \<and> (\<forall>n t. steps fc_step n s t \<longrightarrow> n \<le> fc_rank s \<and> ((\<forall>u. \<not> fc_step t u) \<longrightarrow> fc_set t = [fc_vals t]))"
proof -
  have inv: "fc_inv s" using assms by (rule fc.reach_inv)
  moreover have "n \<le> fc_rank s \<and> ((\<forall>u. \<not> fc_step t u) \<longrightarrow> fc_set t = [fc_vals t])" if "steps fc_step n s t" for n t
    using fc.steps_bound[OF inv that] fc_stuck[OF fc.steps_inv[OF inv that]] by auto
  ultimately show ?thesis using fc.run_to_end[OF inv] by (simp add: fc_inv_def)
qed

definition demo_fut :: "nat fut_collect" where
  "demo_fut = \<lparr>fc_vals = [Value 1, Value 2], fc_ready = [True, False], fc_next = 0, fc_returned = False,
     fc_results = [Nothing, Nothing], fc_pcs = [F_idle, F_idle], fc_refs = 1, fc_set = []\<rparr>"

lemma demo_fut_reach: "reach fc_init fc_step demo_fut"
  by (rule reach_init)
    (auto simp: fc_init_def demo_fut_def collectAll_futures_def intro: exI[of _ "[True, False]"] exI[of _ "[Value 1, Value 2]"])

theorem future_collect_all_witness:
  "\<exists>n t. steps fc_step n demo_fut t \<and> (\<forall>u. \<not> fc_step t u)"
  using future_collect_all[OF demo_fut_reach] by blast

end
