(* ===== verification/Uthread_Model.thy ===== *)
theory Uthread_Model
  imports FutureState_Model
begin

text \<open>
  Stackful coroutines (async_simple/uthread).

  \<open>fibers\<close> is the part of one operating-system thread that \<open>thread.cc\<close> works on: the structure
  \<open>jmp_buf_link\<close> of every uthread and of the thread itself (\<open>Main\<close>, \<open>g_unthreaded_context\<close>), the
  variable \<open>g_current_context\<close>, which fiber executes, and where every other fiber is suspended.  The
  assembler routine \<open>_fl_jump_fcontext\<close> is a parameter of the code with the behaviour its authors
  document: it suspends the caller, resumes the given context and hands it the caller's context.
  A context is a token: the fiber it will resume.
\<close>

section \<open>Stack sizes\<close>

definition default_base_stack_size :: "64 word" where
  "default_base_stack_size = 512 * 1024"

text \<open>
  \<open>get_base_stack_size\<close>: the cached size, else the environment variable in KiB, as \<open>strtoll\<close> reads it,
  else the default.  The multiplication is on 64-bit signed numbers.
\<close>

definition get_base_stack_size :: "64 word \<Rightarrow> int option \<Rightarrow> 64 word result" where
  "get_base_stack_size cached env =
     (if cached \<noteq> 0 then ok cached
      else case env of
             None \<Rightarrow> ok default_base_stack_size
           | Some kb \<Rightarrow>
               if 0 < kb \<and> kb < 2 ^ 63 - 1
               then if 1024 * kb < 2 ^ 63 then ok (word_of_int (1024 * kb))
                    else Inl (Undefined ''signed overflow'')
               else ok default_base_stack_size)"

text \<open>\<open>get_stack_holder\<close> takes an \<open>unsigned\<close>: the bytes it allocates for a stack of the given size.\<close>

definition get_stack_holder :: "32 word \<Rightarrow> nat" where
  "get_stack_holder stack_size = unat stack_size"

definition make_stack :: "64 word \<Rightarrow> nat" where
  "make_stack stack_size = get_stack_holder (ucast stack_size)"

text \<open>The offset of the initial stack pointer that \<open>setup\<close> passes to \<open>_fl_make_fcontext\<close>.\<close>

definition stack_top :: "64 word \<Rightarrow> nat" where
  "stack_top stack_size = unat stack_size"

section \<open>Context switches\<close>

datatype fiber = Main | U nat

text \<open>Where a suspended fiber continues: in \<open>s_main\<close>, after the jump in the \<open>switch_in\<close> of a uthread, or after its own \<open>switch_out\<close>.\<close>

datatype point = P_start | P_in nat | P_out | P_dead

record fibers =
  fcontext :: "fiber \<Rightarrow> fiber option"
  link :: "nat \<Rightarrow> fiber option"
  thread_of :: "fiber \<Rightarrow> nat option"
  g_current_context :: "fiber option"
  exec :: fiber
  point_of :: "fiber \<Rightarrow> point option"
  fiber_error :: "failure option"

definition fibers_new :: fibers where
  "fibers_new = \<lparr>fcontext = (\<lambda>_. None), link = (\<lambda>_. None), thread_of = (\<lambda>_. None), g_current_context = None,
     exec = Main, point_of = (\<lambda>_. None), fiber_error = None\<rparr>"

definition fiber_fail :: "failure \<Rightarrow> fibers \<Rightarrow> fibers" where
  "fiber_fail e s = s\<lparr>fiber_error := Some e\<rparr>"

text \<open>What the resumed fiber does with the context of the fiber that jumped to it.\<close>

definition landing :: "fiber \<Rightarrow> fiber \<Rightarrow> fibers \<Rightarrow> fibers" where
  "landing to jumper s =
     (case (point_of s to, to) of
        (Some P_start, U i) \<Rightarrow>
          if Option.bind (g_current_context s) (thread_of s) \<noteq> Some i
          then fiber_fail (Assert_fail ''g_current_context->thread == q'') s
          else (case link s i of
                  None \<Rightarrow> fiber_fail (Undefined ''null link'') s
                | Some l \<Rightarrow> s\<lparr>fcontext := (fcontext s)(l := Some jumper)\<rparr>)
      | (Some (P_in i), _) \<Rightarrow> s\<lparr>fcontext := (fcontext s)(U i := Some jumper)\<rparr>
      | (Some P_out, U i) \<Rightarrow>
          (case link s i of
             None \<Rightarrow> fiber_fail (Undefined ''null link'') s
           | Some l \<Rightarrow> s\<lparr>fcontext := (fcontext s)(l := Some jumper)\<rparr>)
      | _ \<Rightarrow> fiber_fail (Undefined ''jump to a fiber that is not suspended'') s)"

text \<open>\<open>_fl_jump_fcontext\<close>: the executing fiber is suspended at \<open>p\<close> and the fiber of the token continues.\<close>

definition jump_fcontext :: "fiber option \<Rightarrow> point \<Rightarrow> fibers \<Rightarrow> fibers" where
  "jump_fcontext target p s =
     (case target of
        None \<Rightarrow> fiber_fail (Undefined ''null fcontext'') s
      | Some to \<Rightarrow>
          (let s1 = landing to (exec s) (s\<lparr>point_of := (point_of s)(exec s := Some p)\<rparr>)
           in s1\<lparr>exec := to, point_of := (point_of s1)(to := None)\<rparr>))"

definition switch_in :: "nat \<Rightarrow> fibers \<Rightarrow> fibers" where
  "switch_in i s =
     jump_fcontext (fcontext s (U i)) (P_in i)
       (s\<lparr>link := (link s)(i := Some (case g_current_context s of None \<Rightarrow> Main | Some l \<Rightarrow> l)),
          g_current_context := Some (U i)\<rparr>)"

definition switch_out :: "nat \<Rightarrow> fibers \<Rightarrow> fibers" where
  "switch_out i s =
     (case link s i of
        None \<Rightarrow> fiber_fail (Undefined ''null link'') s
      | Some l \<Rightarrow> jump_fcontext (fcontext s l) P_out (s\<lparr>g_current_context := Some l\<rparr>))"

definition final_switch_out :: "nat \<Rightarrow> fibers \<Rightarrow> fibers" where
  "final_switch_out i s =
     (case link s i of
        None \<Rightarrow> fiber_fail (Undefined ''null link'') s
      | Some l \<Rightarrow> jump_fcontext (fcontext s l) P_dead (s\<lparr>g_current_context := Some l\<rparr>))"

text \<open>The constructor of \<open>thread_context\<close>: \<open>setup\<close> makes the context and switches to it at once.\<close>

definition ctx_setup :: "nat \<Rightarrow> fibers \<Rightarrow> fibers" where
  "ctx_setup i s =
     switch_in i (s\<lparr>fcontext := (fcontext s)(U i := Some (U i)), point_of := (point_of s)(U i := Some P_start),
                    thread_of := (thread_of s)(U i := Some i)\<rparr>)"

definition can_switch_out :: "fibers \<Rightarrow> bool" where
  "can_switch_out s =
     (case g_current_context s of None \<Rightarrow> False | Some c \<Rightarrow> thread_of s c \<noteq> None)"

text \<open>
  What the code that runs on the thread may do: create a uthread, switch to a suspended one, and, in a
  uthread, switch out or end.
\<close>

inductive fiber_step :: "fibers \<Rightarrow> fibers \<Rightarrow> bool" where
  create: "point_of s (U i) = None \<Longrightarrow> exec s \<noteq> U i \<Longrightarrow> fiber_step s (ctx_setup i s)"
| enter: "point_of s (U i) = Some P_out \<Longrightarrow> fiber_step s (switch_in i s)"
| leave: "exec s = U i \<Longrightarrow> fiber_step s (switch_out i s)"
| finish: "exec s = U i \<Longrightarrow> fiber_step s (final_switch_out i s)"

text \<open>The fibers that wait inside a \<open>switch_in\<close>, innermost first, below the executing one.\<close>

fun nested :: "fibers \<Rightarrow> fiber \<Rightarrow> fiber list \<Rightarrow> bool" where
  "nested s Main [] = True"
| "nested s (U i) (l # ls) =
     (link s i = Some l \<and> point_of s l = Some (P_in i) \<and> fcontext s l = Some l \<and> l \<notin> set ls \<and> nested s l ls)"
| "nested s f ls = False"

definition fiber_ok :: "fibers \<Rightarrow> fiber list \<Rightarrow> bool" where
  "fiber_ok s ls \<longleftrightarrow>
     fiber_error s = None \<and> point_of s (exec s) = None
     \<and> (g_current_context s = Some (exec s) \<or> g_current_context s = None \<and> exec s = Main)
     \<and> (\<forall>i. thread_of s (U i) = Some i \<or> thread_of s (U i) = None \<and> point_of s (U i) = None \<and> exec s \<noteq> U i)
     \<and> thread_of s Main = None
     \<and> (\<forall>i. point_of s (U i) = Some P_out \<longrightarrow> fcontext s (U i) = Some (U i))
     \<and> nested s (exec s) ls \<and> exec s \<notin> set ls"

definition fiber_inv :: "fibers \<Rightarrow> bool" where
  "fiber_inv s \<longleftrightarrow> (\<exists>ls. fiber_ok s ls)"

lemma nested_point: "nested s f ls \<Longrightarrow> l \<in> set ls \<Longrightarrow> \<exists>j. point_of s l = Some (P_in j)"
  by (induction s f ls rule: nested.induct) auto

lemma nested_cong:
  assumes "nested s f ls"
    and "\<And>j. U j \<in> insert f (set ls) \<Longrightarrow> link s' j = link s j"
    and "\<And>l. l \<in> set ls \<Longrightarrow> point_of s' l = point_of s l \<and> fcontext s' l = fcontext s l"
  shows "nested s' f ls"
  using assms by (induction s f ls rule: nested.induct) auto

text \<open>Entering a suspended or fresh uthread.\<close>

lemma switch_in_ok:
  assumes ok: "fiber_ok s ls" and p: "point_of s (U i) = Some P_out \<or> point_of s (U i) = Some P_start"
    and f: "fcontext s (U i) = Some (U i)" and t: "thread_of s (U i) = Some i"
  shows "fiber_ok (switch_in i s) (exec s # ls)" and "exec (switch_in i s) = U i"
proof -
  let ?e = "exec s"
  let ?s = "s\<lparr>link := (link s)(i := Some ?e), g_current_context := Some (U i), point_of := (point_of s)(?e := Some (P_in i), U i := None),
      fcontext := (fcontext s)(?e := Some ?e), exec := U i\<rparr>"
  have e: "?e \<noteq> U i" using ok p by (auto simp: fiber_ok_def)
  have cur: "(case g_current_context s of None \<Rightarrow> Main | Some l \<Rightarrow> l) = ?e" using ok by (auto simp: fiber_ok_def)
  have eq: "switch_in i s = ?s"
    using p f t e cur by (auto simp: switch_in_def jump_fcontext_def landing_def Let_def fun_upd_twist)
  have n: "nested s ?e ls" "?e \<notin> set ls" using ok by (auto simp: fiber_ok_def)
  have u: "U i \<notin> set ls" using nested_point[OF n(1)] p by fastforce
  have "nested ?s ?e ls" using n(1) by (rule nested_cong) (use u n(2) e in auto)
  moreover have "thread_of s ?e = Some j" if "U j = ?e" for j
    using ok that unfolding fiber_ok_def by metis
  ultimately show "fiber_ok (switch_in i s) (?e # ls)"
    using ok e u t unfolding eq by (auto simp: fiber_ok_def)
  show "exec (switch_in i s) = U i" by (simp add: eq)
qed

text \<open>Leaving a uthread, for a while or for good.\<close>

lemma leave_ok:
  assumes ok: "fiber_ok s ls" and i: "exec s = U i" and s': "s' = switch_out i s \<or> s' = final_switch_out i s"
  obtains l ls' where "ls = l # ls'" and "fiber_ok s' ls'" and "exec s' = l" and "link s i = Some l"
proof -
  obtain l ls' where ls: "ls = l # ls'" "link s i = Some l" "point_of s l = Some (P_in i)" "fcontext s l = Some l"
      "l \<notin> set ls'" "nested s l ls'"
    using ok i by (cases ls) (auto simp: fiber_ok_def)
  have u: "U i \<noteq> l" "U i \<notin> set ls'" using ok i ls(1) by (auto simp: fiber_ok_def)
  let ?t = "\<lambda>p. s\<lparr>g_current_context := Some l, point_of := (point_of s)(U i := Some p, l := None),
      fcontext := (fcontext s)(U i := Some (U i)), exec := l\<rparr>"
  have "switch_out i s = ?t P_out" "final_switch_out i s = ?t P_dead"
    using ls u i by (auto simp: switch_out_def final_switch_out_def jump_fcontext_def landing_def Let_def)
  then obtain p where p: "p = P_out \<or> p = P_dead" and eq: "s' = ?t p" using s' by metis
  have "nested s' l ls'" using ls(6) by (rule nested_cong) (use ls(5) u eq in auto)
  then have "fiber_ok s' ls'" using ok i ls u p unfolding eq by (auto simp: fiber_ok_def)
  then show thesis using that[OF ls(1)] ls(2) by (simp add: eq)
qed

lemma fiber_step_inv:
  assumes "fiber_inv s" and "fiber_step s t"
  shows "fiber_inv t"
proof -
  obtain ls where ok: "fiber_ok s ls" using assms(1) by (auto simp: fiber_inv_def)
  from assms(2) show ?thesis
  proof cases
    case (create i)
    let ?s = "s\<lparr>fcontext := (fcontext s)(U i := Some (U i)), point_of := (point_of s)(U i := Some P_start),
        thread_of := (thread_of s)(U i := Some i)\<rparr>"
    have n: "nested s (exec s) ls" using ok by (simp add: fiber_ok_def)
    have u: "U i \<notin> set ls" using nested_point[OF n] create by fastforce
    have "nested ?s (exec s) ls" using n by (rule nested_cong) (use u in auto)
    then have "fiber_ok ?s ls" using ok create by (auto simp: fiber_ok_def)
    then have "fiber_ok (switch_in i ?s) (exec ?s # ls)" by (rule switch_in_ok) simp_all
    then show ?thesis unfolding fiber_inv_def create(1) ctx_setup_def by blast
  next
    case (enter i)
    have "fcontext s (U i) = Some (U i)" "thread_of s (U i) = Some i" using ok enter by (auto simp: fiber_ok_def)
    then show ?thesis using switch_in_ok(1)[OF ok] enter by (auto simp: fiber_inv_def)
  next
    case (leave i)
    then show ?thesis using leave_ok[OF ok leave(2)] by (metis fiber_inv_def)
  next
    case (finish i)
    then show ?thesis using leave_ok[OF ok finish(2)] by (metis fiber_inv_def)
  qed
qed

interpretation fib: inv_system "\<lambda>s. s = fibers_new" fiber_step fiber_inv
proof
  show "fiber_inv s" if "s = fibers_new" for s
    using that by (auto simp: fiber_inv_def fiber_ok_def fibers_new_def intro!: exI[of _ "[]"])
qed (rule fiber_step_inv)


section \<open>Uthread objects\<close>

text \<open>
  The context of a uthread as its owner sees it: the promise \<open>done_\<close>, whether it was joined, and the
  callback that waits for the end.
\<close>

record thread_context =
  joined :: bool
  done_try :: "bool Try_t"
  waiting_cb :: "nat option"

record Uthread =
  ut_ex :: "nat option"
  ut_ctx :: "thread_context option"

text \<open>\<open>kept\<close> is a context that is owned by its own continuation; \<open>cb_log\<close> the callbacks that ran.\<close>

record uthread_state =
  ut_obj :: Uthread
  kept :: "thread_context option"
  cb_log :: "nat list"

definition Uthread_new :: "nat option \<Rightarrow> uthread_state" where
  "Uthread_new ex =
     \<lparr>ut_obj = \<lparr>ut_ex = ex, ut_ctx = Some \<lparr>joined = False, done_try = Nothing, waiting_cb = None\<rparr>\<rparr>,
      kept = None, cb_log = []\<rparr>"

definition join :: "nat \<Rightarrow> uthread_state \<Rightarrow> bool \<times> uthread_state" where
  "join cb s =
     (case ut_ctx (ut_obj s) of
        None \<Rightarrow> (False, s)
      | Some c \<Rightarrow>
          if joined c then (False, s)
          else let c1 = c\<lparr>joined := True\<rparr>
               in if available (done_try c)
                  then (True, s\<lparr>ut_obj := (ut_obj s)\<lparr>ut_ctx := Some c1\<rparr>, cb_log := cb_log s @ [cb]\<rparr>)
                  else if ut_ex (ut_obj s) = None
                  then (True, s\<lparr>ut_obj := (ut_obj s)\<lparr>ut_ctx := Some (c1\<lparr>waiting_cb := Some cb\<rparr>)\<rparr>\<rparr>)
                  else (True, s\<lparr>ut_obj := (ut_obj s)\<lparr>ut_ctx := None\<rparr>, kept := Some (c1\<lparr>waiting_cb := Some cb\<rparr>)\<rparr>))"

text \<open>\<open>main\<close>: the function runs; the promise gets the value or the exception; then the callback runs.\<close>

definition thread_main :: "exc + unit \<Rightarrow> thread_context \<Rightarrow> thread_context \<times> nat list" where
  "thread_main outcome c =
     (c\<lparr>done_try := (case outcome of Inr _ \<Rightarrow> Value True | Inl e \<Rightarrow> Exception e), waiting_cb := None\<rparr>,
      case waiting_cb c of None \<Rightarrow> [] | Some cb \<Rightarrow> [cb])"

definition uthread_ends :: "exc + unit \<Rightarrow> uthread_state \<Rightarrow> uthread_state" where
  "uthread_ends outcome s =
     (case kept s of
        Some c \<Rightarrow> s\<lparr>kept := None, cb_log := cb_log s @ snd (thread_main outcome c)\<rparr>
      | None \<Rightarrow>
          (case ut_ctx (ut_obj s) of
             None \<Rightarrow> s
           | Some c \<Rightarrow> s\<lparr>ut_obj := (ut_obj s)\<lparr>ut_ctx := Some (fst (thread_main outcome c))\<rparr>,
                         cb_log := cb_log s @ snd (thread_main outcome c)\<rparr>))"

section \<open>async\<close>

datatype Launch = Prompt | Schedule_launch | Current

datatype launch_action = Starts_now bool | Scheduled_on nat | Dropped | Fails failure

text \<open>\<open>Starts_now d\<close> creates the uthread at once and detaches it if \<open>d\<close>.\<close>

definition async_launch :: "Launch \<Rightarrow> nat option \<Rightarrow> launch_action" where
  "async_launch policy ex =
     (case policy of
        Prompt \<Rightarrow> Starts_now False
      | Schedule_launch \<Rightarrow> (case ex of None \<Rightarrow> Dropped | Some e \<Rightarrow> Scheduled_on e)
      | Current \<Rightarrow> Starts_now True)"

definition async_future_launch :: "Launch \<Rightarrow> nat option \<Rightarrow> launch_action" where
  "async_future_launch policy ex =
     (case policy of
        Schedule_launch \<Rightarrow> (case ex of None \<Rightarrow> Fails (Assert_fail ''false'') | Some e \<Rightarrow> Scheduled_on e)
      | Current \<Rightarrow> Starts_now True
      | Prompt \<Rightarrow> Fails (Assert_fail ''false''))"

text \<open>
  What the future of \<open>async\<close> receives from the function's outcome: \<open>proc\<close> sets the promise only when
  the function returns; an exception leaves \<open>proc\<close>, the uthread's \<open>main\<close> keeps it in \<open>done_\<close>, and the
  promise is destroyed with the closure.
\<close>

definition async_proc :: "exc + 'v \<Rightarrow> 'v Try_t" where
  "async_proc outcome = (case outcome of Inr v \<Rightarrow> Value v | Inl e \<Rightarrow> Exception broken_promise)"

section \<open>await\<close>

text \<open>The checks of \<open>await\<close>; \<open>Inr None\<close>: the uthread has to switch out.\<close>

definition await_check :: "bool \<Rightarrow> 'v Try_t \<Rightarrow> nat option \<Rightarrow> bool \<Rightarrow> 'v option result" where
  "await_check valid t ex inside =
     (if \<not> valid then throw (Logic_error ''Future is broken'')
      else if available t
      then (case try_value_of t of Inl e \<Rightarrow> Inl e | Inr v \<Rightarrow> ok (Some v))
      else if ex = None then throw (Logic_error ''Future not has Executor'')
      else if \<not> inside then throw (Logic_error ''await invoked not in Executor'')
      else ok None)"

text \<open>
  The shared state of the promise \<open>p\<close> of \<open>await\<close>: \<open>via\<close> binds the executor, then scheduling is forced
  and the context is remembered.
\<close>

definition await_state :: "nat \<Rightarrow> 64 word \<Rightarrow> ('v, 'k) FutureState" where
  "await_state ex c =
     fs_checkout c (setForceSched True (setExecutor (Some ex) (attachOne (attachPromise FutureState_new))))"

section \<open>Latch\<close>

record ULatch =
  ul_count :: "64 word"
  ul_skip :: bool
  ul_sets :: nat

definition ULatch_new :: "64 word \<Rightarrow> ULatch" where
  "ULatch_new n = \<lparr>ul_count = n, ul_skip = (n = 0), ul_sets = 0\<rparr>"

definition ul_downCount :: "64 word \<Rightarrow> ULatch \<Rightarrow> ULatch" where
  "ul_downCount n l =
     (if ul_skip l then l
      else let lastCount = ul_count l; l' = l\<lparr>ul_count := lastCount - n\<rparr>
           in if lastCount = 1 then l'\<lparr>ul_sets := ul_sets l + 1\<rparr> else l')"

text \<open>\<open>await\<close> returns at once or when the promise has its value.\<close>

definition ul_open :: "ULatch \<Rightarrow> bool" where
  "ul_open l \<longleftrightarrow> ul_skip l \<or> 0 < ul_sets l"

definition ul_currentCount :: "ULatch \<Rightarrow> 64 word" where
  "ul_currentCount l = ul_count l"

section \<open>collectAll\<close>

record 'v ucontext =
  uc_tasks :: "64 word"
  uc_result :: "'v list"

definition ucontext_new :: "nat \<Rightarrow> 'v \<Rightarrow> 'v ucontext" where
  "ucontext_new n d = \<lparr>uc_tasks = of_nat n, uc_result = replicate n d\<rparr>"

text \<open>One task: the function's value is stored and the counter decremented; an exception skips both.\<close>

definition ucollect_task :: "nat \<Rightarrow> exc + 'v \<Rightarrow> 'v ucontext \<Rightarrow> 'v ucontext" where
  "ucollect_task i outcome c =
     (case outcome of
        Inl e \<Rightarrow> c
      | Inr v \<Rightarrow> c\<lparr>uc_result := (uc_result c)[i := v], uc_tasks := uc_tasks c - 1\<rparr>)"

text \<open>The destructor; \<open>debug\<close> says whether assertions are compiled in.\<close>

definition ucontext_delete :: "bool \<Rightarrow> 'v ucontext \<Rightarrow> 'v list result" where
  "ucontext_delete debug c =
     (if debug \<and> uc_tasks c \<noteq> 0 then Inl (Assert_fail ''tasks == 0'') else ok (uc_result c))"

definition ucollect :: "bool \<Rightarrow> 'v \<Rightarrow> nat list \<Rightarrow> (exc + 'v) list \<Rightarrow> 'v list result" where
  "ucollect debug d order outcomes =
     ucontext_delete debug (fold (\<lambda>i. ucollect_task i (outcomes ! i)) order (ucontext_new (length outcomes) d))"

section \<open>Properties\<close>


lemma demo_fiber_reach: "reach (\<lambda>s. s = fibers_new) fiber_step (ctx_setup 4 fibers_new)"
proof (rule reach_step)
  show "reach (\<lambda>s. s = fibers_new) fiber_step fibers_new" by (rule reach_init) simp
  show "fiber_step fibers_new (ctx_setup 4 fibers_new)" by (rule fiber_step.create) (simp_all add: fibers_new_def)
qed


text \<open>
  Joining a uthread: the callback runs exactly once, after the uthread has ended, whether the join
  came first or last and with or without an executor; a second join returns false and has no effect.
\<close>

theorem join_once:
  shows "fst (join cb (Uthread_new ex)) \<and> cb_log (snd (join cb (Uthread_new ex))) = []
    \<and> cb_log (uthread_ends r (snd (join cb (Uthread_new ex)))) = [cb]
    \<and> cb_log (snd (join cb (uthread_ends r (Uthread_new ex)))) = [cb]
    \<and> join cb' (snd (join cb (Uthread_new ex))) = (False, snd (join cb (Uthread_new ex)))
    \<and> join cb' (snd (join cb (uthread_ends r (Uthread_new ex)))) = (False, snd (join cb (uthread_ends r (Uthread_new ex))))"
  by (cases r) (auto simp: join_def Uthread_new_def uthread_ends_def thread_main_def Let_def)

text \<open>
  The continuation by which \<open>await\<close> switches the uthread back in is never called in place: whether
  the value comes before or after the continuation is installed, and on whichever thread, an executor
  that accepts the task receives it, and running that task calls the continuation once with the value.
\<close>

theorem await_resumes_through_executor:
  assumes "\<And>call. answer env call = Accepted" and "\<And>call. answer env' call = Accepted"
  shows "(\<exists>s1 s2 s3. setContinuation env k (await_state ex c) = (ok (), s1) \<and> ran s1 = []
      \<and> setResult chk env' t s1 = (ok (), s2) \<and> ran s2 = [] \<and> tasks s2 = 1
      \<and> run_task s2 = (ok (), s3) \<and> ran s3 = [(k, t)])
    \<and> (\<exists>s1 s2 s3. setResult chk env' t (await_state ex c) = (ok (), s1) \<and> ran s1 = []
      \<and> setContinuation env k s1 = (ok (), s2) \<and> ran s2 = [] \<and> tasks s2 = 1
      \<and> run_task s2 = (ok (), s3) \<and> ran s3 = [(k, t)])"
  using assms
  by (simp add: await_state_def fs_checkout_def setForceSched_def setExecutor_def attachOne_def attachPromise_def
      FutureState_new_def setContinuation_def setResult_def scheduleContinuation_def contref_attach_def
      contref_detach_def refContinuation_def derefContinuation_def detachOne_def run_task_def run_continuation_def Let_def)


theorem await_resumes_through_executor_witness:
  "\<exists>s1 s2 s3. setContinuation \<lparr>in_executor = True, answer = (\<lambda>_. Accepted)\<rparr> (8::nat) (await_state 1 5) = (ok (), s1)
     \<and> setResult True \<lparr>in_executor = True, answer = (\<lambda>_. Accepted)\<rparr> (Value (3::nat)) s1 = (ok (), s2)
     \<and> run_task s2 = (ok (), s3) \<and> ran s3 = [(8, Value 3)]"
  using await_resumes_through_executor[of "\<lparr>in_executor = True, answer = (\<lambda>_. Accepted)\<rparr>"
      "\<lparr>in_executor = True, answer = (\<lambda>_. Accepted)\<rparr>" "8::nat" 1 5 True "Value (3::nat)"]
  by fastforce

lemma ul_down_steps:
  assumes "k \<le> unat n"
  shows "(ul_downCount 1 ^^ k) (ULatch_new n) =
    \<lparr>ul_count = n - of_nat k, ul_skip = (n = 0), ul_sets = (if 0 < k \<and> k = unat n then 1 else 0)\<rparr>"
  using assms
proof (induction k)
  case 0
  then show ?case by (simp add: ULatch_new_def)
next
  case (Suc k)
  have n0: "n \<noteq> 0" using Suc.prems by auto
  have k: "k < 2 ^ 64" using Suc.prems unsigned_less[of n, where ?'a = nat] by simp
  have "n - of_nat k = 1 \<longleftrightarrow> n = of_nat (Suc k)" by (auto simp: diff_eq_eq)
  also have "\<dots> \<longleftrightarrow> Suc k = unat n"
    using Suc.prems unsigned_less[of n, where ?'a = nat] word_eq_of_nat[of "Suc k" n] by auto
  finally have "n - of_nat k = 1 \<longleftrightarrow> Suc k = unat n" .
  then show ?case using Suc n0 by (simp add: ul_downCount_def Let_def)
qed

text \<open>
  The latch of uthreads under single count-downs: after \<open>k\<close> of them, at most the initial count, the
  counter is the initial count less \<open>k\<close> and the latch is open exactly when it has reached zero.
\<close>

theorem ulatch_opens:
  assumes "k \<le> unat n"
  shows "ul_currentCount ((ul_downCount 1 ^^ k) (ULatch_new n)) = n - of_nat k
    \<and> (ul_open ((ul_downCount 1 ^^ k) (ULatch_new n)) \<longleftrightarrow> k = unat n)"
  using ul_down_steps[OF assms] assms by (auto simp: ul_currentCount_def ul_open_def unat_eq_zero)

theorem ulatch_opens_witness: "ul_open ((ul_downCount 1 ^^ 2) (ULatch_new 2))"
  using ulatch_opens[of 2 2] by simp

text \<open>Counting down by more than one at a time can pass over the value that opens the latch.\<close>

lemma ulatch_down_by_two:
  "ul_currentCount (ul_downCount 2 (ULatch_new 2)) = 0 \<and> \<not> ul_open (ul_downCount 2 (ULatch_new 2))"
  by (simp add: ul_currentCount_def ul_open_def ul_downCount_def ULatch_new_def Let_def)

text \<open>
  A stack of 4 GiB: \<open>get_stack_holder\<close> takes an \<open>unsigned\<close>, so no byte is allocated while the stack
  pointer starts \<open>2 ^ 32\<close> bytes into the allocation.
\<close>

lemma stack_size_truncated:
  "get_base_stack_size 0 (Some 4194304) = ok (2 ^ 32) \<and> make_stack (2 ^ 32) = 0 \<and> stack_top (2 ^ 32) = 2 ^ 32"
  by (simp add: get_base_stack_size_def make_stack_def get_stack_holder_def stack_top_def)

text \<open>An exception of a function run by \<open>async\<close> reaches its future as a broken promise.\<close>

lemma async_exception_lost: "async_proc (Inl e :: exc + 'v) = Exception (Runtime_error ''Promise is broken'')"
  by (simp add: async_proc_def broken_promise_def)


lemma ucollect_fold:
  assumes "distinct ps" and "set ps \<subseteq> {..<length outs}"
  shows "fold (\<lambda>i. ucollect_task i (outs ! i)) ps (ucontext_new (length outs) d) =
    \<lparr>uc_tasks = of_nat (length outs) - of_nat (length (filter (\<lambda>i. \<not> isl (outs ! i)) ps)),
     uc_result = map (\<lambda>i. if i \<in> set ps then case_sum (\<lambda>_. d) id (outs ! i) else d) [0..<length outs]\<rparr>"
  using assms
proof (induction ps rule: rev_induct)
  case Nil
  then show ?case by (simp add: ucontext_new_def map_replicate_const)
next
  case (snoc i ps)
  have "(map (\<lambda>j. if j \<in> set ps then case_sum (\<lambda>_. d) id (outs ! j) else d) [0..<length outs])[i := v] =
      map (\<lambda>j. if j \<in> set (ps @ [i]) then case_sum (\<lambda>_. d) id (outs ! j) else d) [0..<length outs]"
    if "outs ! i = Inr v" for v
    using snoc.prems that by (intro nth_equalityI) (auto simp: nth_list_update)
  moreover have "map (\<lambda>j. if j \<in> set ps then case_sum (\<lambda>_. d) id (outs ! j) else d) [0..<length outs] =
      map (\<lambda>j. if j \<in> set (ps @ [i]) then case_sum (\<lambda>_. d) id (outs ! j) else d) [0..<length outs]"
    if "outs ! i = Inl e" for e
    using snoc.prems that by auto
  ultimately show ?case
    using snoc by (cases "outs ! i") (auto simp: ucollect_task_def)
qed

text \<open>
  \<open>collectAll\<close> of uthreads: in whatever order the tasks end, the result has their values in the
  order of the tasks.  When a task throws, its exception is not reported: with assertions the
  destructor of the context fails, without them the result holds a default value in its place.
\<close>

theorem ucollect_order:
  assumes "distinct order" and "set order = {..<length outcomes}" and "length outcomes < 2 ^ 64"
  shows "((\<forall>r \<in> set outcomes. \<not> isl r) \<longrightarrow> ucollect debug d order outcomes = ok (map projr outcomes))
    \<and> ((\<exists>r \<in> set outcomes. isl r) \<longrightarrow>
        ucollect True d order outcomes = Inl (Assert_fail ''tasks == 0'')
        \<and> ucollect False d order outcomes = ok (map (case_sum (\<lambda>_. d) id) outcomes))"
proof -
  let ?n = "length outcomes" and ?k = "length (filter (\<lambda>i. \<not> isl (outcomes ! i)) order)"
  have len: "length order = ?n" using distinct_card[OF assms(1)] assms(2) by simp
  have k: "?k \<le> ?n" using len length_filter_le[of _ order] by metis
  have res: "map (\<lambda>i. if i \<in> set order then case_sum (\<lambda>_. d) id (outcomes ! i) else d) [0..<?n] =
      map (case_sum (\<lambda>_. d) id) outcomes"
    using assms(2) by (intro nth_equalityI) auto
  have "of_nat ?n - of_nat ?k = (0 :: 64 word) \<longleftrightarrow> ?k = ?n"
    using k assms(3) word_eq_of_nat[of ?k "of_nat ?n"] by (auto simp: unat_of_nat take_bit_nat_eq_self)
  then have d: "ucollect b d order outcomes =
      (if b \<and> ?k \<noteq> ?n then Inl (Assert_fail ''tasks == 0'') else ok (map (case_sum (\<lambda>_. d) id) outcomes))" for b
    using ucollect_fold[of order outcomes d] assms(1,2) res by (simp add: ucollect_def ucontext_delete_def)
  have "?k = ?n \<longleftrightarrow> (\<forall>i \<in> set order. \<not> isl (outcomes ! i))"
    using cnt_full[of "\<lambda>i. \<not> isl (outcomes ! i)" order] len by (simp add: cnt_def)
  also have "\<dots> \<longleftrightarrow> (\<forall>r \<in> set outcomes. \<not> isl r)" using assms(2) by (force simp: in_set_conv_nth)
  finally have all: "?k = ?n \<longleftrightarrow> (\<forall>r \<in> set outcomes. \<not> isl r)" .
  have "map (case_sum (\<lambda>_. d) id) outcomes = map projr outcomes" if "\<forall>r \<in> set outcomes. \<not> isl r"
    using that by (auto split: sum.splits simp: isl_def)
  then show ?thesis using d all by auto
qed

theorem ucollect_order_witness:
  "ucollect True (0::nat) [1, 0] [Inr 5, Inr 6] = ok [5, 6]"
  using ucollect_order[of "[1, 0]" "[Inr 5, Inr (6::nat)]" True 0] by (auto simp: lessThan_Suc)

end
