(* ===== verification/UthreadAwait_Model.thy ===== *)
theory UthreadAwait_Model
  imports Future_Model Uthread_Model
begin

text \<open>
  \<open>await\<close> of a uthread (async_simple/uthread/Await.h) in its three forms: on a future, on a coroutine, and on
  a function of a promise.

  The calls on futures and promises are those of Future\_Model.  The continuation that switches the
  uthread back in is \<open>K_user u\<close>, where \<open>u\<close> is the context of the uthread.  The future that \<open>thenTry\<close>
  returns is dropped by \<open>await\<close>; the closure it is given sets the promise of \<open>await\<close>, as \<open>K_forward\<close> does.
\<close>

section \<open>await on a future\<close>

text \<open>
  Up to \<open>switch_out\<close>.  \<open>Inr (Some r)\<close>: the value was there, and \<open>await\<close> returns (or throws) \<open>r\<close> at once;
  \<open>Inr None\<close>: the uthread is switched out, and \<open>f\<close> is the future whose value it will return.
\<close>

definition await_future ::
  "exec_env \<Rightarrow> 64 word \<Rightarrow> nat \<Rightarrow> 'v Future \<Rightarrow> 'v store \<Rightarrow> ('v store, 'v result option \<times> 'v Future) call" where
  "await_future env c u fut s =
     (if \<not> Future_valid fut then (throw (Logic_error ''Future is broken''), s)
      else if Future_hasResult fut s = ok True then (ok (Some (Future_value fut s), fut), s)
      else case fut_getExecutor fut s of
        None \<Rightarrow> (throw (Logic_error ''Future not has Executor''), s)
      | Some ex \<Rightarrow>
          if \<not> in_executor env then (throw (Logic_error ''await invoked not in Executor''), s)
          else
            let (p, s1) = Promise_new s
            in bind_st (getFuture p s1)
                 (\<lambda>pf s2.
                    let (f, s3) = via (Some ex) (snd pf) s2;
                        s4 = Promise_checkout c (fst pf) (Promise_forceSched (fst pf) s3)
                    in bind_st (fut_setContinuation env f (K_user u) s4)
                         (\<lambda>_ s5. bind_st (fut_setContinuation env fut (K_forward (the (prom_shared p))) s5)
                            (\<lambda>_ s6. (ok (None, f), s6)))))"

text \<open>The uthread is switched back in: what \<open>await\<close> returns.\<close>

definition await_resumed :: "'v Future \<Rightarrow> 'v store \<Rightarrow> 'v result" where
  "await_resumed f s =
     (if Future_hasResult f s = ok True then Future_value f s else Inl (Assert_fail ''f.hasResult()''))"

section \<open>await on a coroutine\<close>

text \<open>
  The promise is a capture of the lambda, which is a local variable of \<open>await\<close>: it lives until \<open>await\<close>
  returns.  The coroutine of the lambda starts at once; where its body ends, with a value or an
  exception, is \<open>await_body_ends\<close>.
\<close>

definition await_coroutine :: "nat \<Rightarrow> 'v store \<Rightarrow> ('v store, nat \<times> 'v Future) call" where
  "await_coroutine ex s =
     bind_st (promise_pair s) (\<lambda>pf s1. let (f, s2) = via (Some ex) (snd pf) s1 in (ok (fst pf, f), s2))"

definition await_body_ends :: "bool \<Rightarrow> exec_env \<Rightarrow> nat \<Rightarrow> exc + 'v \<Rightarrow> 'v store \<Rightarrow> ('v store, unit) call" where
  "await_body_ends chk env a r s = (case r of Inr v \<Rightarrow> setValue chk env (owned a) (Value v) s | Inl _ \<Rightarrow> (ok (), s))"

section \<open>await on a function of a promise\<close>

definition await_promise :: "nat \<Rightarrow> 64 word \<Rightarrow> 'v store \<Rightarrow> ('v store, nat \<times> 'v Future) call" where
  "await_promise ex c s =
     bind_st (promise_pair s)
       (\<lambda>pf s1. let (f, s2) = via (Some ex) (snd pf) s1
                in (ok (fst pf, f), Promise_checkout c (owned (fst pf)) (Promise_forceSched (owned (fst pf)) s2)))"

section \<open>Whole calls\<close>

text \<open>The executor runs the task of the shared state \<open>a\<close>, if it has one, and what that calls.\<close>

definition executor_turn :: "bool \<Rightarrow> exec_env \<Rightarrow> nat \<Rightarrow> 'v store \<Rightarrow> ('v store, unit) call" where
  "executor_turn chk env a s =
     bind_st (if 0 < tasks (heap s a) then at_state a run_task s else (ok (), s)) (\<lambda>_. settle chk env 1)"

text \<open>
  A uthread calls \<open>await\<close>, and while it is switched out \<open>act\<close> happens on the promise, in another
  thread with the view \<open>env'\<close> of the executor; then the executor works off its tasks.
\<close>

definition await_run ::
  "bool \<Rightarrow> exec_env \<Rightarrow> exec_env \<Rightarrow> 64 word \<Rightarrow> nat \<Rightarrow> ('v store \<Rightarrow> ('v store, nat \<times> 'v Future) call)
     \<Rightarrow> (nat \<Rightarrow> 'v store \<Rightarrow> ('v store, unit) call) \<Rightarrow> ('v store, 'v result option \<times> 'v Future) call" where
  "await_run chk env env' c u begin_call act =
     bind_st (begin_call store_new)
       (\<lambda>pf s1. bind_st (await_future env c u (snd pf) s1)
          (\<lambda>r s2. bind_st (act (fst pf) s2)
             (\<lambda>_ s3. bind_st (settle chk env' 1 s3)
                (\<lambda>_ s4. bind_st (executor_turn chk env' 0 s4)
                   (\<lambda>_ s5. bind_st (executor_turn chk env' 1 s5) (\<lambda>_ s6. (ok r, s6)))))))"

text \<open>The promise is served before the uthread reaches \<open>await\<close> on the future.\<close>

definition await_early ::
  "exec_env \<Rightarrow> 64 word \<Rightarrow> nat \<Rightarrow> ('v store \<Rightarrow> ('v store, nat \<times> 'v Future) call)
     \<Rightarrow> (nat \<Rightarrow> 'v store \<Rightarrow> ('v store, unit) call) \<Rightarrow> ('v store, 'v result option \<times> 'v Future) call" where
  "await_early env c u begin_call act =
     bind_st (begin_call store_new)
       (\<lambda>pf s1. bind_st (act (fst pf) s1) (\<lambda>_. await_future env c u (snd pf)))"

section \<open>Evaluation\<close>

lemma run_jobs_cons:
  "agenda s = (k, t) # js \<Longrightarrow>
     run_jobs chk env (Suc m) s = run_jobs chk env m (note_failure (exec_kont chk env k t (s\<lparr>agenda := js\<rparr>)))"
  by (subst run_jobs.simps) (simp add: job_step_def)

lemmas await_unfold = await_run_def await_early_def await_coroutine_def await_promise_def promise_pair_new

lemmas await_eval = run_jobs_cons await_future_def await_body_ends_def executor_turn_def via_def fut_setExecutor_def
  Future_move_def ls_move_def ls_empty_def Promise_forceSched_def Promise_checkout_def upd_state_def Future_valid_def
  Future_hasResult_def ls_hasResult_def setForceSched_def fs_currentThreadInExecutor_def fs_checkout_def
  fut_getExecutor_def fut_setContinuation_def new_both_ends getFuture_def Promise_valid_def Future_of_def at_state_def
  setValue_def run_task_def settle_def finish_def Promise_delete_def note_failure_def shape_defs fs_op_defs
  store_new_def await_resumed_def Future_value_def getTry_def Let_def sched_target_def

lemma await_late_value:
  assumes "in_executor env" and "\<And>call. answer env' call = Accepted"
  shows "\<exists>f s. await_run chk env env' c u (await_coroutine ex) (\<lambda>a. await_body_ends chk env' a (Inr v)) = (ok (None, f), s)
      \<and> user_log s = [(u, Value v)] \<and> await_resumed f s = ok v \<and> failures s = []"
  using assms unfolding await_unfold
  by (cases "in_executor env'") (simp_all add: await_eval try_value_cases)

lemma await_late_promise:
  assumes "in_executor env" and "\<And>call. answer env' call = Accepted"
  shows "\<exists>f s. await_run chk env env' c u (await_promise ex c) (\<lambda>a. finish chk env' a t) = (ok (None, f), s)
      \<and> user_log s = [(u, t)] \<and> await_resumed f s = try_value_of t \<and> failures s = []"
  using assms unfolding await_unfold by (simp add: await_eval)

lemma await_early_value:
  "\<exists>f s. await_early env c u (await_coroutine ex) (\<lambda>a. await_body_ends chk env' a (Inr v)) = (ok (Some (ok v), f), s)"
  "\<exists>f s. await_early env c u (await_promise ex c) (\<lambda>a. finish chk env' a t) = (ok (Some (try_value_of t), f), s)"
  unfolding await_unfold by (simp_all add: await_eval try_value_cases)

section \<open>Properties\<close>

text \<open>
  C27.  \<open>await\<close> delivers.  A uthread that awaits a coroutine whose body returns, or a promise that is
  given away and fulfilled, gets the result: at once, without switching out, when it is there already,
  and otherwise it is switched out, switched in exactly once, through the executor that accepts the
  tasks, and then returns the value or throws the exception that was set.  This holds whichever thread
  serves the promise.
\<close>

theorem await_delivers:
  assumes "in_executor env" and "\<And>call. answer env' call = Accepted"
  shows "(\<exists>f s. await_run chk env env' c u (await_coroutine ex) (\<lambda>a. await_body_ends chk env' a (Inr v)) = (ok (None, f), s)
      \<and> user_log s = [(u, Value v)] \<and> await_resumed f s = ok v \<and> failures s = [])
    \<and> (\<exists>f s. await_run chk env env' c u (await_promise ex c) (\<lambda>a. finish chk env' a t) = (ok (None, f), s)
      \<and> user_log s = [(u, t)] \<and> await_resumed f s = try_value_of t \<and> failures s = [])
    \<and> (\<exists>f s. await_early env c u (await_coroutine ex) (\<lambda>a. await_body_ends chk env' a (Inr v)) = (ok (Some (ok v), f), s))
    \<and> (\<exists>f s. await_early env c u (await_promise ex c) (\<lambda>a. finish chk env' a t) = (ok (Some (try_value_of t), f), s))"
  by (intro conjI) (rule await_late_value[OF assms], rule await_late_promise[OF assms], rule await_early_value(1), rule await_early_value(2))

theorem await_delivers_witness:
  "\<exists>f s. await_run True \<lparr>in_executor = True, answer = (\<lambda>_. Refused)\<rparr> \<lparr>in_executor = False, answer = (\<lambda>_. Accepted)\<rparr> 5 3
       (await_promise 1 5) (\<lambda>a. finish True \<lparr>in_executor = False, answer = (\<lambda>_. Accepted)\<rparr> a (Exception (User_exc 4))) = (ok (None, f), s)
     \<and> user_log s = [(3, Exception (User_exc 4))] \<and> await_resumed f s = (throw (User_exc 4) :: nat result)"
  using await_delivers[of "\<lparr>in_executor = True, answer = (\<lambda>_. Refused)\<rparr>" "\<lparr>in_executor = False, answer = (\<lambda>_. Accepted)\<rparr>"
      True 5 3 1 "0 :: nat" "Exception (User_exc 4)"]
  by (auto simp: try_value_cases)



end
