(* ===== verification/Generator_Model.thy ===== *)
theory Generator_Model
  imports Prelude
begin

text \<open>
  Synchronous generators with nested \<open>co_yield elements_of\<close> (async_simple/coro/Generator.h).

  The fields of the promises are maps over handles; \<open>nest\<close> holds the \<open>NestInfo\<close> of the awaiter by which
  the parent of a nested generator waits for it.  A generator body is a value of \<open>gen\<close>.  The consumer
  is the loop \<open>for (auto&& x : generator)\<close>: \<open>begin\<close>, then dereference and increment until the end.
\<close>

section \<open>Bodies\<close>

datatype 'v gen =
    G_return
  | G_throw exc
  | G_yield 'v "'v gen"
  | G_elements "'v gen option" "exc option \<Rightarrow> 'v gen"

text \<open>
  \<open>G_elements g k\<close> yields the elements of \<open>g\<close> (\<open>None\<close>: a generator that was moved from) and goes on with
  what the expression returns or throws.  \<open>elements_of\<close> a range is a generator over its elements.
\<close>

fun gen_of_range :: "'v list \<Rightarrow> 'v gen" where
  "gen_of_range [] = G_return"
| "gen_of_range (x # xs) = G_yield x (gen_of_range xs)"

section \<open>Promises\<close>

datatype 'v gcode = G_run "'v gen" | G_wait nat "exc option \<Rightarrow> 'v gen" | G_final

record NestInfo =
  except :: "exc option"
  parent :: nat
  root :: nat

record 'v gmachine =
  g_code :: "nat \<Rightarrow> 'v gcode option"
  g_value :: "nat \<Rightarrow> 'v option"
  g_top :: "nat \<Rightarrow> nat"
  g_info :: "nat \<Rightarrow> bool"
  nest :: "nat \<Rightarrow> NestInfo"
  g_next :: nat
  g_active :: "nat option"
  g_thrown :: "exc option"
  g_error :: "failure option"
  g_log :: "'v list"

definition gmachine_new :: "'v gmachine" where
  "gmachine_new = \<lparr>g_code = (\<lambda>_. None), g_value = (\<lambda>_. None), g_top = (\<lambda>h. h), g_info = (\<lambda>_. False),
     nest = (\<lambda>_. \<lparr>except = None, parent = 0, root = 0\<rparr>), g_next = 0, g_active = None, g_thrown = None,
     g_error = None, g_log = []\<rparr>"

definition gen_new :: "'v gen \<Rightarrow> 'v gmachine \<Rightarrow> nat \<times> 'v gmachine" where
  "gen_new p m =
     (let c = g_next m
      in (c, m\<lparr>g_code := (g_code m)(c := Some (G_run p)), g_value := (g_value m)(c := None),
               g_top := (g_top m)(c := c), g_info := (g_info m)(c := False), g_next := c + 1\<rparr>))"

text \<open>
  Destroying a frame destroys its locals: a parent suspended in \<open>co_yield elements_of\<close> owns the nested
  generator through its awaiter.  Handles on a stack are distinct and below \<open>g_next\<close>, which bounds the
  depth of the recursion.
\<close>

fun gen_destroy_n :: "nat \<Rightarrow> nat \<Rightarrow> 'v gmachine \<Rightarrow> 'v gmachine" where
  "gen_destroy_n 0 h m = m"
| "gen_destroy_n (Suc n) h m =
     (let m' = (case g_code m h of Some (G_wait c k) \<Rightarrow> gen_destroy_n n c m | _ \<Rightarrow> m)
      in m'\<lparr>g_code := (g_code m')(h := None)\<rparr>)"

definition gen_destroy :: "nat \<Rightarrow> 'v gmachine \<Rightarrow> 'v gmachine" where
  "gen_destroy h m = gen_destroy_n (g_next m) h m"

text \<open>Both overloads for an element store its address in the promise and suspend.\<close>

definition ElementAwaiter_suspend :: "nat \<Rightarrow> 'v \<Rightarrow> 'v gmachine \<Rightarrow> 'v gmachine" where
  "ElementAwaiter_suspend h v m = m\<lparr>g_value := (g_value m)(h := Some v)\<rparr>"

definition yield_value :: "nat \<Rightarrow> 'v \<Rightarrow> 'v gen \<Rightarrow> 'v gmachine \<Rightarrow> 'v gmachine" where
  "yield_value h v p m =
     (ElementAwaiter_suspend h v m)\<lparr>g_code := (g_code m)(h := Some (G_run p)), g_active := None\<rparr>"

text \<open>\<open>NestedAwaiter\<close>: the nested generator becomes the top of the root's stack.\<close>

definition NestedAwaiter_suspend :: "nat \<Rightarrow> nat \<Rightarrow> 'v gmachine \<Rightarrow> 'v gmachine" where
  "NestedAwaiter_suspend h target m =
     (let r = (if g_info m h then root (nest m h) else h)
      in m\<lparr>nest := (nest m)(target := \<lparr>except = None, parent = h, root = r\<rparr>),
           g_top := (g_top m)(r := target), g_info := (g_info m)(target := True), g_active := Some target\<rparr>)"

definition NestedAwaiter_resume :: "nat \<Rightarrow> 'v gmachine \<Rightarrow> exc option" where
  "NestedAwaiter_resume target m = except (nest m target)"

definition yield_elements :: "nat \<Rightarrow> 'v gen option \<Rightarrow> (exc option \<Rightarrow> 'v gen) \<Rightarrow> 'v gmachine \<Rightarrow> 'v gmachine" where
  "yield_elements h g k m =
     (case g of
        None \<Rightarrow> m\<lparr>g_code := (g_code m)(h := Some (G_run (k None)))\<rparr>
      | Some q \<Rightarrow>
          (let (c, m1) = gen_new q m
           in NestedAwaiter_suspend h c (m1\<lparr>g_code := (g_code m1)(h := Some (G_wait c k))\<rparr>)))"

definition GenFinalAwaiter_suspend :: "nat \<Rightarrow> 'v gmachine \<Rightarrow> 'v gmachine" where
  "GenFinalAwaiter_suspend h m =
     (let m1 = m\<lparr>g_code := (g_code m)(h := Some G_final)\<rparr>
      in if \<not> g_info m h then m1\<lparr>g_active := None\<rparr>
         else m1\<lparr>g_top := (g_top m)(root (nest m h) := parent (nest m h)), g_info := (g_info m)(h := False),
                 g_active := Some (parent (nest m h))\<rparr>)"

text \<open>\<open>unhandled_exception\<close>: a nested generator leaves the exception to its parent, the root throws it out of \<open>resume\<close>.\<close>

definition gen_unhandled_exception :: "nat \<Rightarrow> exc \<Rightarrow> 'v gmachine \<Rightarrow> 'v gmachine" where
  "gen_unhandled_exception h e m =
     (if g_info m h
      then GenFinalAwaiter_suspend h (m\<lparr>nest := (nest m)(h := (nest m h)\<lparr>except := Some e\<rparr>)\<rparr>)
      else m\<lparr>g_code := (g_code m)(h := Some G_final), g_active := None, g_thrown := Some e\<rparr>)"

definition gen_resume :: "nat \<Rightarrow> 'v gmachine \<Rightarrow> 'v gmachine" where
  "gen_resume h m =
     (case g_code m h of
        Some (G_run G_return) \<Rightarrow> GenFinalAwaiter_suspend h m
      | Some (G_run (G_throw e)) \<Rightarrow> gen_unhandled_exception h e m
      | Some (G_run (G_yield v p)) \<Rightarrow> yield_value h v p m
      | Some (G_run (G_elements g k)) \<Rightarrow> yield_elements h g k m
      | Some (G_wait c k) \<Rightarrow>
          (let m1 = gen_destroy c m
           in m1\<lparr>g_code := (g_code m1)(h := Some (G_run (k (NestedAwaiter_resume c m))))\<rparr>)
      | _ \<Rightarrow> m\<lparr>g_error := Some (Undefined ''resumed a generator that is not suspended''), g_active := None\<rparr>)"

section \<open>Generator objects and iterators\<close>

definition gen_begin :: "nat option \<Rightarrow> 'v gmachine \<Rightarrow> ('v gmachine, nat) call" where
  "gen_begin g m =
     (case g of
        None \<Rightarrow> (throw (Logic_error ''Can't call begin on moved-from generator''), m)
      | Some h \<Rightarrow> (ok h, m\<lparr>g_active := Some h\<rparr>))"

definition gen_done :: "nat \<Rightarrow> 'v gmachine \<Rightarrow> bool" where
  "gen_done h m = (case g_code m h of Some G_final \<Rightarrow> True | _ \<Rightarrow> False)"

definition iterator_bool :: "nat option \<Rightarrow> 'v gmachine \<Rightarrow> bool" where
  "iterator_bool it m = (case it of None \<Rightarrow> False | Some h \<Rightarrow> \<not> gen_done h m)"

definition iterator_deref :: "nat option \<Rightarrow> 'v gmachine \<Rightarrow> 'v result" where
  "iterator_deref it m =
     (case it of
        None \<Rightarrow> throw (Logic_error ''Should have a coroutine handle or the coroutine has not ended'')
      | Some h \<Rightarrow>
          if gen_done h m then throw (Logic_error ''Should have a coroutine handle or the coroutine has not ended'')
          else (case g_value m (g_top m h) of
                  None \<Rightarrow> Inl (Assert_fail ''value pointer is nullptr'') | Some v \<Rightarrow> ok v))"

definition iterator_next :: "nat option \<Rightarrow> 'v gmachine \<Rightarrow> ('v gmachine, unit) call" where
  "iterator_next it m =
     (if \<not> iterator_bool it m then (throw (Logic_error ''Can't increment generator end iterator''), m)
      else case it of None \<Rightarrow> (Inl (Undefined ''null handle''), m) | Some h \<Rightarrow> (ok (), m\<lparr>g_active := Some (g_top m h)\<rparr>))"

definition iterator_move_assign :: "nat option \<Rightarrow> nat option \<Rightarrow> (nat option \<times> nat option) result" where
  "iterator_move_assign self rhs =
     (if self \<noteq> None then throw (Logic_error ''Should not own a coroutine handle'')
      else Inl (Undefined ''control reaches the end of a function that returns a value''))"

definition Generator_move_assign :: "nat option \<Rightarrow> nat option \<Rightarrow> 'v gmachine \<Rightarrow> nat option \<times> nat option \<times> 'v gmachine" where
  "Generator_move_assign self other m =
     (other, None, case self of None \<Rightarrow> m | Some h \<Rightarrow> gen_destroy h m)"

definition Generator_delete :: "nat option \<Rightarrow> 'v gmachine \<Rightarrow> 'v gmachine" where
  "Generator_delete g m = (case g of None \<Rightarrow> m | Some h \<Rightarrow> gen_destroy h m)"

text \<open>The consumer: while the active generator runs it is resumed further; otherwise the loop reads an element and increments.\<close>

definition consume_step :: "nat \<Rightarrow> 'v gmachine \<Rightarrow> 'v gmachine option" where
  "consume_step it m =
     (if g_error m \<noteq> None \<or> g_thrown m \<noteq> None then None
      else case g_active m of
        Some h \<Rightarrow> Some (gen_resume h m)
      | None \<Rightarrow>
          if \<not> iterator_bool (Some it) m then None
          else (case iterator_deref (Some it) m of
                  Inl e \<Rightarrow> Some (m\<lparr>g_error := Some e\<rparr>)
                | Inr v \<Rightarrow> Some (snd (iterator_next (Some it) (m\<lparr>g_log := g_log m @ [v]\<rparr>)))))"

partial_function (option) consume :: "nat \<Rightarrow> 'v gmachine \<Rightarrow> 'v gmachine option" where
  "consume it m = (case consume_step it m of None \<Rightarrow> Some m | Some m' \<Rightarrow> consume it m')"

section \<open>Specification\<close>

text \<open>The elements of a body and the exception it ends with.\<close>

primrec elems :: "'v gen \<Rightarrow> 'v list \<times> exc option" where
  "elems G_return = ([], None)"
| "elems (G_throw e) = ([], Some e)"
| "elems (G_yield v p) = (v # fst (elems p), snd (elems p))"
| "elems (G_elements g k) =
     (let (xs, e) = (case map_option elems g of None \<Rightarrow> ([], None) | Some r \<Rightarrow> r);
          (ys, e') = elems (k e)
      in (xs @ ys, e'))"

lemma consume_next: "consume_step it m = Some m' \<Longrightarrow> consume it m = consume it m'"
  by (subst consume.simps) simp

lemma consume_end: "consume_step it m = None \<Longrightarrow> consume it m = Some m"
  by (subst consume.simps) simp

section \<open>The stack of a generator\<close>

text \<open>
  \<open>ks\<close> lists the generators that wait below the top \<open>t\<close>, nearest first, with what each of them does next;
  \<open>r\<close> is the root, whose iterator the consumer holds.
\<close>

primrec gen_linked :: "nat \<Rightarrow> nat \<Rightarrow> (nat \<times> (exc option \<Rightarrow> 'v gen)) list \<Rightarrow> 'v gmachine \<Rightarrow> bool" where
  "gen_linked r t [] m \<longleftrightarrow> \<not> g_info m t \<and> r = t"
| "gen_linked r t (f # ks) m \<longleftrightarrow>
     g_info m t \<and> nest m t = \<lparr>except = None, parent = fst f, root = r\<rparr> \<and> g_code m (fst f) = Some (G_wait t (snd f))
     \<and> gen_linked r (fst f) ks m"

definition gshape :: "nat \<Rightarrow> nat \<Rightarrow> (nat \<times> (exc option \<Rightarrow> 'v gen)) list \<Rightarrow> nat set \<Rightarrow> 'v gmachine \<Rightarrow> bool" where
  "gshape r t ks S m \<longleftrightarrow>
     gen_linked r t ks m \<and> g_top m r = t \<and> distinct (t # map fst ks)
     \<and> {x. g_code m x \<noteq> None} = S \<and> insert t (fst ` set ks) \<subseteq> S \<and> S \<subseteq> {..<g_next m}
     \<and> g_error m = None \<and> g_thrown m = None"

abbreviation stack_set :: "nat \<Rightarrow> (nat \<times> 'b) list \<Rightarrow> nat set" where
  "stack_set t ks \<equiv> insert t (fst ` set ks)"

text \<open>The four situations of a consumer: the top runs, has yielded, a parent is resumed after its child, the root has ended.\<close>

definition at_run :: "nat \<Rightarrow> nat \<Rightarrow> (nat \<times> (exc option \<Rightarrow> 'v gen)) list \<Rightarrow> 'v gen \<Rightarrow> 'v gmachine \<Rightarrow> bool" where
  "at_run r t ks p m \<longleftrightarrow>
     gshape r t ks (stack_set t ks) m \<and> g_code m t = Some (G_run p) \<and> g_active m = Some t"

definition at_yield ::
  "nat \<Rightarrow> nat \<Rightarrow> (nat \<times> (exc option \<Rightarrow> 'v gen)) list \<Rightarrow> 'v \<Rightarrow> 'v gen \<Rightarrow> 'v gmachine \<Rightarrow> bool" where
  "at_yield r t ks v p m \<longleftrightarrow>
     gshape r t ks (stack_set t ks) m \<and> g_code m t = Some (G_run p) \<and> g_active m = None \<and> g_value m t = Some v"

definition at_return ::
  "nat \<Rightarrow> nat \<Rightarrow> exc option \<Rightarrow> nat \<Rightarrow> (exc option \<Rightarrow> 'v gen) \<Rightarrow> (nat \<times> (exc option \<Rightarrow> 'v gen)) list \<Rightarrow> 'v gmachine \<Rightarrow> bool" where
  "at_return r c e t k ks m \<longleftrightarrow>
     gshape r t ks (insert c (stack_set t ks)) m \<and> c \<notin> stack_set t ks \<and> g_code m t = Some (G_wait c k)
     \<and> g_code m c = Some G_final \<and> except (nest m c) = e \<and> g_active m = Some t"

definition at_end :: "nat \<Rightarrow> exc option \<Rightarrow> 'v gmachine \<Rightarrow> bool" where
  "at_end r e m \<longleftrightarrow>
     g_code m = Map.empty(r \<mapsto> G_final) \<and> g_active m = None \<and> g_error m = None \<and> g_thrown m = e
     \<and> r < g_next m"

lemma gen_linked_cong:
  assumes "g_info m' t = g_info m t" and "nest m' t = nest m t"
    and "\<And>f. f \<in> set ks \<Longrightarrow> g_info m' (fst f) = g_info m (fst f) \<and> nest m' (fst f) = nest m (fst f)
      \<and> g_code m' (fst f) = g_code m (fst f)"
  shows "gen_linked r t ks m' = gen_linked r t ks m"
  using assms
proof (induction ks arbitrary: t)
  case (Cons f ks)
  have "gen_linked r (fst f) ks m' = gen_linked r (fst f) ks m" by (rule Cons.IH) (use Cons.prems in auto)
  then show ?case using Cons.prems(1,2) Cons.prems(3)[of f] by simp
qed simp

lemma not_in_stack: "t \<notin> fst ` set ks \<Longrightarrow> f \<in> set ks \<Longrightarrow> fst f \<noteq> t"
  by auto

lemma gen_linked_root: "gen_linked r t ks m \<Longrightarrow> r = last (t # map fst ks)"
  by (induction ks arbitrary: t) auto

lemma gen_done_code:
  "g_code m h = Some (G_wait c k) \<Longrightarrow> \<not> gen_done h m"
  "g_code m h = Some (G_run p) \<Longrightarrow> \<not> gen_done h m"
  "g_code m h = Some G_final \<Longrightarrow> gen_done h m"
  by (simp_all add: gen_done_def)

lemma not_done: "gen_linked r t ks m \<Longrightarrow> \<not> gen_done t m \<Longrightarrow> \<not> gen_done r m"
proof (induction ks arbitrary: t)
  case (Cons f ks)
  have "\<not> gen_done (fst f) m" by (rule gen_done_code(1)) (use Cons.prems in auto)
  then show ?case using Cons.IH[of "fst f"] Cons.prems by simp
qed simp

section \<open>The steps of the consumer\<close>

lemma run_step: "at_run r t ks p m \<Longrightarrow> consume_step r m = Some (gen_resume t m)"
  by (simp add: at_run_def gshape_def consume_step_def)

lemma step_yield:
  assumes "at_run r t ks (G_yield v p) m"
  shows "\<exists>m'. consume_step r m = Some m' \<and> at_yield r t ks v p m' \<and> g_log m' = g_log m"
proof -
  have "gen_resume t m = yield_value t v p m" using assms by (simp add: at_run_def gen_resume_def)
  moreover have "gen_linked r t ks (yield_value t v p m) = gen_linked r t ks m"
    by (rule gen_linked_cong) (use assms in \<open>auto simp: at_run_def gshape_def yield_value_def ElementAwaiter_suspend_def dest: not_in_stack\<close>)
  ultimately show ?thesis using assms run_step[OF assms]
    by (auto simp: at_run_def at_yield_def gshape_def yield_value_def ElementAwaiter_suspend_def)
qed

lemma step_moved_from:
  assumes "at_run r t ks (G_elements None k) m"
  shows "\<exists>m'. consume_step r m = Some m' \<and> at_run r t ks (k None) m' \<and> g_log m' = g_log m"
proof -
  have "gen_resume t m = m\<lparr>g_code := (g_code m)(t := Some (G_run (k None)))\<rparr>"
    using assms by (simp add: at_run_def gen_resume_def yield_elements_def)
  moreover have "gen_linked r t ks (m\<lparr>g_code := (g_code m)(t := Some (G_run (k None)))\<rparr>) = gen_linked r t ks m"
    by (rule gen_linked_cong) (use assms in \<open>auto simp: at_run_def gshape_def dest: not_in_stack\<close>)
  ultimately show ?thesis using assms run_step[OF assms]
    by (auto simp: at_run_def gshape_def)
qed

lemma step_nest:
  assumes "at_run r t ks (G_elements (Some q) k) m"
  shows "\<exists>m' c. consume_step r m = Some m' \<and> at_run r c ((t, k) # ks) q m' \<and> g_log m' = g_log m"
proof -
  define c where "c = g_next m"
  define m' where "m' = gen_resume t m"
  have sh: "gen_linked r t ks m" "g_top m r = t" "distinct (t # map fst ks)" "g_code m t = Some (G_run (G_elements (Some q) k))"
      "{x. g_code m x \<noteq> None} = stack_set t ks" "stack_set t ks \<subseteq> {..<c}" "g_error m = None" "g_thrown m = None"
    using assms by (auto simp: at_run_def gshape_def c_def)
  then have fresh: "c \<notin> stack_set t ks" by auto
  have root: "(if g_info m t then root (nest m t) else t) = r" using sh(1) by (cases ks) auto
  have m': "m' = m\<lparr>g_code := (g_code m)(c := Some (G_run q), t := Some (G_wait c k)), g_value := (g_value m)(c := None),
      g_top := (g_top m)(c := c, r := c), g_info := (g_info m)(c := True), g_next := c + 1,
      nest := (nest m)(c := \<lparr>except = None, parent = t, root = r\<rparr>), g_active := Some c\<rparr>"
  proof -
    have "t \<noteq> c" using fresh by auto
    then show ?thesis using sh(4) root
      by (cases m) (auto simp: m'_def gen_resume_def yield_elements_def gen_new_def NestedAwaiter_suspend_def Let_def c_def)
  qed
  have "gen_linked r t ks m' = gen_linked r t ks m"
    by (rule gen_linked_cong) (use sh fresh in \<open>auto simp: m' dest: not_in_stack\<close>)
  moreover have "{x. g_code m' x \<noteq> None} = insert c (stack_set t ks)" using sh(4,5) by (auto simp: m')
  moreover have "stack_set t ks \<subseteq> {..<Suc c}" using sh(6) by auto
  ultimately have "at_run r c ((t, k) # ks) q m'"
    using sh fresh by (auto simp: at_run_def gshape_def m')
  then show ?thesis using run_step[OF assms] by (auto simp: m'_def[symmetric]) (auto simp: m')
qed

lemma step_resume:
  assumes "at_yield r t ks v p m"
  shows "\<exists>m'. consume_step r m = Some m' \<and> at_run r t ks p m' \<and> g_log m' = g_log m @ [v]"
proof -
  have sh: "gen_linked r t ks m" "g_top m r = t" "g_code m t = Some (G_run p)" "g_value m t = Some v" "g_active m = None"
      "g_error m = None" "g_thrown m = None"
    using assms by (auto simp: at_yield_def gshape_def)
  define m' where "m' = m\<lparr>g_log := g_log m @ [v], g_active := Some t\<rparr>"
  have "\<not> gen_done r m" by (rule not_done[OF sh(1) gen_done_code(2)[OF sh(3)]])
  moreover have "gen_done r (m\<lparr>g_log := x\<rparr>) = gen_done r m" for x by (simp add: gen_done_def)
  ultimately have "consume_step r m = Some m'"
    using sh by (simp add: consume_step_def iterator_bool_def iterator_deref_def iterator_next_def m'_def)
  moreover have "gen_linked r t ks m' = gen_linked r t ks m" by (rule gen_linked_cong) (auto simp: m'_def)
  ultimately show ?thesis using assms by (auto simp: at_yield_def at_run_def gshape_def m'_def)
qed

text \<open>How a body ends: the root returns or throws to the consumer, a nested generator to its parent.\<close>

fun ends_with :: "'v gen \<Rightarrow> exc option \<Rightarrow> bool" where
  "ends_with G_return e = (e = None)"
| "ends_with (G_throw x) e = (e = Some x)"
| "ends_with _ _ = False"

lemma step_end_root:
  assumes "at_run r t [] p m" and "ends_with p e"
  shows "\<exists>m'. consume_step r m = Some m' \<and> at_end r e m' \<and> g_log m' = g_log m"
proof -
  have sh: "\<not> g_info m t" "r = t" "g_code m t = Some (G_run p)" "{x. g_code m x \<noteq> None} = {t}" "g_error m = None" "g_thrown m = None"
      "t < g_next m"
    using assms(1) by (auto simp: at_run_def gshape_def)
  have "(g_code m)(t := Some G_final) = Map.empty(t \<mapsto> G_final)" using sh(4) by (auto simp: fun_eq_iff set_eq_iff)
  then show ?thesis using assms(2) sh run_step[OF assms(1)]
    by (cases p) (simp_all add: gen_resume_def GenFinalAwaiter_suspend_def gen_unhandled_exception_def at_end_def)
qed

lemma step_end_nested:
  assumes "at_run r c ((t, k) # ks) p m" and "ends_with p e"
  shows "\<exists>m'. consume_step r m = Some m' \<and> at_return r c e t k ks m' \<and> g_log m' = g_log m"
proof -
  define m' where "m' = gen_resume c m"
  have sh: "g_info m c" "nest m c = \<lparr>except = None, parent = t, root = r\<rparr>" "g_code m t = Some (G_wait c k)" "gen_linked r t ks m"
      "distinct (c # t # map fst ks)" "g_code m c = Some (G_run p)" "{x. g_code m x \<noteq> None} = insert c (stack_set t ks)"
      "insert c (stack_set t ks) \<subseteq> {..<g_next m}" "g_error m = None" "g_thrown m = None"
    using assms(1) by (auto simp: at_run_def gshape_def)
  have m': "m' = m\<lparr>g_code := (g_code m)(c := Some G_final), g_top := (g_top m)(r := t), g_info := (g_info m)(c := False),
      nest := (nest m)(c := \<lparr>except = e, parent = t, root = r\<rparr>), g_active := Some t\<rparr>"
    using assms(2) sh(1,2,6) fun_upd_triv[of "nest m" c]
    by (cases p) (simp_all add: m'_def gen_resume_def GenFinalAwaiter_suspend_def gen_unhandled_exception_def)
  have "gen_linked r t ks m' = gen_linked r t ks m"
    by (rule gen_linked_cong) (use sh(5) in \<open>auto simp: m' dest: not_in_stack\<close>)
  moreover have "{x. g_code m' x \<noteq> None} = insert c (stack_set t ks)" using sh(7) by (auto simp: m')
  ultimately have "at_return r c e t k ks m'"
    using sh by (auto simp: at_return_def gshape_def m')
  then show ?thesis using run_step[OF assms(1)] by (auto simp: m'_def[symmetric]) (auto simp: m')
qed

lemma gen_destroy_plain:
  assumes "\<not> (\<exists>d k. g_code m c = Some (G_wait d k))" and "0 < g_next m"
  shows "gen_destroy c m = m\<lparr>g_code := (g_code m)(c := None)\<rparr>"
  using assms by (cases "g_next m") (auto simp: gen_destroy_def split: option.split gcode.split)

lemma step_return:
  assumes "at_return r c e t k ks m"
  shows "\<exists>m'. consume_step r m = Some m' \<and> at_run r t ks (k e) m' \<and> g_log m' = g_log m"
proof -
  have sh: "gen_linked r t ks m" "g_top m r = t" "distinct (t # map fst ks)" "c \<notin> stack_set t ks" "g_code m t = Some (G_wait c k)"
      "g_code m c = Some G_final" "except (nest m c) = e" "{x. g_code m x \<noteq> None} = insert c (stack_set t ks)" "c < g_next m"
      "stack_set t ks \<subseteq> {..<g_next m}" "g_error m = None" "g_thrown m = None" "g_active m = Some t"
    using assms by (auto simp: at_return_def gshape_def)
  define m' where "m' = m\<lparr>g_code := (g_code m)(c := None, t := Some (G_run (k e)))\<rparr>"
  have "gen_resume t m = m'"
    using sh gen_destroy_plain[of m c] by (simp add: gen_resume_def NestedAwaiter_resume_def Let_def m'_def)
  then have "consume_step r m = Some m'" using sh by (simp add: consume_step_def)
  moreover have "gen_linked r t ks m' = gen_linked r t ks m"
    by (rule gen_linked_cong) (use sh(3,4) in \<open>auto simp: m'_def dest: not_in_stack\<close>)
  moreover have "{x. g_code m' x \<noteq> None} = stack_set t ks" using sh(4,8) by (auto simp: m'_def set_eq_iff)
  ultimately show ?thesis using sh by (auto simp: at_run_def gshape_def m'_def)
qed

lemma step_none: "at_end r e m \<Longrightarrow> consume_step r m = None"
  by (simp add: at_end_def consume_step_def iterator_bool_def gen_done_def)

section \<open>Every run delivers the elements and ends\<close>

text \<open>What remains to be delivered when the top of a stack ends with the given elements and exception.\<close>

primrec unwind :: "(exc option \<Rightarrow> 'v gen) list \<Rightarrow> 'v list \<times> exc option \<Rightarrow> 'v list \<times> exc option" where
  "unwind [] y = y"
| "unwind (k # ks) y = (let z = unwind ks (elems (k (snd y))) in (fst y @ fst z, snd z))"

abbreviation follow :: "'v list \<Rightarrow> 'v list \<times> exc option \<Rightarrow> 'v list \<times> exc option" where
  "follow xs y \<equiv> (xs @ fst y, snd y)"

lemma unwind_follow: "unwind ks (follow xs y) = follow xs (unwind ks y)"
  by (cases ks) (simp_all add: Let_def)

lemma elems_nested: "elems (G_elements (Some q) k) = follow (fst (elems q)) (elems (k (snd (elems q))))"
  by (simp add: case_prod_unfold Let_def)

definition ginv :: "nat \<Rightarrow> 'v gen \<Rightarrow> 'v gmachine \<Rightarrow> bool" where
  "ginv r p0 m \<longleftrightarrow>
     (\<exists>t ks p. at_run r t ks p m \<and> follow (g_log m) (unwind (map snd ks) (elems p)) = elems p0)
     \<or> (\<exists>t ks v p. at_yield r t ks v p m \<and> follow (g_log m @ [v]) (unwind (map snd ks) (elems p)) = elems p0)
     \<or> (\<exists>c e t k ks. at_return r c e t k ks m \<and> follow (g_log m) (unwind (map snd ks) (elems (k e))) = elems p0)
     \<or> (\<exists>e. at_end r e m \<and> (g_log m, e) = elems p0)"

lemma ginvI:
  "at_run r t ks p m \<Longrightarrow> follow (g_log m) (unwind (map snd ks) (elems p)) = elems p0 \<Longrightarrow> ginv r p0 m"
  "at_yield r t ks v p m \<Longrightarrow> follow (g_log m @ [v]) (unwind (map snd ks) (elems p)) = elems p0 \<Longrightarrow> ginv r p0 m"
  "at_return r c e t k ks m \<Longrightarrow> follow (g_log m) (unwind (map snd ks) (elems (k e))) = elems p0 \<Longrightarrow> ginv r p0 m"
  "at_end r e m \<Longrightarrow> (g_log m, e) = elems p0 \<Longrightarrow> ginv r p0 m"
  unfolding ginv_def by blast+

lemma ginv_end:
  assumes "at_run r t ks p m" and "ends_with p e" and "follow (g_log m) (unwind (map snd ks) (elems p)) = elems p0"
    and "consume_step r m = Some m'"
  shows "ginv r p0 m'"
proof -
  have p: "elems p = ([], e)" using assms(2) by (cases p) auto
  show ?thesis
  proof (cases ks)
    case Nil
    then have "at_end r e m'" "g_log m' = g_log m" using step_end_root[of r t p m e] assms by auto
    then show ?thesis using assms(3) p Nil by (auto intro!: ginvI(4)[of r e])
  next
    case (Cons f ks')
    then have "at_return r t e (fst f) (snd f) ks' m'" "g_log m' = g_log m"
      using step_end_nested[of r t "fst f" "snd f" ks' p m e] assms by auto
    then show ?thesis using assms(3) p Cons by (auto intro!: ginvI(3) simp: Let_def)
  qed
qed

lemma ginv_run:
  assumes "at_run r t ks p m" and "follow (g_log m) (unwind (map snd ks) (elems p)) = elems p0"
    and "consume_step r m = Some m'"
  shows "ginv r p0 m'"
proof (cases p)
  case (G_yield v q)
  then have "at_yield r t ks v q m'" "g_log m' = g_log m" using step_yield[of r t ks v q m] assms by auto
  moreover have "elems p = follow [v] (elems q)" using G_yield by simp
  ultimately show ?thesis using assms(2) unwind_follow[of "map snd ks" "[v]"] by (auto intro!: ginvI(2))
next
  case (G_elements g k)
  show ?thesis
  proof (cases g)
    case None
    then have "at_run r t ks (k None) m'" "g_log m' = g_log m" using step_moved_from[of r t ks k m] assms G_elements by auto
    moreover have "elems p = elems (k None)" using G_elements None by (simp add: case_prod_unfold)
    ultimately show ?thesis using assms(2) by (auto intro!: ginvI(1))
  next
    case (Some q)
    then obtain c where "at_run r c ((t, k) # ks) q m'" "g_log m' = g_log m"
      using step_nest[of r t ks q k m] assms G_elements by auto
    moreover have "unwind (map snd ks) (elems p) = unwind (map snd ((t, k) # ks)) (elems q)"
      using unwind_follow[of "map snd ks" "fst (elems q)"] elems_nested[of q k] G_elements Some by (simp add: Let_def)
    ultimately show ?thesis using assms(2) by (auto intro!: ginvI(1))
  qed
next
  case G_return
  then show ?thesis using ginv_end[OF assms(1) _ assms(2,3), of None] by simp
next
  case (G_throw x)
  then show ?thesis using ginv_end[OF assms(1) _ assms(2,3), of "Some x"] by simp
qed

lemma ginv_step:
  assumes "ginv r p0 m" and "consume_step r m = Some m'"
  shows "ginv r p0 m'"
proof -
  consider (run) t ks p where "at_run r t ks p m" "follow (g_log m) (unwind (map snd ks) (elems p)) = elems p0"
    | (yielded) t ks v p where "at_yield r t ks v p m" "follow (g_log m @ [v]) (unwind (map snd ks) (elems p)) = elems p0"
    | (returned) c e t k ks where "at_return r c e t k ks m" "follow (g_log m) (unwind (map snd ks) (elems (k e))) = elems p0"
    | (over) e where "at_end r e m"
    using assms(1) unfolding ginv_def by blast
  then show ?thesis
  proof cases
    case run
    then show ?thesis using assms(2) by (rule ginv_run)
  next
    case yielded
    then have "at_run r t ks p m'" "g_log m' = g_log m @ [v]" using step_resume[of r t ks v p m] assms(2) by auto
    then show ?thesis using yielded(2) by (auto intro!: ginvI(1))
  next
    case returned
    then have "at_run r t ks (k e) m'" "g_log m' = g_log m" using step_return[of r c e t k ks m] assms(2) by auto
    then show ?thesis using returned(2) by (auto intro!: ginvI(1))
  next
    case over
    then show ?thesis using step_none[of r e m] assms(2) by simp
  qed
qed

definition gen_step :: "nat \<Rightarrow> 'v gmachine \<Rightarrow> 'v gmachine \<Rightarrow> bool" where
  "gen_step r m m' \<longleftrightarrow> consume_step r m = Some m'"

definition halts :: "nat \<Rightarrow> 'v gmachine \<Rightarrow> bool" where
  "halts r m \<longleftrightarrow> (\<exists>n m'. steps (gen_step r) n m m' \<and> consume_step r m' = None \<and> consume r m = Some m')"

lemma halts_next:
  assumes "consume_step r m = Some m'" and "halts r m'"
  shows "halts r m"
proof -
  obtain n u where "steps (gen_step r) n m' u" "consume_step r u = None" "consume r m' = Some u"
    using assms(2) by (auto simp: halts_def)
  then have "steps (gen_step r) (Suc n) m u \<and> consume_step r u = None \<and> consume r m = Some u"
    using assms(1) by (auto simp: gen_step_def consume_next)
  then show ?thesis unfolding halts_def by blast
qed

lemma halts_end: "at_end r e m \<Longrightarrow> halts r m"
  unfolding halts_def by (rule exI[of _ 0], rule exI[of _ m]) (simp add: step_none consume_end)

lemma end_halts:
  assumes "\<And>f ks' c e m'. ks = f # ks' \<Longrightarrow> at_return r c e (fst f) (snd f) ks' m' \<Longrightarrow> halts r m'"
    and "at_run r t ks p m" and "ends_with p e"
  shows "halts r m"
proof (cases ks)
  case Nil
  then obtain m' where "consume_step r m = Some m'" "at_end r e m'" using step_end_root[of r t p m e] assms(2,3) by auto
  then show ?thesis by (rule halts_next[OF _ halts_end])
next
  case (Cons f ks')
  then obtain m' where "consume_step r m = Some m'" "at_return r t e (fst f) (snd f) ks' m'"
    using step_end_nested[of r t "fst f" "snd f" ks' p m e] assms(2,3) by auto
  then show ?thesis using halts_next assms(1)[OF Cons] by blast
qed

text \<open>A stack halts when it does after the end of its top, however the top ends.\<close>

lemma run_halts:
  assumes "\<And>f ks' c e m'. ks = f # ks' \<Longrightarrow> at_return r c e (fst f) (snd f) ks' m' \<Longrightarrow> halts r m'"
    and "at_run r t ks p m"
  shows "halts r m"
  using assms
proof (induction p arbitrary: t ks m)
  case G_return
  then show ?case by (rule end_halts) simp_all
next
  case (G_throw x)
  then show ?case by (rule end_halts) simp_all
next
  case (G_yield v p)
  obtain m1 where m1: "consume_step r m = Some m1" "at_yield r t ks v p m1" using step_yield[OF G_yield.prems(2)] by auto
  obtain m2 where m2: "consume_step r m1 = Some m2" "at_run r t ks p m2" using step_resume[OF m1(2)] by auto
  have "halts r m2" by (rule G_yield.IH[OF G_yield.prems(1) m2(2)])
  then show ?case using m1(1) m2(1) by (blast intro: halts_next)
next
  case (G_elements g k)
  show ?case
  proof (cases g)
    case None
    obtain m1 where m1: "consume_step r m = Some m1" "at_run r t ks (k None) m1"
      using step_moved_from[of r t ks k m] G_elements.prems(2) None by auto
    have "halts r m1" by (rule G_elements.IH(2)[OF _ G_elements.prems(1) m1(2)]) auto
    then show ?thesis using m1(1) by (blast intro: halts_next)
  next
    case (Some q)
    obtain m1 c where m1: "consume_step r m = Some m1" "at_run r c ((t, k) # ks) q m1"
      using step_nest[of r t ks q k m] G_elements.prems(2) Some by auto
    have ret: "halts r m'" if at: "at_return r d e t k ks m'" for d e m'
    proof -
      obtain m2 where m2: "consume_step r m' = Some m2" "at_run r t ks (k e) m2" using step_return[OF at] by auto
      have "halts r m2" by (rule G_elements.IH(2)[OF _ G_elements.prems(1) m2(2)]) auto
      then show ?thesis using m2(1) by (blast intro: halts_next)
    qed
    have "halts r m1" by (rule G_elements.IH(1)[of q "(t, k) # ks" c m1]) (use m1(2) Some ret in auto)
    then show ?thesis using m1(1) by (blast intro: halts_next)
  qed
qed

lemma ginv_final:
  assumes "ginv r p0 m" and "consume_step r m = None"
  shows "\<exists>e. at_end r e m \<and> (g_log m, e) = elems p0"
  using assms step_resume step_return run_step unfolding ginv_def by (metis option.distinct(1))

text \<open>The root, as \<open>begin\<close> leaves it.\<close>

definition gen_start :: "'v gen \<Rightarrow> 'v gmachine" where
  "gen_start p = (let (h, m) = gen_new p gmachine_new in snd (gen_begin (Some h) m))"

lemma gen_start_run: "at_run 0 0 [] p (gen_start p)" "g_log (gen_start p) = []"
  by (auto simp: gen_start_def gen_new_def gen_begin_def gmachine_new_def at_run_def gshape_def split: if_splits)

lemma gen_start_inv: "ginv 0 p (gen_start p)"
  by (rule ginvI(1)[OF gen_start_run(1)]) (simp add: gen_start_run(2))

definition gen_init :: "'v gen \<Rightarrow> 'v gmachine \<Rightarrow> bool" where
  "gen_init p m \<longleftrightarrow> m = gen_start p"

interpretation gn: inv_system "gen_init p" "gen_step 0" "ginv 0 p" for p
  by unfold_locales (auto simp: gen_init_def gen_step_def gen_start_inv intro: ginv_step)

lemma gen_start_halts: "halts 0 (gen_start p)"
  by (rule run_halts[OF _ gen_start_run(1)]) simp

section \<open>Abandoned generators\<close>

text \<open>A chain of frames, the root first, each waiting for the next; the last one waits for nothing.\<close>

fun wait_chain :: "nat list \<Rightarrow> 'v gmachine \<Rightarrow> bool" where
  "wait_chain [] m \<longleftrightarrow> False"
| "wait_chain [t] m \<longleftrightarrow> (\<forall>c k. g_code m t \<noteq> Some (G_wait c k))"
| "wait_chain (h # c # hs) m \<longleftrightarrow> (\<exists>k. g_code m h = Some (G_wait c k)) \<and> wait_chain (c # hs) m"

lemma destroy_chain:
  assumes "wait_chain hs m" and "length hs \<le> n"
  shows "g_code (gen_destroy_n n (hd hs) m) = (\<lambda>x. if x \<in> set hs then None else g_code m x)"
  using assms
proof (induction hs m arbitrary: n rule: wait_chain.induct)
  case (1 m)
  then show ?case by simp
next
  case (2 t m)
  then show ?case by (cases n) (auto simp: fun_eq_iff split: option.split gcode.split)
next
  case (3 h c hs m)
  obtain k where k: "g_code m h = Some (G_wait c k)" using "3.prems" by auto
  obtain n' where n: "n = Suc n'" using "3.prems" by (cases n) auto
  have "g_code (gen_destroy_n n' c m) = (\<lambda>x. if x \<in> set (c # hs) then None else g_code m x)"
    using "3.IH"[of n'] "3.prems" n by simp
  then show ?case using k n by (auto simp: fun_eq_iff Let_def)
qed

lemma linked_chain:
  "gen_linked r t ks m \<Longrightarrow> wait_chain (t # us) m \<Longrightarrow>
     wait_chain (rev (map fst ks) @ t # us) m \<and> hd (rev (map fst ks) @ t # us) = r"
proof (induction ks arbitrary: t us)
  case (Cons f ks)
  then have "wait_chain (fst f # t # us) m" by auto
  then show ?case using Cons.IH[of "fst f" "t # us"] Cons.prems(1) by simp
qed simp

lemma destroy_stack:
  assumes "gshape r t ks (stack_set t ks) m" and "\<forall>c k. g_code m t \<noteq> Some (G_wait c k)"
  shows "g_code (gen_destroy r m) = Map.empty"
proof -
  have sh: "gen_linked r t ks m" "distinct (t # map fst ks)" "{x. g_code m x \<noteq> None} = stack_set t ks"
      "stack_set t ks \<subseteq> {..<g_next m}"
    using assms(1) by (auto simp: gshape_def)
  let ?hs = "rev (map fst ks) @ [t]"
  have "card (set ?hs) = length ?hs" using sh(2) by (intro distinct_card) auto
  moreover have "card (set ?hs) \<le> card {..<g_next m}" by (rule card_mono) (use sh(4) in auto)
  ultimately have "length ?hs \<le> g_next m" by simp
  moreover have "wait_chain ?hs m" "hd ?hs = r" using linked_chain[OF sh(1), of "[]"] assms(2) by auto
  ultimately have "g_code (gen_destroy r m) = (\<lambda>x. if x \<in> set ?hs then None else g_code m x)"
    using destroy_chain[of ?hs m "g_next m"] by (simp add: gen_destroy_def)
  then show ?thesis using sh(3) by (auto simp: fun_eq_iff set_eq_iff)
qed

lemma destroy_end: "at_end r e m \<Longrightarrow> g_code (gen_destroy r m) = Map.empty"
  using gen_destroy_plain[of m r] by (auto simp: at_end_def)

lemma elems_of_range: "elems (gen_of_range xs) = (xs, None)"
  by (induction xs) simp_all

text \<open>\<open>co_yield elements_of\<close> a range, then one more element.\<close>

definition demo_gen :: "nat gen" where
  "demo_gen = G_elements (Some (gen_of_range [1, 2])) (\<lambda>_. G_yield 3 G_return)"

definition demo_gstate :: "nat gmachine" where
  "demo_gstate = the (consume_step 0 (the (consume_step 0 (gen_start demo_gen))))"

lemma demo_gstate_reach: "reach (gen_init demo_gen) (gen_step 0) demo_gstate" "g_active demo_gstate = None"
proof -
  let ?m0 = "gen_start demo_gen"
  have r: "at_run 0 0 [] demo_gen ?m0" by (rule gen_start_run)
  then obtain m1 c where m1: "consume_step 0 ?m0 = Some m1"
      "at_run 0 c [(0, \<lambda>_. G_yield 3 G_return)] (gen_of_range [1, 2]) m1"
    using step_nest[of 0 0 "[]" "gen_of_range [1, 2]" "\<lambda>_. G_yield 3 G_return" ?m0] by (auto simp: demo_gen_def)
  then obtain m2 where m2: "consume_step 0 m1 = Some m2" "g_active m2 = None"
    using step_yield[of 0 c _ 1 "gen_of_range [2]" m1] by (auto simp: at_yield_def)
  have "demo_gstate = m2" using m1(1) m2(1) by (simp add: demo_gstate_def)
  moreover have "reach (gen_init demo_gen) (gen_step 0) m2"
  proof (rule reach_step)
    show "reach (gen_init demo_gen) (gen_step 0) m1"
    proof (rule reach_step)
      show "reach (gen_init demo_gen) (gen_step 0) ?m0" by (rule reach_init) (simp add: gen_init_def)
    qed (simp add: gen_step_def m1(1))
  qed (simp add: gen_step_def m2(1))
  ultimately show "reach (gen_init demo_gen) (gen_step 0) demo_gstate" "g_active demo_gstate = None" using m2(2) by auto
qed

section \<open>Properties\<close>

text \<open>
  C14.  A loop over a generator ends and sees what the body yields: the elements in order, those of nested
  generators and ranges in place, and the exception that leaves the body, if one does; exceptions of a
  nested generator are thrown in its parent.  Afterwards only the frame of the root is left, ended,
  for the iterator to destroy.
\<close>

theorem generator_elements:
  "\<exists>m'. consume 0 (gen_start p) = Some m' \<and> (g_log m', g_thrown m') = elems p \<and> g_error m' = None
     \<and> g_code m' = Map.empty(0 \<mapsto> G_final) \<and> g_code (Generator_delete (Some 0) m') = Map.empty"
proof -
  obtain n m' where m': "steps (gen_step 0) n (gen_start p) m'" "consume_step 0 m' = None" "consume 0 (gen_start p) = Some m'"
    using gen_start_halts[of p] by (auto simp: halts_def)
  have "ginv 0 p m'" by (rule gn.steps_inv[OF gen_start_inv m'(1)])
  then obtain e where "at_end 0 e m'" "(g_log m', e) = elems p" using ginv_final m'(2) by blast
  then show ?thesis using m'(3) destroy_end[of 0 e m'] by (auto simp: at_end_def Generator_delete_def)
qed

text \<open>
  Whenever the consumer has control it has seen a prefix of the elements and nothing has failed;
  if it stops there, destroying the iterator destroys the frames of all nested generators too.
\<close>

theorem generator_abandoned:
  assumes "reach (gen_init p) (gen_step 0) m" and "g_active m = None"
  shows "(\<exists>ys. fst (elems p) = g_log m @ ys) \<and> g_error m = None \<and> g_code (Generator_delete (Some 0) m) = Map.empty"
proof -
  have "ginv 0 p m" by (rule gn.reach_inv[OF assms(1)])
  then consider (yielded) t ks v q where "at_yield 0 t ks v q m" "follow (g_log m @ [v]) (unwind (map snd ks) (elems q)) = elems p"
    | (over) e where "at_end 0 e m" "(g_log m, e) = elems p"
    using assms(2) unfolding ginv_def by (auto simp: at_run_def at_return_def)
  then have "(\<exists>ys. fst (elems p) = g_log m @ ys) \<and> g_error m = None \<and> g_code (gen_destroy 0 m) = Map.empty"
  proof cases
    case yielded
    then have "gshape 0 t ks (stack_set t ks) m" "g_code m t = Some (G_run q)" by (auto simp: at_yield_def)
    moreover from this have "g_code (gen_destroy 0 m) = Map.empty" by (intro destroy_stack) auto
    moreover have "g_error m = None" using calculation(1) by (simp add: gshape_def)
    moreover have "fst (elems p) = g_log m @ v # fst (unwind (map snd ks) (elems q))" using yielded(2) by (metis append.assoc append_Cons append_Nil fst_conv)
    ultimately show ?thesis by blast
  next
    case over
    then show ?thesis using destroy_end[OF over(1)] by (metis append_Nil2 at_end_def fst_conv)
  qed
  then show ?thesis by (simp add: Generator_delete_def)
qed

theorem generator_abandoned_witness:
  "g_active demo_gstate = None \<and> (\<exists>ys. [1, 2, 3] = g_log demo_gstate @ ys) \<and> g_error demo_gstate = None
     \<and> g_code (Generator_delete (Some 0) demo_gstate) = Map.empty"
proof -
  have "fst (elems demo_gen) = [1, 2, 3]" by (simp add: demo_gen_def)
  then show ?thesis using generator_abandoned[OF demo_gstate_reach] demo_gstate_reach(2) by simp
qed

end
