(* ===== verification/FutureAwaiter_Model.thy ===== *)
theory FutureAwaiter_Model
  imports Try_Model
begin

text \<open>
  Awaiting a \<open>Future\<close> in a \<open>Lazy\<close>: \<open>FutureAwaiter\<close> (async_simple/coro/FutureAwaiter.h) with its race
  between the result and the cancellation, and \<open>ResumeBySchedule\<close>
  (async_simple/coro/ResumeBySchedule.h).

  A state holds the awaiter's member \<open>future_\<close> (the result in it, \<open>None\<close> while it has none), the shared flag
  \<open>state\<close>, and the positions of the three parties: the suspending coroutine, the cancellation handler and
  the continuation of the awaited future.  The result (\<open>fw_val\<close>) arrives and the signal is emitted at any
  moment, on any thread.
\<close>

section \<open>Awaiting with a cancellation slot\<close>

datatype sus_pc = P_move | P_arm | P_set | P_suspended | P_refused

datatype trig_pc = T_none | T_armed | T_swap | T_store | T_resume | T_end

text \<open>How the coroutine goes on: through \<open>checkin\<close>, by \<open>resume()\<close>, because \<open>await_suspend\<close> returned false, or scheduled.\<close>

datatype route = Checkin nat "64 word" | Resume_direct | Goes_on | Schedule nat

definition resume_route :: "nat option \<Rightarrow> 64 word \<Rightarrow> route" where
  "resume_route ex ctx = (case ex of None \<Rightarrow> Resume_direct | Some x \<Rightarrow> Checkin x ctx)"

record 'v fawait =
  fw_ex :: "nat option"
  fw_ctx :: "64 word"
  fw_val :: "'v Try_t"
  fw_ready :: bool
  fw_emitted :: bool
  fw_pc :: sus_pc
  fw_future :: "'v Try_t option"
  fw_flag :: bool
  fw_handler :: trig_pc
  fw_cont :: trig_pc
  fw_resumed :: "(route \<times> 'v Try_t option) list"
  fw_failed :: bool

abbreviation cancelled :: "'v Try_t" where
  "cancelled \<equiv> Exception (Signal_exception 1 ''FutureAwaiter is cancelled by signal'')"

definition FutureAwaiter_ready :: "'v Try_t option \<Rightarrow> bool" where
  "FutureAwaiter_ready future = (future \<noteq> None)"

text \<open>\<open>await_suspend\<close> on a cancellable coroutine: the executor is checked out when there is one.\<close>

definition FutureAwaiter_suspend :: "nat option \<Rightarrow> 64 word \<Rightarrow> 'v Try_t \<Rightarrow> bool \<Rightarrow> bool \<Rightarrow> 'v fawait" where
  "FutureAwaiter_suspend ex checkout val ready emitted =
     \<lparr>fw_ex = ex, fw_ctx = (if ex = None then 0 else checkout), fw_val = val, fw_ready = ready, fw_emitted = emitted,
      fw_pc = P_move, fw_future = None, fw_flag = True, fw_handler = T_none, fw_cont = T_none, fw_resumed = [],
      fw_failed = False\<rparr>"

definition wake :: "route \<Rightarrow> 'v fawait \<Rightarrow> 'v fawait" where
  "wake w s = s\<lparr>fw_resumed := fw_resumed s @ [(w, fw_future s)]\<rparr>"

text \<open>\<open>await_suspend_cancellable\<close>: the member gets the cancellation, the handler is armed, the continuation installed.\<close>

definition await_suspend_cancellable :: "'v fawait \<Rightarrow> 'v fawait option" where
  "await_suspend_cancellable s =
     (case fw_pc s of
        P_move \<Rightarrow> Some (s\<lparr>fw_future := Some cancelled, fw_flag := True, fw_pc := P_arm\<rparr>)
      | P_arm \<Rightarrow>
          if fw_emitted s then Some (wake Goes_on (s\<lparr>fw_pc := P_refused\<rparr>))
          else Some (s\<lparr>fw_handler := T_armed, fw_pc := P_set\<rparr>)
      | P_set \<Rightarrow> Some (s\<lparr>fw_cont := T_armed, fw_pc := P_suspended\<rparr>)
      | _ \<Rightarrow> None)"

definition cancel_handler :: "'v fawait \<Rightarrow> 'v fawait option" where
  "cancel_handler s =
     (case fw_handler s of
        T_armed \<Rightarrow> if fw_emitted s then Some (s\<lparr>fw_handler := T_swap\<rparr>) else None
      | T_swap \<Rightarrow> Some (s\<lparr>fw_flag := False, fw_handler := if fw_flag s then T_resume else T_end\<rparr>)
      | T_resume \<Rightarrow> Some (wake (resume_route (fw_ex s) (fw_ctx s)) (s\<lparr>fw_handler := T_end\<rparr>))
      | _ \<Rightarrow> None)"

text \<open>The continuation stores into the awaiter, which dies when the coroutine is resumed.\<close>

definition future_continuation :: "'v fawait \<Rightarrow> 'v fawait option" where
  "future_continuation s =
     (case fw_cont s of
        T_armed \<Rightarrow> if fw_ready s then Some (s\<lparr>fw_cont := T_swap\<rparr>) else None
      | T_swap \<Rightarrow> Some (s\<lparr>fw_flag := False, fw_cont := if fw_flag s then T_store else T_end\<rparr>)
      | T_store \<Rightarrow>
          Some (s\<lparr>fw_failed := (fw_failed s \<or> fw_resumed s \<noteq> []), fw_future := Some (fw_val s), fw_cont := T_resume\<rparr>)
      | T_resume \<Rightarrow> Some (wake (resume_route (fw_ex s) (fw_ctx s)) (s\<lparr>fw_cont := T_end\<rparr>))
      | _ \<Rightarrow> None)"

inductive fw_move :: "'v fawait \<Rightarrow> 'v fawait \<Rightarrow> bool" where
  suspend_move: "await_suspend_cancellable s = Some t \<Longrightarrow> fw_move s t"
| handler_move: "cancel_handler s = Some t \<Longrightarrow> fw_move s t"
| cont_move: "future_continuation s = Some t \<Longrightarrow> fw_move s t"

inductive fw_step :: "'v fawait \<Rightarrow> 'v fawait \<Rightarrow> bool" where
  code_step: "fw_move s t \<Longrightarrow> fw_step s t"
| emit_step: "fw_step s (s\<lparr>fw_emitted := True\<rparr>)"
| result_step: "fw_step s (s\<lparr>fw_ready := True\<rparr>)"

definition fw_init :: "'v fawait \<Rightarrow> bool" where
  "fw_init s \<longleftrightarrow> (\<exists>ex checkout val ready emitted. s = FutureAwaiter_suspend ex checkout val ready emitted)"

section \<open>The other forms\<close>

text \<open>Without a slot, \<open>await_suspend\<close> installs one continuation: how it resumes the coroutine.\<close>

definition FutureAwaiter_continuation :: "nat option \<Rightarrow> 64 word \<Rightarrow> route" where
  "FutureAwaiter_continuation ex checkout = resume_route ex (if ex = None then 0 else checkout)"

definition ResumeBySchedule_continuation :: "nat option \<Rightarrow> route" where
  "ResumeBySchedule_continuation ex = (case ex of None \<Rightarrow> Resume_direct | Some x \<Rightarrow> Schedule x)"

text \<open>\<open>await_resume\<close>: the value of \<open>future_\<close>; for \<open>Future<void>\<close> the future is not looked at.\<close>

definition FutureAwaiter_resume :: "'v Try_t option \<Rightarrow> 'v result" where
  "FutureAwaiter_resume future =
     (case future of None \<Rightarrow> throw (Logic_error ''Future is not ready'') | Some t \<Rightarrow> try_value_of t)"

definition FutureAwaiter_resume_void :: "'v Try_t option \<Rightarrow> unit result" where
  "FutureAwaiter_resume_void future = ok ()"

definition ResumeBySchedule_resume :: "'v Try_t option \<Rightarrow> 'v result" where
  "ResumeBySchedule_resume future =
     (case future of None \<Rightarrow> throw (Logic_error ''Future is not ready'') | Some t \<Rightarrow> try_value_of t)"

section \<open>Invariant\<close>

definition won :: "trig_pc \<Rightarrow> nat" where
  "won p = (if p = T_store \<or> p = T_resume then 1 else 0)"

definition fw_armed_ok :: "'v fawait \<Rightarrow> bool" where
  "fw_armed_ok s \<longleftrightarrow>
     won (fw_handler s) + won (fw_cont s) + length (fw_resumed s) = (if fw_flag s then 0 else 1)
     \<and> fw_handler s \<noteq> T_none \<and> fw_handler s \<noteq> T_store
     \<and> (fw_handler s \<noteq> T_armed \<longrightarrow> fw_emitted s)
     \<and> (fw_flag s \<or> fw_handler s = T_resume \<or> fw_cont s = T_store \<longrightarrow> fw_future s = Some cancelled)
     \<and> (fw_cont s = T_resume \<longrightarrow> fw_future s = Some (fw_val s))
     \<and> (fw_handler s = T_end \<or> fw_cont s = T_end \<longrightarrow> \<not> fw_flag s)
     \<and> (\<forall>r \<in> set (fw_resumed s). fst r = resume_route (fw_ex s) (fw_ctx s)
          \<and> (snd r = Some (fw_val s) \<or> snd r = Some cancelled \<and> fw_emitted s))"

fun fw_pc_ok :: "sus_pc \<Rightarrow> 'v fawait \<Rightarrow> bool" where
  "fw_pc_ok P_move s = (fw_handler s = T_none \<and> fw_cont s = T_none \<and> fw_resumed s = [])"
| "fw_pc_ok P_arm s =
     (fw_handler s = T_none \<and> fw_cont s = T_none \<and> fw_resumed s = [] \<and> fw_flag s \<and> fw_future s = Some cancelled)"
| "fw_pc_ok P_set s = (fw_cont s = T_none \<and> fw_armed_ok s)"
| "fw_pc_ok P_suspended s = (fw_cont s \<noteq> T_none \<and> fw_armed_ok s)"
| "fw_pc_ok P_refused s =
     (fw_handler s = T_none \<and> fw_cont s = T_none \<and> fw_emitted s \<and> fw_resumed s = [(Goes_on, Some cancelled)])"

definition fw_inv :: "'v fawait \<Rightarrow> bool" where
  "fw_inv s \<longleftrightarrow> \<not> fw_failed s \<and> fw_pc_ok (fw_pc s) s"

fun trig_rank :: "trig_pc \<Rightarrow> nat" where
  "trig_rank T_none = 5"
| "trig_rank T_armed = 4"
| "trig_rank T_swap = 3"
| "trig_rank T_store = 2"
| "trig_rank T_resume = 1"
| "trig_rank T_end = 0"

fun sus_rank :: "sus_pc \<Rightarrow> nat" where
  "sus_rank P_move = 3"
| "sus_rank P_arm = 2"
| "sus_rank P_set = 1"
| "sus_rank _ = 0"

definition fw_rank :: "'v fawait \<Rightarrow> nat" where
  "fw_rank s = sus_rank (fw_pc s) + trig_rank (fw_handler s) + trig_rank (fw_cont s)"

lemma suspend_inv: "fw_inv s \<Longrightarrow> await_suspend_cancellable s = Some t \<Longrightarrow> fw_inv t \<and> fw_rank t < fw_rank s"
  by (cases "fw_pc s")
    (auto simp: await_suspend_cancellable_def fw_inv_def fw_armed_ok_def wake_def won_def fw_rank_def split: if_splits)

lemma handler_inv: "fw_inv s \<Longrightarrow> cancel_handler s = Some t \<Longrightarrow> fw_inv t \<and> fw_rank t < fw_rank s"
  by (cases "fw_pc s"; cases "fw_handler s")
    (auto simp: cancel_handler_def fw_inv_def fw_armed_ok_def wake_def won_def fw_rank_def split: if_splits)

lemma cont_inv: "fw_inv s \<Longrightarrow> future_continuation s = Some t \<Longrightarrow> fw_inv t \<and> fw_rank t < fw_rank s"
  by (cases "fw_pc s"; cases "fw_cont s")
    (auto simp: future_continuation_def fw_inv_def fw_armed_ok_def wake_def won_def fw_rank_def split: if_splits)

lemma fw_move_inv: "fw_inv s \<Longrightarrow> fw_move s t \<Longrightarrow> fw_inv t \<and> fw_rank t < fw_rank s"
  using suspend_inv[of s t] handler_inv[of s t] cont_inv[of s t] by (auto elim: fw_move.cases)

lemma fw_env_armed: "fw_armed_ok s \<Longrightarrow> fw_armed_ok (s\<lparr>fw_emitted := True\<rparr>)" "fw_armed_ok (s\<lparr>fw_ready := True\<rparr>) = fw_armed_ok s"
  unfolding fw_armed_ok_def by simp_all blast

lemma fw_env_inv: "fw_inv s \<Longrightarrow> fw_inv (s\<lparr>fw_emitted := True\<rparr>) \<and> fw_inv (s\<lparr>fw_ready := True\<rparr>)"
  by (cases "fw_pc s") (simp_all add: fw_inv_def fw_env_armed)

interpretation fw: inv_system fw_init fw_step fw_inv
proof
  show "fw_init s \<Longrightarrow> fw_inv s" for s by (auto simp: fw_init_def fw_inv_def FutureAwaiter_suspend_def)
  show "fw_inv s \<Longrightarrow> fw_step s t \<Longrightarrow> fw_inv t" for s t
    using fw_move_inv[of s t] fw_env_inv[of s] by (auto elim: fw_step.cases)
qed

interpretation fwm: bounded_system fw_init fw_move fw_inv fw_rank
  using fw_move_inv fw.init_inv by unfold_locales blast+

lemma fw_resumed_ok:
  assumes "fw_inv s"
  shows "length (fw_resumed s) \<le> 1 \<and> (\<forall>r \<in> set (fw_resumed s).
      (fst r = resume_route (fw_ex s) (fw_ctx s) \<or> fst r = Goes_on)
      \<and> (snd r = Some (fw_val s) \<or> snd r = Some cancelled \<and> fw_emitted s))"
  using assms by (cases "fw_pc s") (auto simp: fw_inv_def fw_armed_ok_def split: if_splits)

lemma fw_quiet:
  assumes "fw_inv s" and "\<forall>t. \<not> fw_move s t" and "fw_ready s \<or> fw_emitted s"
  shows "length (fw_resumed s) = 1"
proof -
  have n: "await_suspend_cancellable s = None" "cancel_handler s = None" "future_continuation s = None"
    using assms(2) fw_move.intros[of s] by (metis option.exhaust)+
  show ?thesis
    using assms(1,3) n
    by (cases "fw_pc s"; cases "fw_handler s"; cases "fw_cont s")
      (auto simp: fw_inv_def fw_armed_ok_def await_suspend_cancellable_def cancel_handler_def future_continuation_def won_def
        split: if_splits)
qed

lemma fw_moves_env: "steps fw_move n s t \<Longrightarrow> fw_ready t = fw_ready s \<and> fw_emitted t = fw_emitted s"
proof (induction n arbitrary: s)
  case (Suc n)
  then obtain u where u: "fw_move s u" "steps fw_move n u t" by auto
  from u(1) have "fw_ready u = fw_ready s \<and> fw_emitted u = fw_emitted s"
    by (cases rule: fw_move.cases)
      (auto simp: await_suspend_cancellable_def cancel_handler_def future_continuation_def wake_def
        split: sus_pc.splits trig_pc.splits if_splits)
  then show ?case using Suc.IH[OF u(2)] by simp
qed simp

section \<open>Properties\<close>

text \<open>
  C7.  A coroutine that awaits a future under a cancellation slot is resumed exactly once, whichever of the
  result and the signal comes first and however the two callbacks interleave with \<open>await_suspend\<close> itself:
  never twice, always once the code has run out of steps after the result or the signal, through the
  executor it was checked out of, with the result of the future or, only if the signal was emitted, with
  the cancellation exception; the continuation never writes into an awaiter that is gone.  The code's
  own steps always end.
\<close>

theorem future_awaiter_once:
  assumes "reach fw_init fw_step s"
  shows "length (fw_resumed s) \<le> 1 \<and> \<not> fw_failed s
    \<and> list_all (\<lambda>r. (fst r = resume_route (fw_ex s) (fw_ctx s) \<or> fst r = Goes_on)
        \<and> (snd r = Some (fw_val s) \<or> snd r = Some cancelled \<and> fw_emitted s)) (fw_resumed s)
    \<and> (\<exists>n t. steps fw_move n s t \<and> (\<forall>u. \<not> fw_move t u)
        \<and> (fw_ready s \<or> fw_emitted s \<longrightarrow> length (fw_resumed t) = 1))"
proof -
  have inv: "fw_inv s" by (rule fw.reach_inv[OF assms])
  obtain n t where t: "steps fw_move n s t" "\<forall>u. \<not> fw_move t u" using fwm.run_to_end[OF inv] by blast
  have "fw_inv t" by (rule fwm.steps_inv[OF inv t(1)])
  then have "fw_ready s \<or> fw_emitted s \<longrightarrow> length (fw_resumed t) = 1" using fw_quiet[of t] t(2) fw_moves_env[OF t(1)] by simp
  moreover have "\<not> fw_failed s" using inv by (simp add: fw_inv_def)
  ultimately show ?thesis using fw_resumed_ok[OF inv] t unfolding list_all_iff by blast
qed

text \<open>The awaited future gets its result and the signal is emitted while the continuation is about to swap.\<close>

definition demo_fawait :: "nat fawait" where
  "demo_fawait = (FutureAwaiter_suspend (Some 1) 5 (Value 7) True False)
     \<lparr>fw_emitted := True, fw_future := Some cancelled, fw_pc := P_suspended, fw_handler := T_armed, fw_cont := T_swap\<rparr>"

lemmas fw_next = reach_step[of fw_init fw_step]

lemma demo_fawait_reach: "reach fw_init fw_step demo_fawait"
proof -
  let ?s0 = "FutureAwaiter_suspend (Some 1) 5 (Value 7) True False :: nat fawait"
  let ?s1 = "?s0\<lparr>fw_future := Some cancelled, fw_flag := True, fw_pc := P_arm\<rparr>"
  let ?s2 = "?s1\<lparr>fw_handler := T_armed, fw_pc := P_set\<rparr>"
  let ?s3 = "?s2\<lparr>fw_cont := T_armed, fw_pc := P_suspended\<rparr>"
  let ?s4 = "?s3\<lparr>fw_cont := T_swap\<rparr>"
  note defs = FutureAwaiter_suspend_def await_suspend_cancellable_def future_continuation_def
  have 0: "reach fw_init fw_step ?s0" by (rule reach_init) (unfold fw_init_def, blast)
  have 1: "fw_step ?s0 ?s1" by (intro code_step suspend_move) (simp add: defs)
  have 2: "fw_step ?s1 ?s2" by (intro code_step suspend_move) (simp add: defs)
  have 3: "fw_step ?s2 ?s3" by (intro code_step suspend_move) (simp add: defs)
  have 4: "fw_step ?s3 ?s4" by (intro code_step cont_move) (simp add: defs)
  have 5: "fw_step ?s4 (?s4\<lparr>fw_emitted := True\<rparr>)" by (rule emit_step)
  have "reach fw_init fw_step (?s4\<lparr>fw_emitted := True\<rparr>)"
    by (rule fw_next[OF fw_next[OF fw_next[OF fw_next[OF fw_next[OF 0 1] 2] 3] 4] 5])
  then show ?thesis by (simp add: demo_fawait_def FutureAwaiter_suspend_def)
qed

theorem future_awaiter_once_witness:
  "reach fw_init fw_step demo_fawait \<and> fw_resumed demo_fawait = []
     \<and> (\<exists>n t. steps fw_move n demo_fawait t \<and> length (fw_resumed t) = 1)"
proof -
  have r: "fw_ready demo_fawait" "fw_resumed demo_fawait = []" by (simp_all add: demo_fawait_def FutureAwaiter_suspend_def)
  obtain n t where "steps fw_move n demo_fawait t" "length (fw_resumed t) = 1"
    using future_awaiter_once[OF demo_fawait_reach] r(1) by blast
  then show ?thesis using demo_fawait_reach r(2) by blast
qed

text \<open>
  \<open>await_resume\<close> of a \<open>Future<void>\<close> drops the exception of the future and the cancellation, which the
  same awaiter throws for any other type.
\<close>

lemma void_await_drops_exception:
  "FutureAwaiter_resume_void (Some (Exception e)) = ok ()"
  "FutureAwaiter_resume (Some (Exception e)) = throw e"
  by (simp_all add: FutureAwaiter_resume_void_def FutureAwaiter_resume_def try_value_of_def)

end
