(* ===== verification/Allocator_Model.thy ===== *)
theory Allocator_Model
  imports Prelude
begin

unbundle bit_operations_syntax

text \<open>
  \<open>PromiseAllocator\<close> (async_simple/coro/PromiseAllocator.h): the operators \<open>new\<close> and \<open>delete\<close> of coroutine
  frames, which keep what is needed to free a frame behind it in the same block.

  Addresses and sizes are 64-bit words.  The store maps an address to the object that was constructed
  there, a function pointer or an allocator; the bytes of the frame itself are not part of it.
  \<open>allocate\<close> is the allocator of the user: a function of the number of blocks that throws or returns an
  address.  Calls of allocators are recorded.
\<close>

section \<open>Blocks, allocators and the store\<close>

definition block_size :: "64 word" where
  "block_size = 16"

definition fn_size :: "64 word" where
  "fn_size = 8"

text \<open>What the code asks of the type of an allocator: sz, alignment, and whether it carries no state.\<close>

record alloc_type =
  al_sizeof :: "64 word"
  al_alignof :: "64 word"
  al_stateless :: bool

datatype allocator = Stateless | Stateful nat | Global_new

datatype dealloc_fn = D_global | D_stateless | D_stateful alloc_type

datatype stored = S_dealloc dealloc_fn | S_alloc nat

datatype alloc_call = Allocated allocator "64 word" "64 word" | Deallocated allocator "64 word" "64 word"

record amem =
  cells :: "64 word \<Rightarrow> stored option"
  alloc_calls :: "alloc_call list"

definition put :: "64 word \<Rightarrow> stored \<Rightarrow> amem \<Rightarrow> amem" where
  "put a x m = m\<lparr>cells := (cells m)(a := Some x)\<rparr>"

definition take_out :: "64 word \<Rightarrow> amem \<Rightarrow> amem" where
  "take_out a m = m\<lparr>cells := (cells m)(a := None)\<rparr>"

definition record_call :: "alloc_call \<Rightarrow> amem \<Rightarrow> amem" where
  "record_call c m = m\<lparr>alloc_calls := alloc_calls m @ [c]\<rparr>"

text \<open>The address behind \<open>sz\<close> bytes, rounded up to the alignment of the allocator.\<close>

definition al_address :: "alloc_type \<Rightarrow> 64 word \<Rightarrow> 64 word \<Rightarrow> 64 word" where
  "al_address ty ptr sz = (ptr + sz + al_alignof ty - 1) AND NOT (al_alignof ty - 1)"

definition Align :: "alloc_type \<Rightarrow> 64 word" where
  "Align ty = max (al_alignof ty) block_size"

definition plain_count :: "64 word \<Rightarrow> 64 word" where
  "plain_count sz = (sz + block_size - 1) div block_size"

definition stateful_count :: "alloc_type \<Rightarrow> 64 word \<Rightarrow> 64 word" where
  "stateful_count ty sz = (sz + al_sizeof ty + Align ty - 1) div block_size"

section \<open>PromiseAllocator of an allocator\<close>

definition Allocate :: "alloc_type \<Rightarrow> (64 word \<Rightarrow> exc + 64 word) \<Rightarrow> nat \<Rightarrow> 64 word \<Rightarrow> amem \<Rightarrow> (amem, 64 word) call" where
  "Allocate ty allocate al sz m =
     (if al_stateless ty
      then (case allocate (plain_count sz) of
              Inl e \<Rightarrow> (throw e, m)
            | Inr ptr \<Rightarrow> (ok ptr, record_call (Allocated Stateless ptr (plain_count sz)) m))
      else (case allocate (stateful_count ty sz) of
              Inl e \<Rightarrow> (throw e, m)
            | Inr ptr \<Rightarrow>
                (ok ptr, put (al_address ty ptr sz) (S_alloc al)
                           (record_call (Allocated (Stateful al) ptr (stateful_count ty sz)) m))))"

definition pa_delete :: "alloc_type \<Rightarrow> 64 word \<Rightarrow> 64 word \<Rightarrow> amem \<Rightarrow> (amem, unit) call" where
  "pa_delete ty ptr sz m =
     (if al_stateless ty
      then (ok (), record_call (Deallocated Stateless ptr (plain_count sz)) m)
      else (case cells m (al_address ty ptr sz) of
              Some (S_alloc al) \<Rightarrow>
                (ok (), record_call (Deallocated (Stateful al) ptr (stateful_count ty sz))
                          (take_out (al_address ty ptr sz) m))
            | _ \<Rightarrow> (Inl (Undefined ''no allocator stored''), m)))"

section \<open>Type-erased allocators\<close>

text \<open>The functions that are stored behind the frame.\<close>

fun run_dealloc :: "dealloc_fn \<Rightarrow> 64 word \<Rightarrow> 64 word \<Rightarrow> amem \<Rightarrow> (amem, unit) call" where
  "run_dealloc D_global ptr sz m = (ok (), record_call (Deallocated Global_new ptr (sz + fn_size)) m)"
| "run_dealloc D_stateless ptr sz m =
     (ok (), record_call (Deallocated Stateless ptr (plain_count (sz + fn_size))) m)"
| "run_dealloc (D_stateful ty) ptr sz m =
     (case cells m (al_address ty ptr (sz + fn_size)) of
        Some (S_alloc al) \<Rightarrow>
          (ok (), record_call (Deallocated (Stateful al) ptr (stateful_count ty (sz + fn_size)))
                    (take_out (al_address ty ptr (sz + fn_size)) m))
      | _ \<Rightarrow> (Inl (Undefined ''no allocator stored''), m))"

definition Allocate_erased ::
  "alloc_type \<Rightarrow> (64 word \<Rightarrow> exc + 64 word) \<Rightarrow> nat \<Rightarrow> 64 word \<Rightarrow> amem \<Rightarrow> (amem, 64 word) call" where
  "Allocate_erased ty allocate al sz m =
     (if al_stateless ty
      then (case allocate (plain_count (sz + fn_size)) of
              Inl e \<Rightarrow> (throw e, m)
            | Inr ptr \<Rightarrow>
                (ok ptr, put (ptr + sz) (S_dealloc D_stateless)
                           (record_call (Allocated Stateless ptr (plain_count (sz + fn_size))) m)))
      else (case allocate (stateful_count ty (sz + fn_size)) of
              Inl e \<Rightarrow> (throw e, m)
            | Inr ptr \<Rightarrow>
                (ok ptr, put (al_address ty ptr (sz + fn_size)) (S_alloc al)
                           (put (ptr + sz) (S_dealloc (D_stateful ty))
                             (record_call (Allocated (Stateful al) ptr (stateful_count ty (sz + fn_size))) m)))))"

definition new_global :: "(64 word \<Rightarrow> exc + 64 word) \<Rightarrow> 64 word \<Rightarrow> amem \<Rightarrow> (amem, 64 word) call" where
  "new_global allocate sz m =
     (case allocate (sz + fn_size) of
        Inl e \<Rightarrow> (throw e, m)
      | Inr ptr \<Rightarrow>
          (ok ptr, put (ptr + sz) (S_dealloc D_global) (record_call (Allocated Global_new ptr (sz + fn_size)) m)))"

definition erased_delete :: "64 word \<Rightarrow> 64 word \<Rightarrow> amem \<Rightarrow> (amem, unit) call" where
  "erased_delete ptr sz m =
     (case cells m (ptr + sz) of
        Some (S_dealloc d) \<Rightarrow> run_dealloc d ptr sz m | _ \<Rightarrow> (Inl (Undefined ''no deallocation function''), m))"

text \<open>The forms that do not throw: they return a null pointer, \<open>None\<close>, when the allocation fails.\<close>

definition Allocate_nothrow ::
  "alloc_type \<Rightarrow> (64 word \<Rightarrow> exc + 64 word) \<Rightarrow> nat \<Rightarrow> 64 word \<Rightarrow> amem \<Rightarrow> 64 word option \<times> amem" where
  "Allocate_nothrow ty allocate al sz m =
     (if al_stateless ty
      then (case allocate (plain_count (sz + fn_size)) of
              Inl e \<Rightarrow> (None, m)
            | Inr ptr \<Rightarrow>
                (Some ptr, put (ptr + sz) (S_dealloc D_stateless)
                             (record_call (Allocated Stateless ptr (plain_count (sz + fn_size))) m)))
      else (case allocate (stateful_count ty (sz + fn_size)) of
              Inl e \<Rightarrow> (None, m)
            | Inr ptr \<Rightarrow>
                (Some ptr, put (al_address ty ptr (sz + fn_size)) (S_alloc al)
                             (put (ptr + sz) (S_dealloc (D_stateful ty))
                               (record_call (Allocated (Stateful al) ptr (stateful_count ty (sz + fn_size))) m)))))"

definition new_global_nothrow :: "(64 word \<Rightarrow> exc + 64 word) \<Rightarrow> 64 word \<Rightarrow> amem \<Rightarrow> 64 word option \<times> amem" where
  "new_global_nothrow allocate sz m =
     (case allocate (sz + fn_size) of
        Inl e \<Rightarrow> (None, m)
      | Inr ptr \<Rightarrow>
          (Some ptr, put (ptr + sz) (S_dealloc D_global) (record_call (Allocated Global_new ptr (sz + fn_size)) m)))"

text \<open>
  The operators as a promise type inherits them: with an allocator type of its own, or type-erased with
  an allocator argument or without one.
\<close>

datatype frame_form = Typed alloc_type nat | Erased alloc_type nat | Erased_global

fun operator_new :: "frame_form \<Rightarrow> (64 word \<Rightarrow> exc + 64 word) \<Rightarrow> 64 word \<Rightarrow> amem \<Rightarrow> (amem, 64 word) call" where
  "operator_new (Typed ty al) allocate sz m = Allocate ty allocate al sz m"
| "operator_new (Erased ty al) allocate sz m = Allocate_erased ty allocate al sz m"
| "operator_new Erased_global allocate sz m = new_global allocate sz m"

fun operator_delete :: "frame_form \<Rightarrow> 64 word \<Rightarrow> 64 word \<Rightarrow> amem \<Rightarrow> (amem, unit) call" where
  "operator_delete (Typed ty al) ptr sz m = pa_delete ty ptr sz m"
| "operator_delete _ ptr sz m = erased_delete ptr sz m"

section \<open>Where the stored objects lie\<close>

lemma word_add_nat: "unat a + unat b < 2 ^ 64 \<Longrightarrow> unat (a + b :: 64 word) = unat a + unat b"
  by (simp add: unat_word_ariths)

lemma unat_power_lower_64: "k < 64 \<Longrightarrow> unat (2 ^ k :: 64 word) = 2 ^ k"
  using unat_of_nat[of "2 ^ k", where 'a = 64] power_strict_increasing[of k 64 "2 :: nat"] by simp

lemma word_pred_nat: "0 < unat a \<Longrightarrow> unat (a - 1 :: 64 word) = unat a - 1"
  by (rule unat_word_dec) auto

lemma unat_round_down: "unat (y AND NOT (2 ^ k - 1) :: 64 word) = unat y div 2 ^ k * 2 ^ k"
proof -
  have "y AND NOT (mask k) = push_bit k (drop_bit k y)"
    by (rule bit_word_eqI) (auto simp: bit_simps)
  moreover have "unat (push_bit k (drop_bit k y)) = take_bit 64 (push_bit k (drop_bit k (take_bit 64 (unat y))))"
    by (simp only: unsigned_push_bit_eq unsigned_drop_bit_eq len_bit0 len_num1) simp
  moreover have "unat y < 2 ^ 64" using unsigned_less[of y] by simp
  ultimately have "unat (y AND NOT (2 ^ k - 1)) = take_bit 64 (unat y div 2 ^ k * 2 ^ k)"
    by (simp only: mask_eq_exp_minus_1 take_bit_nat_eq_self push_bit_eq_mult drop_bit_eq_div)
  moreover have "unat y div 2 ^ k * 2 ^ k < 2 ^ 64"
    using div_times_less_eq_dividend[of "unat y" "2 ^ k"] \<open>unat y < 2 ^ 64\<close> by (rule le_less_trans)
  ultimately show ?thesis by (simp only: take_bit_nat_eq_self)
qed

text \<open>Rounding up to a multiple of \<open>a\<close> stays below every multiple of \<open>a\<close> that is not below.\<close>

lemma round_up:
  fixes x a :: nat
  assumes "0 < a"
  shows "a dvd (x + a - 1) div a * a" and "x \<le> (x + a - 1) div a * a" and "(x + a - 1) div a * a < x + a"
proof -
  have "(x + a - 1) div a * a + (x + a - 1) mod a = x + a - 1" by simp
  moreover have "(x + a - 1) mod a < a" using assms by simp
  ultimately show "x \<le> (x + a - 1) div a * a" "(x + a - 1) div a * a < x + a" using assms by linarith+
qed simp

lemma dvd_less_le: "(d :: nat) dvd x \<Longrightarrow> d dvd y \<Longrightarrow> x < y + d \<Longrightarrow> x \<le> y"
  by (auto elim!: dvdE) (metis Suc_leI add.commute less_Suc_eq_le mult.commute mult_Suc mult_less_cancel1 nat_mult_le_cancel_disj)

text \<open>
  The arithmetic of the layout: a block of \<open>(n + S + max a 16 - 1) div 16\<close> units at \<open>p\<close> has room for \<open>n\<close>
  bytes and, behind them at the next multiple of \<open>a\<close>, an object of \<open>S\<close> bytes.
\<close>

lemma layout_fits:
  fixes p n S k :: nat
  defines "a \<equiv> 2 ^ k"
  assumes "16 dvd p" and "a dvd S"
  shows "(p + n + a - 1) div a * a + S \<le> p + (n + S + max a 16 - 1) div 16 * 16"
proof -
  let ?u = "(p + n + a - 1) div a * a" and ?b = "(n + S + max a 16 - 1) div 16 * 16"
  have a: "0 < a" by (simp add: a_def)
  note u = round_up[OF a, of "p + n"]
  have b: "n + S + max a 16 - 1 < ?b + 16" by (metis div_mult_mod_eq mod_less_divisor nat_add_left_cancel_less zero_less_numeral)
  show ?thesis
  proof (cases "k \<le> 4")
    case True
    then have "a dvd 2 ^ 4" unfolding a_def by (rule le_imp_power_dvd)
    then have d: "a dvd 16" by simp
    then have "a \<le> 16" by (rule dvd_imp_le) simp
    then have "?u + S < p + ?b + a" using u(3) b by (simp add: max_def split: if_splits)
    moreover have "a dvd ?u + S" using u(1) assms(3) by simp
    moreover have "a dvd p + ?b" using d assms(2) by (meson dvd_add dvd_trans dvd_triv_right)
    ultimately show ?thesis by (rule dvd_less_le[rotated 2])
  next
    case False
    then have "2 ^ 4 dvd a" unfolding a_def by (intro le_imp_power_dvd) simp
    then have d: "16 dvd a" by simp
    then have "16 \<le> a" using a by (intro dvd_imp_le) auto
    then have "?u + S < p + ?b + 16" using u(3) b by (simp add: max_def split: if_splits)
    moreover have "16 dvd ?u + S" using d u(1) assms(3) by (meson dvd_add dvd_trans)
    moreover have "16 dvd p + ?b" using assms(2) by simp
    ultimately show ?thesis by (rule dvd_less_le[rotated 2])
  qed
qed

text \<open>What the language guarantees of a type: the alignment is a power of two and divides the size.\<close>

definition al_type_ok :: "alloc_type \<Rightarrow> bool" where
  "al_type_ok ty \<longleftrightarrow> (\<exists>k < 64. al_alignof ty = 2 ^ k) \<and> unat (al_alignof ty) dvd unat (al_sizeof ty)"

definition room :: "alloc_type \<Rightarrow> 64 word \<Rightarrow> 64 word \<Rightarrow> bool" where
  "room ty ptr n \<longleftrightarrow> unat ptr + unat n + unat (al_sizeof ty) + unat (al_alignof ty) + 16 < 2 ^ 64"

lemma al_address_nat:
  assumes "al_alignof ty = 2 ^ k" and "k < 64" and "unat ptr + unat n + 2 ^ k < 2 ^ 64"
  shows "unat (al_address ty ptr n) = (unat ptr + unat n + 2 ^ k - 1) div 2 ^ k * 2 ^ k"
proof -
  have a: "unat (2 ^ k :: 64 word) = 2 ^ k" using assms(2) by (simp add: unat_power_lower_64)
  have 1: "unat (ptr + n) = unat ptr + unat n" using assms(3) by (intro word_add_nat) simp
  then have 2: "unat (ptr + n + 2 ^ k) = unat ptr + unat n + 2 ^ k" using word_add_nat[of "ptr + n" "2 ^ k"] assms(3) a by simp
  then have "unat (ptr + n + 2 ^ k - 1) = unat ptr + unat n + 2 ^ k - 1" using word_pred_nat[of "ptr + n + 2 ^ k"] by simp
  then show ?thesis using unat_round_down[of "ptr + n + 2 ^ k - 1" k] assms(1) by (simp add: al_address_def)
qed

lemma stateful_count_nat:
  assumes "unat n + unat (al_sizeof ty) + max (unat (al_alignof ty)) 16 < 2 ^ 64"
  shows "unat (stateful_count ty n) = (unat n + unat (al_sizeof ty) + max (unat (al_alignof ty)) 16 - 1) div 16"
proof -
  have al: "unat (Align ty) = max (unat (al_alignof ty)) 16"
    by (simp add: Align_def block_size_def max_def word_le_nat_alt)
  have 1: "unat (n + al_sizeof ty) = unat n + unat (al_sizeof ty)" using assms by (intro word_add_nat) simp
  have 2: "unat (n + al_sizeof ty + Align ty) = unat n + unat (al_sizeof ty) + max (unat (al_alignof ty)) 16"
    using word_add_nat[of "n + al_sizeof ty" "Align ty"] 1 al assms by simp
  then have "unat (n + al_sizeof ty + Align ty - 1) = unat n + unat (al_sizeof ty) + max (unat (al_alignof ty)) 16 - 1"
    using word_pred_nat[of "n + al_sizeof ty + Align ty"] by (simp add: less_max_iff_disj)
  then show ?thesis by (simp add: stateful_count_def unat_div_distrib block_size_def)
qed

lemma plain_count_nat:
  assumes "unat n + 16 < 2 ^ 64"
  shows "unat (plain_count n) = (unat n + 15) div 16" and "unat n \<le> unat (plain_count n) * 16"
proof -
  have "unat (n + 16) = unat n + 16" using word_add_nat[of n 16] assms by simp
  then have "unat (n + 16 - 1) = unat n + 15" using word_pred_nat[of "n + 16"] by simp
  then show c: "unat (plain_count n) = (unat n + 15) div 16" by (simp add: plain_count_def unat_div_distrib block_size_def)
  show "unat n \<le> unat (plain_count n) * 16" unfolding c by presburger
qed

lemma stored_inside:
  assumes "al_type_ok ty" and "16 dvd unat ptr" and "room ty ptr n"
  shows "unat ptr + unat n \<le> unat (al_address ty ptr n)"
    and "unat (al_address ty ptr n) + unat (al_sizeof ty) \<le> unat ptr + unat (stateful_count ty n) * 16"
proof -
  obtain k where k: "al_alignof ty = 2 ^ k" "k < 64" "unat (al_alignof ty) dvd unat (al_sizeof ty)"
    using assms(1) by (auto simp: al_type_ok_def)
  have a: "unat (al_alignof ty) = 2 ^ k" using k(1,2) by (simp add: unat_power_lower_64)
  have r: "unat ptr + unat n + 2 ^ k < 2 ^ 64" "unat n + unat (al_sizeof ty) + max (unat (al_alignof ty)) 16 < 2 ^ 64"
    using assms(3) a by (auto simp: room_def)
  note ad = al_address_nat[OF k(1,2) r(1)]
  show "unat ptr + unat n \<le> unat (al_address ty ptr n)"
    unfolding ad by (rule round_up(2)) simp
  show "unat (al_address ty ptr n) + unat (al_sizeof ty) \<le> unat ptr + unat (stateful_count ty n) * 16"
    using layout_fits[OF assms(2), of k "unat (al_sizeof ty)" "unat n"] k(3) a ad stateful_count_nat[OF r(2)] by simp
qed

section \<open>Properties\<close>

fun owner :: "frame_form \<Rightarrow> allocator" where
  "owner (Typed ty al) = (if al_stateless ty then Stateless else Stateful al)"
| "owner (Erased ty al) = (if al_stateless ty then Stateless else Stateful al)"
| "owner Erased_global = Global_new"

text \<open>The bytes of an allocation: an allocator counts blocks, \<open>new[]\<close> bytes; and of a stored object.\<close>

fun extent :: "frame_form \<Rightarrow> 64 word \<Rightarrow> nat" where
  "extent Erased_global c = unat c"
| "extent _ c = unat c * 16"

fun stored_size :: "frame_form \<Rightarrow> stored \<Rightarrow> nat" where
  "stored_size _ (S_dealloc _) = 8"
| "stored_size (Typed ty _) (S_alloc _) = unat (al_sizeof ty)"
| "stored_size (Erased ty _) (S_alloc _) = unat (al_sizeof ty)"
| "stored_size Erased_global (S_alloc _) = 0"

text \<open>What is assumed of the pointer: aligned for blocks, and the frame does not reach the end of the address space.\<close>

fun frame_ok :: "frame_form \<Rightarrow> 64 word \<Rightarrow> 64 word \<Rightarrow> bool" where
  "frame_ok (Typed ty _) ptr sz = (al_type_ok ty \<and> 16 dvd unat ptr \<and> room ty ptr sz)"
| "frame_ok (Erased ty _) ptr sz =
     (al_type_ok ty \<and> 16 dvd unat ptr \<and> unat sz + 8 < 2 ^ 64 \<and> room ty ptr (sz + fn_size))"
| "frame_ok Erased_global ptr sz = (unat ptr + unat sz + 8 < 2 ^ 64)"

text \<open>The coroutine has run in between: only what lies behind the frame is still the same.\<close>

definition same_behind :: "64 word \<Rightarrow> 64 word \<Rightarrow> amem \<Rightarrow> amem \<Rightarrow> bool" where
  "same_behind ptr sz m m' \<longleftrightarrow> (\<forall>x. unat ptr + unat sz \<le> unat x \<longrightarrow> cells m' x = cells m x)"

text \<open>The stored objects lie behind the frame, inside the block.\<close>

definition placed :: "frame_form \<Rightarrow> 64 word \<Rightarrow> 64 word \<Rightarrow> 64 word \<Rightarrow> amem \<Rightarrow> amem \<Rightarrow> bool" where
  "placed f ptr sz c m m' \<longleftrightarrow> unat sz \<le> extent f c \<and>
     (\<forall>x y. cells m' x = Some y \<longrightarrow> cells m x = Some y
        \<or> unat ptr + unat sz \<le> unat x \<and> unat x + stored_size f y \<le> unat ptr + extent f c)"

definition round_trips :: "frame_form \<Rightarrow> 64 word \<Rightarrow> 64 word \<Rightarrow> amem \<Rightarrow> amem \<Rightarrow> bool" where
  "round_trips f ptr sz m m1 \<longleftrightarrow>
     (\<exists>c. alloc_calls m1 = alloc_calls m @ [Allocated (owner f) ptr c] \<and> placed f ptr sz c m m1
        \<and> (\<forall>m2. same_behind ptr sz m1 m2 \<longrightarrow>
             (\<exists>m3. operator_delete f ptr sz m2 = (ok (), m3)
                \<and> alloc_calls m3 = alloc_calls m2 @ [Deallocated (owner f) ptr c])))"

lemma typed_round_trips:
  assumes "frame_ok (Typed ty al) ptr sz" and "Allocate ty allocate al sz m = (ok ptr, m1)"
  shows "round_trips (Typed ty al) ptr sz m m1"
proof (cases "al_stateless ty")
  case True
  then have m1: "m1 = record_call (Allocated Stateless ptr (plain_count sz)) m"
    using assms(2) by (auto simp: Allocate_def split: sum.splits)
  have "unat sz \<le> unat (plain_count sz) * 16" using assms(1) by (intro plain_count_nat) (auto simp: room_def)
  then show ?thesis
    using True unfolding round_trips_def m1
    by (intro exI[of _ "plain_count sz"]) (auto simp: record_call_def placed_def pa_delete_def)
next
  case False
  let ?a = "al_address ty ptr sz" and ?c = "stateful_count ty sz"
  have m1: "m1 = put ?a (S_alloc al) (record_call (Allocated (Stateful al) ptr ?c) m)"
    using assms(2) False by (auto simp: Allocate_def split: sum.splits)
  have "unat ptr + unat sz \<le> unat ?a" "unat ?a + unat (al_sizeof ty) \<le> unat ptr + unat ?c * 16"
    using stored_inside[of ty ptr sz] assms(1) by auto
  then show ?thesis
    using False unfolding round_trips_def m1
    by (intro exI[of _ ?c]) (auto simp: record_call_def put_def take_out_def placed_def pa_delete_def same_behind_def)
qed

lemma erased_round_trips:
  assumes "frame_ok (Erased ty al) ptr sz" and "Allocate_erased ty allocate al sz m = (ok ptr, m1)"
  shows "round_trips (Erased ty al) ptr sz m m1"
proof -
  have sz: "unat (sz + fn_size) = unat sz + 8" using assms(1) word_add_nat[of sz fn_size] by (simp add: fn_size_def)
  have r: "unat ptr + unat (sz + fn_size) + 16 < 2 ^ 64" using assms(1) by (simp add: room_def)
  then have p: "unat (ptr + sz) = unat ptr + unat sz" using sz by (intro word_add_nat) simp
  show ?thesis
  proof (cases "al_stateless ty")
    case True
    then have m1: "m1 = put (ptr + sz) (S_dealloc D_stateless) (record_call (Allocated Stateless ptr (plain_count (sz + fn_size))) m)"
      using assms(2) by (auto simp: Allocate_erased_def split: sum.splits)
    have "unat (sz + fn_size) \<le> unat (plain_count (sz + fn_size)) * 16" using r by (intro plain_count_nat) simp
    then show ?thesis
      using True p sz unfolding round_trips_def m1
      by (intro exI[of _ "plain_count (sz + fn_size)"])
        (auto simp: record_call_def put_def placed_def erased_delete_def same_behind_def)
  next
    case False
    let ?n = "sz + fn_size"
    let ?a = "al_address ty ptr ?n" and ?c = "stateful_count ty ?n"
    have m1: "m1 = put ?a (S_alloc al) (put (ptr + sz) (S_dealloc (D_stateful ty)) (record_call (Allocated (Stateful al) ptr ?c) m))"
      using assms(2) False by (auto simp: Allocate_erased_def split: sum.splits)
    have a: "unat ptr + unat ?n \<le> unat ?a" "unat ?a + unat (al_sizeof ty) \<le> unat ptr + unat ?c * 16"
      using stored_inside[of ty ptr ?n] assms(1) by auto
    then have "ptr + sz \<noteq> ?a" using p sz by (metis add_le_same_cancel1 add.assoc not_numeral_le_zero)
    then show ?thesis
      using False a p sz unfolding round_trips_def m1
      by (intro exI[of _ ?c]) (auto simp: record_call_def put_def take_out_def placed_def erased_delete_def same_behind_def)
  qed
qed

lemma global_round_trips:
  assumes "frame_ok Erased_global ptr sz" and "new_global allocate sz m = (ok ptr, m1)"
  shows "round_trips Erased_global ptr sz m m1"
proof -
  have m1: "m1 = put (ptr + sz) (S_dealloc D_global) (record_call (Allocated Global_new ptr (sz + fn_size)) m)"
    using assms(2) by (auto simp: new_global_def split: sum.splits)
  have "unat (sz + fn_size) = unat sz + 8" using assms(1) word_add_nat[of sz fn_size] by (simp add: fn_size_def)
  moreover have "unat (ptr + sz) = unat ptr + unat sz" using assms(1) by (intro word_add_nat) simp
  ultimately show ?thesis
    unfolding round_trips_def m1
    by (intro exI[of _ "sz + fn_size"]) (auto simp: record_call_def put_def placed_def erased_delete_def same_behind_def)
qed

text \<open>
  C25.  A coroutine frame is freed by the allocator that allocated it, at the same address and with the same
  count, in every form of \<open>PromiseAllocator\<close>: typed or type-erased, with and without state, or by the
  global operators, whatever the coroutine did to its frame in between.  What the operators keep behind
  the frame, the stored allocator at its alignment and the deallocation function, lies inside the block
  and does not overlap the frame.  The allocator is any function that returns aligned addresses of
  blocks that do not wrap around; \<open>room\<close> bounds the sizes.
\<close>

theorem promise_allocator_roundtrip:
  assumes "frame_ok f ptr sz" and "operator_new f allocate sz m = (ok ptr, m1)"
  shows "round_trips f ptr sz m m1"
  using assms typed_round_trips erased_round_trips global_round_trips by (cases f) auto

definition demo_form :: frame_form where
  "demo_form = Erased \<lparr>al_sizeof = 24, al_alignof = 8, al_stateless = False\<rparr> 3"

definition demo_amem :: amem where
  "demo_amem = \<lparr>cells = (\<lambda>_. None), alloc_calls = []\<rparr>"

theorem promise_allocator_roundtrip_witness:
  "frame_ok demo_form 4096 100
     \<and> round_trips demo_form 4096 100 demo_amem (snd (operator_new demo_form (\<lambda>_. Inr 4096) 100 demo_amem))"
proof -
  have "(8 :: 64 word) = 2 ^ 3" by simp
  then have "\<exists>k < 64. (8 :: 64 word) = 2 ^ k" by (intro exI[of _ 3]) simp
  then have f: "frame_ok demo_form 4096 100" by (simp add: demo_form_def al_type_ok_def room_def fn_size_def)
  have "operator_new demo_form (\<lambda>_. Inr 4096) 100 demo_amem =
      (ok 4096, snd (operator_new demo_form (\<lambda>_. Inr 4096) 100 demo_amem))"
    by (simp add: demo_form_def Allocate_erased_def)
  then show ?thesis using promise_allocator_roundtrip[OF f] f by blast
qed

text \<open>The forms that do not throw do the same, with a null pointer for an exception.\<close>

lemma nothrow_agrees:
  "Allocate_nothrow ty allocate al sz m =
     (case Allocate_erased ty allocate al sz m of (Inl _, m') \<Rightarrow> (None, m') | (Inr ptr, m') \<Rightarrow> (Some ptr, m'))"
  "new_global_nothrow allocate sz m =
     (case new_global allocate sz m of (Inl _, m') \<Rightarrow> (None, m') | (Inr ptr, m') \<Rightarrow> (Some ptr, m'))"
  by (auto simp: Allocate_nothrow_def Allocate_erased_def new_global_nothrow_def new_global_def split: sum.splits)

end
