(* ===== verification/Function_Model.thy ===== *)
theory Function_Model
  imports Ownership_Base
begin

text \<open>
  \<open>move_only_function\<close> (async_simple/util/move_only_function.h): a callable object with a small buffer, as
  the executors pass it around.

  A wrapper holds the raw bytes of its functor when the functor is small and trivially copyable, and
  the address of a functor on the heap otherwise.  A functor has a number, given when it is constructed,
  and the type it was constructed with; to use it at another type is undefined.  The manager and the invoker are function pointers, instances of one template
  for the type of the functor: null, or that type.
\<close>

section \<open>Storage\<close>

record functor_type =
  ft_trivially_copyable :: bool
  ft_sizeof :: nat
  ft_alignof :: nat

text \<open>\<open>_no_copy_types\<close> is as large as a pointer to a member function.\<close>

definition m_max_size :: nat where
  "m_max_size = 16"

definition m_max_align :: nat where
  "m_max_align = 8"

definition stored_locally :: "functor_type \<Rightarrow> bool" where
  "stored_locally ty \<longleftrightarrow> ft_trivially_copyable ty \<and> ft_sizeof ty \<le> m_max_size \<and> ft_alignof ty \<le> m_max_align
     \<and> m_max_align mod ft_alignof ty = 0"

record fobject =
  f_number :: nat
  f_type :: functor_type

datatype any_data = Garbage | Local fobject | Heap_ptr fobject

record move_only_function =
  m_functor :: any_data
  m_manager :: "functor_type option"
  m_invoker :: "functor_type option"

text \<open>The heap: the functors on it, the functors destroyed so far, and the next number.\<close>

record fheap =
  fh_live :: "fobject set"
  fh_destroyed :: "fobject list"
  fh_next :: nat
  fh_error :: "failure option"

definition m_init_functor :: "functor_type \<Rightarrow> fheap \<Rightarrow> any_data \<times> fheap" where
  "m_init_functor ty h =
     (let f = \<lparr>f_number = fh_next h, f_type = ty\<rparr>
      in if stored_locally ty then (Local f, h\<lparr>fh_next := fh_next h + 1\<rparr>)
         else (Heap_ptr f, h\<lparr>fh_live := insert f (fh_live h), fh_next := fh_next h + 1\<rparr>))"

definition m_destroy :: "functor_type \<Rightarrow> any_data \<Rightarrow> fheap \<Rightarrow> fheap" where
  "m_destroy ty d h =
     (case d of
        Local f \<Rightarrow>
          if \<not> stored_locally ty then h\<lparr>fh_error := Some (Undefined ''not a pointer'')\<rparr>
          else if f_type f \<noteq> ty then h\<lparr>fh_error := Some (Undefined ''destroyed at another type'')\<rparr>
          else h\<lparr>fh_destroyed := fh_destroyed h @ [f]\<rparr>
      | Heap_ptr f \<Rightarrow>
          if stored_locally ty then h\<lparr>fh_error := Some (Undefined ''not a functor'')\<rparr>
          else if f_type f \<noteq> ty then h\<lparr>fh_error := Some (Undefined ''destroyed at another type'')\<rparr>
          else if f \<in> fh_live h
          then h\<lparr>fh_live := fh_live h - {f}, fh_destroyed := fh_destroyed h @ [f]\<rparr>
          else h\<lparr>fh_error := Some (Undefined ''double delete'')\<rparr>
      | Garbage \<Rightarrow> h\<lparr>fh_error := Some (Undefined ''destroys nothing'')\<rparr>)"

text \<open>The functor that the invoker of a type calls.\<close>

definition m_get_pointer :: "functor_type \<Rightarrow> any_data \<Rightarrow> fheap \<Rightarrow> fobject result" where
  "m_get_pointer ty d h =
     (case d of
        Local f \<Rightarrow>
          if stored_locally ty \<and> f_type f = ty then ok f else Inl (Undefined ''not the functor of this type'')
      | Heap_ptr f \<Rightarrow>
          if \<not> stored_locally ty \<and> f_type f = ty \<and> f \<in> fh_live h then ok f else Inl (Undefined ''dangling functor'')
      | Garbage \<Rightarrow> Inl (Undefined ''no functor''))"

section \<open>Operations\<close>

text \<open>The default constructor leaves the functor and the invoker uninitialised.\<close>

definition mf_new :: move_only_function where
  "mf_new = \<lparr>m_functor = Garbage, m_manager = None, m_invoker = None\<rparr>"

text \<open>Construction from a functor; \<open>null\<close>: a null function pointer or an empty wrapper.\<close>

definition mf_from :: "functor_type \<Rightarrow> bool \<Rightarrow> fheap \<Rightarrow> move_only_function \<times> fheap" where
  "mf_from ty null h =
     (if null then (mf_new, h)
      else (let (d, h1) = m_init_functor ty h
            in (\<lparr>m_functor = d, m_manager = Some ty, m_invoker = Some ty\<rparr>, h1)))"

definition mf_swap :: "move_only_function \<Rightarrow> move_only_function \<Rightarrow> move_only_function \<times> move_only_function" where
  "mf_swap self other =
     (self\<lparr>m_functor := m_functor other, m_manager := m_manager other, m_invoker := m_invoker other\<rparr>,
      other\<lparr>m_functor := m_functor self, m_manager := m_manager self, m_invoker := m_invoker self\<rparr>)"

definition mf_delete :: "move_only_function \<Rightarrow> fheap \<Rightarrow> fheap" where
  "mf_delete self h = (case m_manager self of None \<Rightarrow> h | Some ty \<Rightarrow> m_destroy ty (m_functor self) h)"

text \<open>The move constructor: what it builds, and what is left of the other.\<close>

definition mf_move :: "move_only_function \<Rightarrow> move_only_function \<times> move_only_function" where
  "mf_move other = (let (other', self) = mf_swap other mf_new in (self, other'))"

definition mf_assign_null :: "move_only_function \<Rightarrow> fheap \<Rightarrow> move_only_function \<times> fheap" where
  "mf_assign_null self h =
     (case m_manager self of
        None \<Rightarrow> (self, h)
      | Some ty \<Rightarrow> (self\<lparr>m_manager := None, m_invoker := None\<rparr>, m_destroy ty (m_functor self) h))"

text \<open>Assignment of a functor: a temporary is built, swapped and destroyed.\<close>

definition mf_assign :: "functor_type \<Rightarrow> bool \<Rightarrow> move_only_function \<Rightarrow> fheap \<Rightarrow> move_only_function \<times> fheap" where
  "mf_assign ty null self h =
     (let (tmp, h1) = mf_from ty null h;
          (tmp', self') = mf_swap tmp self
      in (self', mf_delete tmp' h1))"

definition mf_bool :: "move_only_function \<Rightarrow> bool" where
  "mf_bool self = (m_manager self \<noteq> None)"

definition mf_call :: "move_only_function \<Rightarrow> fheap \<Rightarrow> fobject result" where
  "mf_call self h =
     (if m_manager self = None then throw Bad_function_call
      else case m_invoker self of
             None \<Rightarrow> Inl (Undefined ''null invoker'') | Some ty \<Rightarrow> m_get_pointer ty (m_functor self) h)"

text \<open>
  \<open>MoveWrapper\<close> (async_simple/MoveWrapper.h): its copy constructor moves out of the object it copies.  A
  copy returns the new wrapper and what is left of the old one.
\<close>

record MoveWrapper =
  mw_value :: move_only_function

definition MoveWrapper_new :: "move_only_function \<Rightarrow> MoveWrapper" where
  "MoveWrapper_new value = \<lparr>mw_value = fst (mf_move value)\<rparr>"

definition MoveWrapper_copy :: "MoveWrapper \<Rightarrow> MoveWrapper \<times> MoveWrapper" where
  "MoveWrapper_copy other =
     (let (v, w) = mf_move (mw_value other) in (\<lparr>mw_value = v\<rparr>, other\<lparr>mw_value := w\<rparr>))"

text \<open>\<open>schedule_move_only\<close>: the lambda that is scheduled holds a copy of a wrapper around the function.\<close>

definition schedule_move_only :: "(MoveWrapper \<Rightarrow> 's \<Rightarrow> ('s, bool) call) \<Rightarrow> move_only_function \<Rightarrow> 's \<Rightarrow> ('s, bool) call" where
  "schedule_move_only schedule func = schedule (fst (MoveWrapper_copy (MoveWrapper_new func)))"

section \<open>Programs over several wrappers\<close>

text \<open>\<open>None\<close>: the variable is outside its lifetime.  The move assignment may be applied to one variable twice.\<close>

record mf_sys =
  mvars :: "move_only_function option list"
  mheap :: fheap

datatype mf_op =
    Op_new nat
  | Op_from nat functor_type bool
  | Op_move nat nat
  | Op_move_assign nat nat
  | Op_null nat
  | Op_assign nat functor_type bool
  | Op_swap nat nat
  | Op_delete nat

definition alive :: "nat \<Rightarrow> mf_sys \<Rightarrow> bool" where
  "alive x s \<longleftrightarrow> x < length (mvars s) \<and> mvars s ! x \<noteq> None"

definition unborn :: "nat \<Rightarrow> mf_sys \<Rightarrow> bool" where
  "unborn x s \<longleftrightarrow> x < length (mvars s) \<and> mvars s ! x = None"

fun op_ok :: "mf_op \<Rightarrow> mf_sys \<Rightarrow> bool" where
  "op_ok (Op_new x) s = unborn x s"
| "op_ok (Op_from x _ _) s = unborn x s"
| "op_ok (Op_move x y) s = (unborn x s \<and> alive y s)"
| "op_ok (Op_move_assign x y) s = (alive x s \<and> alive y s)"
| "op_ok (Op_null x) s = alive x s"
| "op_ok (Op_assign x _ _) s = alive x s"
| "op_ok (Op_swap x y) s = (alive x s \<and> alive y s)"
| "op_ok (Op_delete x) s = alive x s"

definition set_var :: "nat \<Rightarrow> move_only_function option \<Rightarrow> mf_sys \<Rightarrow> mf_sys" where
  "set_var x v s = s\<lparr>mvars := (mvars s)[x := v]\<rparr>"

abbreviation get_var :: "nat \<Rightarrow> mf_sys \<Rightarrow> move_only_function" where
  "get_var x s \<equiv> the (mvars s ! x)"

text \<open>The move assignment: a temporary takes over the other, is swapped with this one and destroyed.\<close>

definition mf_move_assign :: "nat \<Rightarrow> nat \<Rightarrow> mf_sys \<Rightarrow> mf_sys" where
  "mf_move_assign x y s =
     (let (tmp, other) = mf_move (get_var y s);
          s1 = set_var y (Some other) s;
          (tmp', self) = mf_swap tmp (get_var x s1)
      in (set_var x (Some self) s1)\<lparr>mheap := mf_delete tmp' (mheap s1)\<rparr>)"

fun mf_run :: "mf_op \<Rightarrow> mf_sys \<Rightarrow> mf_sys" where
  "mf_run (Op_new x) s = set_var x (Some mf_new) s"
| "mf_run (Op_from x ty null) s = (let (v, h) = mf_from ty null (mheap s) in (set_var x (Some v) s)\<lparr>mheap := h\<rparr>)"
| "mf_run (Op_move x y) s = (let (v, w) = mf_move (get_var y s) in set_var x (Some v) (set_var y (Some w) s))"
| "mf_run (Op_move_assign x y) s = mf_move_assign x y s"
| "mf_run (Op_null x) s = (let (v, h) = mf_assign_null (get_var x s) (mheap s) in (set_var x (Some v) s)\<lparr>mheap := h\<rparr>)"
| "mf_run (Op_assign x ty null) s =
     (let (v, h) = mf_assign ty null (get_var x s) (mheap s) in (set_var x (Some v) s)\<lparr>mheap := h\<rparr>)"
| "mf_run (Op_swap x y) s =
     (let (v, w) = mf_swap (get_var x s) (get_var y s) in set_var x (Some v) (set_var y (Some w) s))"
| "mf_run (Op_delete x) s = (set_var x None s)\<lparr>mheap := mf_delete (get_var x s) (mheap s)\<rparr>"

inductive mf_step :: "mf_sys \<Rightarrow> mf_sys \<Rightarrow> bool" where
  "op_ok op s \<Longrightarrow> mf_step s (mf_run op s)"

definition mf_sys_new :: "nat \<Rightarrow> mf_sys" where
  "mf_sys_new n = \<lparr>mvars = replicate n None, mheap = \<lparr>fh_live = {}, fh_destroyed = [], fh_next = 0, fh_error = None\<rparr>\<rparr>"

definition mf_init :: "mf_sys \<Rightarrow> bool" where
  "mf_init s \<longleftrightarrow> (\<exists>n. s = mf_sys_new n)"

section \<open>Ownership\<close>

text \<open>What a wrapper owns: functors, marked when they are on the heap.\<close>

fun data_holds :: "any_data \<Rightarrow> (bool \<times> fobject) multiset" where
  "data_holds (Local f) = {#(False, f)#}"
| "data_holds (Heap_ptr f) = {#(True, f)#}"
| "data_holds Garbage = {#}"

definition holds :: "move_only_function \<Rightarrow> (bool \<times> fobject) multiset" where
  "holds v = (if m_manager v = None then {#} else data_holds (m_functor v))"

fun var_holds :: "move_only_function option \<Rightarrow> (bool \<times> fobject) multiset" where
  "var_holds None = {#}"
| "var_holds (Some v) = holds v"

definition all_held :: "mf_sys \<Rightarrow> (bool \<times> fobject) multiset" where
  "all_held s = sum_list (map var_holds (mvars s))"

text \<open>
  The typing of storage, and of wrappers: the manager and the invoker are the instances for the type of
  the functor that is stored, where that type is stored.
\<close>

inductive has_type :: "any_data \<Rightarrow> functor_type \<Rightarrow> bool" where
  T_local: "stored_locally ty \<Longrightarrow> f_type f = ty \<Longrightarrow> has_type (Local f) ty"
| T_heap: "\<not> stored_locally ty \<Longrightarrow> f_type f = ty \<Longrightarrow> has_type (Heap_ptr f) ty"

inductive_simps has_type_simps [simp]:
  "has_type (Local f) ty" "has_type (Heap_ptr f) ty" "has_type Garbage ty"

definition well_typed :: "move_only_function \<Rightarrow> bool" where
  "well_typed v \<longleftrightarrow> (\<forall>ty. m_manager v = Some ty \<longrightarrow> m_invoker v = Some ty \<and> has_type (m_functor v) ty)"

lemma has_type_unique: "has_type d ty \<Longrightarrow> has_type d ty' \<Longrightarrow> ty = ty'"
  by (auto elim!: has_type.cases)

abbreviation numbers :: "(bool \<times> fobject) multiset \<Rightarrow> nat multiset" where
  "numbers H \<equiv> image_mset (f_number \<circ> snd) H"

definition heap_ok :: "(bool \<times> fobject) multiset \<Rightarrow> fheap \<Rightarrow> bool" where
  "heap_ok H h \<longleftrightarrow> fh_error h = None \<and> numbers H + mset (map f_number (fh_destroyed h)) = mset [0..<fh_next h]
     \<and> fh_live h = {f. (True, f) \<in># H}"

definition mf_inv :: "mf_sys \<Rightarrow> bool" where
  "mf_inv s \<longleftrightarrow> (\<forall>v. Some v \<in> set (mvars s) \<longrightarrow> well_typed v) \<and> heap_ok (all_held s) (mheap s)"

lemma heap_ok_once:
  assumes "heap_ok H h"
  shows "count (numbers H) f + count_list (map f_number (fh_destroyed h)) f = (if f < fh_next h then 1 else 0)"
proof -
  have "count (numbers H + mset (map f_number (fh_destroyed h))) f = count (mset [0..<fh_next h]) f"
    using assms by (simp only: heap_ok_def)
  then show ?thesis unfolding count_union count_mset[of "map f_number (fh_destroyed h)"] by simp
qed

lemma heap_ok_init:
  assumes "heap_ok H h" and "m_init_functor ty h = (d, h')"
  shows "heap_ok (H + data_holds d) h' \<and> has_type d ty"
proof -
  have 1: "fh_error h = None" "numbers H + mset (map f_number (fh_destroyed h)) = mset [0..<fh_next h]" "fh_live h = {f. (True, f) \<in># H}"
    using assms(1) unfolding heap_ok_def by blast+
  have 2: "mset [0..<Suc (fh_next h)] = add_mset (fh_next h) (numbers H + mset (map f_number (fh_destroyed h)))"
    unfolding 1(2) by simp
  show ?thesis
  proof (cases "stored_locally ty")
    case True
    then have "d = Local \<lparr>f_number = fh_next h, f_type = ty\<rparr>" "h' = h\<lparr>fh_next := Suc (fh_next h)\<rparr>" using assms(2) by (auto simp: m_init_functor_def Let_def)
    then show ?thesis using True 1(1,3) by (simp add: heap_ok_def 2 del: upt_Suc mset_upt)
  next
    case False
    then have "d = Heap_ptr \<lparr>f_number = fh_next h, f_type = ty\<rparr>"
        "h' = h\<lparr>fh_live := insert \<lparr>f_number = fh_next h, f_type = ty\<rparr> (fh_live h), fh_next := Suc (fh_next h)\<rparr>"
      using assms(2) by (auto simp: m_init_functor_def Let_def)
    then show ?thesis using False 1(1,3) by (auto simp add: heap_ok_def 2 simp del: upt_Suc mset_upt)
  qed
qed

lemma heap_ok_destroy:
  assumes "heap_ok (H + data_holds d) h" and "has_type d ty"
  shows "heap_ok H (m_destroy ty d h)"
proof (cases d)
  case (Heap_ptr f)
  have "count (numbers (H + data_holds d)) (f_number f) \<le> 1"
    using heap_ok_once[OF assms(1), of "f_number f"] by (simp split: if_splits)
  then have "f_number f \<notin># numbers H" using Heap_ptr by (simp add: not_in_iff del: set_image_mset)
  then have "(True, f) \<notin># H" by force
  then show ?thesis using assms Heap_ptr by (auto simp: heap_ok_def m_destroy_def)
qed (use assms in \<open>auto simp: heap_ok_def m_destroy_def\<close>)

lemma heap_ok_delete: "heap_ok (H + holds v) h \<Longrightarrow> well_typed v \<Longrightarrow> heap_ok H (mf_delete v h)"
  by (auto simp: mf_delete_def holds_def well_typed_def split: option.splits intro: heap_ok_destroy)

interpretation fn: owners var_holds None
  by unfold_locales simp

text \<open>What the other variables own.\<close>

definition rest :: "nat \<Rightarrow> mf_sys \<Rightarrow> (bool \<times> fobject) multiset" where
  "rest x s = sum_list (map var_holds ((mvars s)[x := None]))"

lemma held_rest:
  assumes "x < length (mvars s)"
  shows "all_held s = rest x s + var_holds (mvars s ! x)" and "all_held (set_var x v s) = rest x s + var_holds v"
proof -
  show "all_held s = rest x s + var_holds (mvars s ! x)" unfolding all_held_def rest_def by (rule fn.total_others(1)[OF assms])
  have v: "mvars (set_var x v s) = (mvars s)[x := v]" by (simp add: set_var_def)
  show "all_held (set_var x v s) = rest x s + var_holds v" unfolding all_held_def rest_def v by (rule fn.total_others(2)[OF assms])
qed

lemma var_simps [simp]:
  "mheap (set_var x v s) = mheap s" "length (mvars (set_var x v s)) = length (mvars s)"
  "all_held (s\<lparr>mheap := h\<rparr>) = all_held s" "mvars (set_var x v s) = (mvars s)[x := v]"
  by (simp_all add: set_var_def all_held_def)

lemma mf_swap_eq [simp]: "mf_swap a b = (b, a)"
  by (simp add: mf_swap_def)

lemma mf_move_eq [simp]: "mf_move y = (y, mf_new)"
  by (simp add: mf_move_def)

lemma mf_new_facts [simp]: "holds mf_new = {#}" "well_typed mf_new"
  by (simp_all add: holds_def well_typed_def mf_new_def)

lemma mf_inv_set:
  assumes "mf_inv s" and "\<And>w. v = Some w \<Longrightarrow> well_typed w" and "heap_ok (all_held (set_var x v s)) h"
  shows "mf_inv ((set_var x v s)\<lparr>mheap := h\<rparr>)"
  using assms by (auto simp: mf_inv_def dest!: set_update_subset_insert[THEN subsetD])

lemma mf_inv_var:
  assumes "mf_inv s" and "alive x s"
  shows "well_typed (get_var x s)" and "mvars s ! x = Some (get_var x s)" and "var_holds (mvars s ! x) = holds (get_var x s)"
  using assms nth_mem[of x "mvars s"] by (auto simp: mf_inv_def alive_def)

lemma from_ok:
  assumes "heap_ok H h" and "mf_from ty null h = (v, h')"
  shows "heap_ok (H + holds v) h' \<and> well_typed v"
proof (cases null)
  case False
  obtain d h1 where d: "m_init_functor ty h = (d, h1)" by fastforce
  then have "v = \<lparr>m_functor = d, m_manager = Some ty, m_invoker = Some ty\<rparr>" "h' = h1"
    using assms(2) False by (auto simp: mf_from_def)
  then show ?thesis using heap_ok_init[OF assms(1) d] by (simp add: holds_def well_typed_def)
qed (use assms in \<open>simp add: mf_from_def\<close>)

lemma null_ok:
  assumes "heap_ok (H + holds v) h" and "well_typed v" and "mf_assign_null v h = (v', h')"
  shows "heap_ok H h' \<and> holds v' = {#} \<and> well_typed v'"
  using assms heap_ok_delete[OF assms(1,2)]
  by (auto simp: mf_assign_null_def mf_delete_def holds_def well_typed_def split: option.splits)

text \<open>Moving what one variable holds to another that holds nothing, or exchanging the two.\<close>

lemma move_between:
  assumes "mf_inv s" and "x < length (mvars s)" and "alive y s" and "x \<noteq> y" and "well_typed v" and "well_typed w"
    and "var_holds (mvars s ! x) + var_holds (mvars s ! y) = holds v + holds w"
  shows "mf_inv (set_var x (Some v) (set_var y (Some w) s))"
proof -
  have y: "y < length (mvars s)" using assms(3) by (simp add: alive_def)
  have "all_held (set_var x (Some v) (set_var y (Some w) s)) = all_held s"
    using fn.total_exchange[OF assms(2) y assms(4), of "Some v" "Some w"] assms(7) by (simp add: all_held_def)
  then show ?thesis
    using assms(1,5,6) by (auto simp: mf_inv_def dest!: set_update_subset_insert[THEN subsetD])
qed

lemma move_assign_ok:
  assumes "mf_inv s" and "alive x s" and "alive y s"
  shows "mf_inv (mf_move_assign x y s)"
proof (cases "x = y")
  case True
  have "(mvars s)[x := Some (get_var x s)] = mvars s" using mf_inv_var(2)[OF assms(1,2)] by (metis list_update_id)
  then have "mf_move_assign x y s = s"
    using True assms(2) by (simp add: mf_move_assign_def set_var_def alive_def mf_delete_def mf_new_def)
  then show ?thesis using assms(1) by simp
next
  case False
  let ?s1 = "set_var y (Some mf_new) s"
  have x: "x < length (mvars s)" "y < length (mvars s)" using assms(2,3) by (auto simp: alive_def)
  note vx = mf_inv_var[OF assms(1,2)] and vy = mf_inv_var[OF assms(1,3)]
  have m: "mf_move_assign x y s = (set_var x (Some (get_var y s)) ?s1)\<lparr>mheap := mf_delete (get_var x s) (mheap s)\<rparr>"
    using False x by (simp add: mf_move_assign_def)
  have "all_held ?s1 = rest x ?s1 + holds (get_var x s)" using held_rest(1)[of x ?s1] False x vx(3) by simp
  moreover have "all_held ?s1 = rest y s" using held_rest(2)[OF x(2), of "Some mf_new"] by simp
  moreover have "all_held s = rest y s + holds (get_var y s)" using held_rest(1)[OF x(2)] vy(3) by simp
  ultimately have "all_held s = rest x ?s1 + holds (get_var y s) + holds (get_var x s)" by (simp add: ac_simps)
  then have "heap_ok (rest x ?s1 + holds (get_var y s)) (mf_delete (get_var x s) (mheap s))"
    using assms(1) vx(1) by (intro heap_ok_delete) (auto simp: mf_inv_def)
  moreover have "all_held (set_var x (Some (get_var y s)) ?s1) = rest x ?s1 + holds (get_var y s)"
    using held_rest(2)[of x ?s1 "Some (get_var y s)"] x by simp
  ultimately show ?thesis
    using assms(1) vy(1) unfolding m by (auto simp: mf_inv_def dest!: set_update_subset_insert[THEN subsetD])
qed

lemma held_alive:
  assumes "mf_inv s" and "alive x s"
  shows "x < length (mvars s)" and "heap_ok (rest x s + holds (get_var x s)) (mheap s)"
proof -
  show x: "x < length (mvars s)" using assms(2) by (simp add: alive_def)
  show "heap_ok (rest x s + holds (get_var x s)) (mheap s)"
    using held_rest(1)[OF x] mf_inv_var(3)[OF assms] assms(1) by (simp add: mf_inv_def)
qed

lemma run_null:
  assumes "mf_inv s" and "alive x s"
  shows "mf_inv (mf_run (Op_null x) s)"
proof -
  obtain v h where v: "mf_assign_null (get_var x s) (mheap s) = (v, h)" by fastforce
  note x = held_alive[OF assms]
  have "heap_ok (rest x s) h \<and> holds v = {#} \<and> well_typed v" using x(2) mf_inv_var(1)[OF assms] v by (rule null_ok)
  then show ?thesis using v mf_inv_set[OF assms(1), of "Some v" x h] held_rest(2)[OF x(1), of "Some v"] by simp
qed

lemma run_assign:
  assumes "mf_inv s" and "alive x s"
  shows "mf_inv (mf_run (Op_assign x ty null) s)"
proof -
  obtain v h where v: "mf_from ty null (mheap s) = (v, h)" by fastforce
  note x = held_alive[OF assms]
  have "heap_ok (rest x s + holds (get_var x s) + holds v) h \<and> well_typed v" by (rule from_ok[OF x(2) v])
  then have "heap_ok (rest x s + holds v) (mf_delete (get_var x s) h)" "well_typed v"
    using mf_inv_var(1)[OF assms] by (auto intro!: heap_ok_delete simp: ac_simps)
  then show ?thesis
    using v mf_inv_set[OF assms(1), of "Some v" x "mf_delete (get_var x s) h"] held_rest(2)[OF x(1), of "Some v"]
    by (simp add: mf_assign_def)
qed

lemma run_swap:
  assumes "mf_inv s" and "alive x s" and "alive y s"
  shows "mf_inv (mf_run (Op_swap x y) s)"
proof (cases "x = y")
  case True
  have "(mvars s)[x := Some (get_var x s)] = mvars s" using mf_inv_var(2)[OF assms(1,2)] by (metis list_update_id)
  then show ?thesis using True assms(1) by (simp add: set_var_def)
next
  case False
  note vx = mf_inv_var[OF assms(1,2)] and vy = mf_inv_var[OF assms(1,3)]
  show ?thesis
    using move_between[OF assms(1) held_alive(1)[OF assms(1,2)] assms(3) False vy(1) vx(1)] vx(3) vy(3) by (simp add: add.commute)
qed

lemma run_delete:
  assumes "mf_inv s" and "alive x s"
  shows "mf_inv (mf_run (Op_delete x) s)"
proof -
  note x = held_alive[OF assms]
  have "heap_ok (rest x s) (mf_delete (get_var x s) (mheap s))" using x(2) mf_inv_var(1)[OF assms] by (rule heap_ok_delete)
  then show ?thesis using mf_inv_set[OF assms(1), of None x] held_rest(2)[OF x(1), of None] by simp
qed

lemma mf_run_inv:
  assumes "mf_inv s" and "op_ok op s"
  shows "mf_inv (mf_run op s)"
proof (cases op)
  case (Op_new x)
  then show ?thesis using assms held_rest[of x s] mf_inv_set[OF assms(1), of "Some mf_new" x "mheap s"]
    by (simp add: unborn_def mf_inv_def)
next
  case (Op_from x ty null)
  obtain v h where v: "mf_from ty null (mheap s) = (v, h)" by fastforce
  have "all_held (set_var x (Some v) s) = all_held s + holds v" using Op_from assms(2) held_rest[of x s] by (simp add: unborn_def)
  then show ?thesis using Op_from v from_ok[of "all_held s", OF _ v] assms mf_inv_set[OF assms(1), of "Some v" x h]
    by (simp add: mf_inv_def)
next
  case (Op_move x y)
  then have "x \<noteq> y" using assms(2) by (auto simp: unborn_def alive_def)
  then show ?thesis
    using Op_move assms mf_inv_var[OF assms(1), of y] move_between[OF assms(1), of x y "get_var y s" mf_new] by (simp add: unborn_def)
next
  case (Op_move_assign x y)
  then show ?thesis using assms move_assign_ok by simp
next
  case (Op_null x)
  then show ?thesis using assms run_null by simp
next
  case (Op_assign x ty null)
  then show ?thesis using assms run_assign by simp
next
  case (Op_swap x y)
  then show ?thesis using assms run_swap by simp
next
  case (Op_delete x)
  then show ?thesis using assms run_delete by simp
qed

lemma mf_init_inv: "mf_init s \<Longrightarrow> mf_inv s"
proof -
  have "sum_list (map var_holds (replicate n None)) = {#}" for n by (rule fn.total_empty) auto
  then show "mf_init s \<Longrightarrow> mf_inv s"
    by (auto simp: mf_init_def mf_sys_new_def mf_inv_def all_held_def heap_ok_def)
qed


interpretation mf: inv_system mf_init mf_step mf_inv
  by unfold_locales (auto simp: mf_init_inv mf_run_inv elim: mf_step.cases)

lemma held_by_call:
  assumes "mf_inv s" and "alive x s" and "m_manager (get_var x s) \<noteq> None"
  shows "\<exists>f b. mf_call (get_var x s) (mheap s) = ok f \<and> holds (get_var x s) = {#(b, f)#}"
proof -
  obtain ty where ty: "m_manager (get_var x s) = Some ty" using assms(3) by auto
  have x: "x < length (mvars s)" using assms(2) by (simp add: alive_def)
  note vx = mf_inv_var[OF assms(1,2)]
  have "set_mset (holds (get_var x s)) \<subseteq> set_mset (all_held s)" using held_rest(1)[OF x] vx(3) by simp
  then show ?thesis using vx(1) ty assms(1)
    by (cases "m_functor (get_var x s)") (auto simp: mf_call_def m_get_pointer_def well_typed_def holds_def mf_inv_def heap_ok_def)
qed

section \<open>Properties\<close>

text \<open>
  C28.  Functors are owned linearly.  Whatever sequence of constructions, moves, assignments, self-assignments,
  swaps and destructions a program performs on any number of wrappers, nothing is deleted twice, every
  functor ever stored is either held by exactly one living wrapper or has been destroyed exactly once,
  the heap contains no other functors, and a wrapper that holds a functor can be called and calls it; an
  empty one throws \<open>bad_function_call\<close>.
\<close>

theorem function_ownership:
  assumes "reach mf_init mf_step s"
  shows "fh_error (mheap s) = None
    \<and> (\<forall>f. count (numbers (all_held s)) f + count_list (map f_number (fh_destroyed (mheap s))) f = (if f < fh_next (mheap s) then 1 else 0))
    \<and> fh_live (mheap s) = {f. (True, f) \<in># all_held s}
    \<and> (\<forall>x. alive x s \<longrightarrow> (if mf_bool (get_var x s)
          then \<exists>f b. mf_call (get_var x s) (mheap s) = ok f \<and> holds (get_var x s) = {#(b, f)#}
          else mf_call (get_var x s) (mheap s) = throw Bad_function_call))"
proof -
  have inv: "mf_inv s" by (rule mf.reach_inv[OF assms])
  then have h: "heap_ok (all_held s) (mheap s)" by (simp add: mf_inv_def)
  show ?thesis using heap_ok_once[OF h] h held_by_call[OF inv] by (auto simp: heap_ok_def mf_bool_def mf_call_def)
qed

text \<open>A functor of 32 bytes is stored in the first of two wrappers and moved to the second.\<close>

definition demo_functor :: functor_type where
  "demo_functor = \<lparr>ft_trivially_copyable = True, ft_sizeof = 32, ft_alignof = 8\<rparr>"

lemma demo_not_local: "\<not> stored_locally demo_functor"
  by (simp add: stored_locally_def demo_functor_def m_max_size_def)

abbreviation demo_object :: fobject where
  "demo_object \<equiv> \<lparr>f_number = 0, f_type = demo_functor\<rparr>"

definition demo_mf :: mf_sys where
  "demo_mf = mf_run (Op_move 1 0) (mf_run (Op_from 0 demo_functor False) (mf_sys_new 2))"

lemma demo_mf_fields:
  "mf_run (Op_from 0 demo_functor False) (mf_sys_new 2) =
     \<lparr>mvars = [Some \<lparr>m_functor = Heap_ptr demo_object, m_manager = Some demo_functor, m_invoker = Some demo_functor\<rparr>, None],
      mheap = \<lparr>fh_live = {demo_object}, fh_destroyed = [], fh_next = 1, fh_error = None\<rparr>\<rparr>"
  "mvars demo_mf = [Some mf_new, Some \<lparr>m_functor = Heap_ptr demo_object, m_manager = Some demo_functor, m_invoker = Some demo_functor\<rparr>]"
  "mheap demo_mf = \<lparr>fh_live = {demo_object}, fh_destroyed = [], fh_next = 1, fh_error = None\<rparr>"
proof -
  show 1: "mf_run (Op_from 0 demo_functor False) (mf_sys_new 2) =
     \<lparr>mvars = [Some \<lparr>m_functor = Heap_ptr demo_object, m_manager = Some demo_functor, m_invoker = Some demo_functor\<rparr>, None],
      mheap = \<lparr>fh_live = {demo_object}, fh_destroyed = [], fh_next = 1, fh_error = None\<rparr>\<rparr>"
    by (simp add: mf_sys_new_def mf_from_def m_init_functor_def demo_not_local Let_def set_var_def numeral_2_eq_2)
  show "mvars demo_mf = [Some mf_new, Some \<lparr>m_functor = Heap_ptr demo_object, m_manager = Some demo_functor, m_invoker = Some demo_functor\<rparr>]"
    "mheap demo_mf = \<lparr>fh_live = {demo_object}, fh_destroyed = [], fh_next = 1, fh_error = None\<rparr>"
    unfolding demo_mf_def 1 by (simp_all add: set_var_def)
qed

lemma demo_mf_reach: "reach mf_init mf_step demo_mf"
  unfolding demo_mf_def
proof (rule reach_step)
  show "reach mf_init mf_step (mf_run (Op_from 0 demo_functor False) (mf_sys_new 2))"
  proof (rule reach_step)
    show "reach mf_init mf_step (mf_sys_new 2)" by (rule reach_init) (auto simp: mf_init_def)
    show "mf_step (mf_sys_new 2) (mf_run (Op_from 0 demo_functor False) (mf_sys_new 2))"
      by (rule mf_step.intros) (simp add: unborn_def mf_sys_new_def)
  qed
  show "mf_step (mf_run (Op_from 0 demo_functor False) (mf_sys_new 2))
      (mf_run (Op_move 1 0) (mf_run (Op_from 0 demo_functor False) (mf_sys_new 2)))"
    by (rule mf_step.intros) (simp add: unborn_def alive_def demo_mf_fields(1) del: mf_run.simps)
qed

theorem function_ownership_witness:
  "mf_call (get_var 0 demo_mf) (mheap demo_mf) = throw Bad_function_call
     \<and> (\<exists>f b. mf_call (get_var 1 demo_mf) (mheap demo_mf) = ok f \<and> holds (get_var 1 demo_mf) = {#(b, f)#})
     \<and> fh_error (mheap demo_mf) = None"
proof -
  have a: "alive 0 demo_mf" "alive 1 demo_mf" "\<not> mf_bool (get_var 0 demo_mf)" "mf_bool (get_var 1 demo_mf)"
    by (simp_all add: alive_def mf_bool_def demo_mf_fields(2) mf_new_def)
  show ?thesis
    using function_ownership[OF demo_mf_reach] a by metis
qed

text \<open>
  C29.  Type safety of the erased storage.  In every state a program can reach, a wrapper whose manager is the
  instance for some type has the invoker of the same type, stores a functor of that type where functors
  of that type are stored, and calls a functor of that type; and no statement of the program destroys
  or calls a functor at a type other than its own.
\<close>

theorem function_types:
  assumes "reach mf_init mf_step s" and "alive x s" and "m_manager (get_var x s) = Some ty"
  shows "m_invoker (get_var x s) = Some ty \<and> has_type (m_functor (get_var x s)) ty
    \<and> (\<exists>f. mf_call (get_var x s) (mheap s) = ok f \<and> f_type f = ty)
    \<and> (\<forall>op. op_ok op s \<longrightarrow> fh_error (mheap (mf_run op s)) = None)"
proof -
  have inv: "mf_inv s" by (rule mf.reach_inv[OF assms(1)])
  have t: "m_invoker (get_var x s) = Some ty" "has_type (m_functor (get_var x s)) ty"
    using mf_inv_var(1)[OF inv assms(2)] assms(3) by (auto simp: well_typed_def)
  obtain f b where f: "mf_call (get_var x s) (mheap s) = ok f" using held_by_call[OF inv assms(2)] assms(3) by auto
  then have "f_type f = ty"
    using t assms(3) by (auto simp: mf_call_def m_get_pointer_def split: any_data.splits if_splits)
  moreover have "fh_error (mheap (mf_run op s)) = None" if "op_ok op s" for op
    using mf_run_inv[OF inv that] by (simp add: mf_inv_def heap_ok_def)
  ultimately show ?thesis using t f by blast
qed

theorem function_types_witness:
  "has_type (m_functor (get_var 1 demo_mf)) demo_functor \<and> fh_error (mheap (mf_run (Op_null 1) demo_mf)) = None
     \<and> (\<exists>f. mf_call (get_var 1 demo_mf) (mheap demo_mf) = ok f \<and> f_type f = demo_functor)"
proof -
  have 1: "alive 1 demo_mf" "m_manager (get_var 1 demo_mf) = Some demo_functor" by (simp_all add: alive_def demo_mf_fields(2))
  then have "op_ok (Op_null 1) demo_mf" by simp
  then show ?thesis using function_types[OF demo_mf_reach 1] by blast
qed

text \<open>
  The function reaches the executor, but a task that is copied once more calls nothing: only the last
  copy of a \<open>MoveWrapper\<close> can be called.
\<close>

lemma move_wrapper_last_copy:
  "schedule_move_only schedule func = schedule \<lparr>mw_value = func\<rparr>"
  "mf_call (mw_value (fst (MoveWrapper_copy w))) h = mf_call (mw_value w) h"
  "mf_call (mw_value (snd (MoveWrapper_copy w))) h = throw Bad_function_call"
  by (simp_all add: schedule_move_only_def MoveWrapper_new_def MoveWrapper_copy_def mf_call_def mf_new_def)

end
