(* ===== verification/HttpRequest_Model.thy ===== *)
theory HttpRequest_Model
  imports Prelude
begin

text \<open>
  The incremental parser of HTTP requests (demo_example/http/http_request.hpp).

  The parser is a character-driven automaton with twenty states that fills a \<open>request\<close>.  A \<open>char\<close> of the
  C++ code is signed: bytes from 128 on are negative when they are compared as \<open>int\<close>.  The version numbers
  are \<open>int\<close>; an overflow is undefined behaviour, as is \<open>back()\<close> on an empty vector.

  The reference is a grammar: \<open>raw_request\<close> is a parse tree, \<open>raw_bytes\<close> prints it and \<open>raw_meaning\<close> is the
  request it stands for.
\<close>

section \<open>Requests\<close>

record header =
  h_name :: string
  h_value :: string

record request =
  rq_method :: string
  rq_uri :: string
  http_version_major :: int
  http_version_minor :: int
  rq_headers :: "header list"

text \<open>\<open>request{}\<close>.\<close>

definition request_new :: request where
  "request_new = \<lparr>rq_method = [], rq_uri = [], http_version_major = 0, http_version_minor = 0, rq_headers = []\<rparr>"

section \<open>Character classes\<close>

definition int_of_char :: "char \<Rightarrow> int" where
  "int_of_char c = (if of_char c < (128 :: int) then of_char c else of_char c - 256)"

definition is_char :: "int \<Rightarrow> bool" where
  "is_char c \<longleftrightarrow> c \<ge> 0 \<and> c \<le> 127"

definition is_ctl :: "int \<Rightarrow> bool" where
  "is_ctl c \<longleftrightarrow> (c \<ge> 0 \<and> c \<le> 31) \<or> c = 127"

definition tspecials :: string where
  "tspecials = ''()<>@,;:'' @ [CHR 0x5C, CHR 0x22] @ ''/[]?={} '' @ [CHR 0x09]"

definition is_tspecial :: "int \<Rightarrow> bool" where
  "is_tspecial c \<longleftrightarrow> c \<in> set (map int_of_char tspecials)"

definition is_digit :: "int \<Rightarrow> bool" where
  "is_digit c \<longleftrightarrow> c \<ge> int_of_char (CHR ''0'') \<and> c \<le> int_of_char (CHR ''9'')"

text \<open>The guard that five states share: \<open>!is_char(input) || is_ctl(input) || is_tspecial(input)\<close> is refused.\<close>

definition token_char :: "char \<Rightarrow> bool" where
  "token_char c \<longleftrightarrow> is_char (int_of_char c) \<and> \<not> is_ctl (int_of_char c) \<and> \<not> is_tspecial (int_of_char c)"

abbreviation cr :: char where "cr \<equiv> CHR 0x0D"
abbreviation lf :: char where "lf \<equiv> CHR 0x0A"
abbreviation tab :: char where "tab \<equiv> CHR 0x09"

definition crlf :: string where
  "crlf = [cr, lf]"

section \<open>The automaton\<close>

datatype result_type = good | bad | indeterminate

datatype pstate =
    method_start
  | method_rest
  | uri
  | http_version_h
  | http_version_t_1
  | http_version_t_2
  | http_version_p
  | http_version_slash
  | version_major_start
  | version_major
  | version_minor_start
  | version_minor
  | expecting_newline_1
  | header_line_start
  | header_lws
  | header_name
  | space_before_header_value
  | header_value
  | expecting_newline_2
  | expecting_newline_3

definition int_max :: int where
  "int_max = 2 ^ 31 - 1"

text \<open>\<open>v * 10 + input - '0'\<close>, evaluated from left to right in \<open>int\<close>.\<close>

definition add_digit :: "int \<Rightarrow> char \<Rightarrow> int result" where
  "add_digit v c =
     (if v * 10 > int_max \<or> v * 10 + int_of_char c > int_max then Inl (Undefined ''signed overflow'')
      else ok (v * 10 + int_of_char c - int_of_char (CHR ''0'')))"

text \<open>\<open>headers.back()\<close>.\<close>

definition upd_back :: "(header \<Rightarrow> header) \<Rightarrow> request \<Rightarrow> request result" where
  "upd_back f req =
     (if rq_headers req = [] then Inl (Undefined ''back of an empty vector'')
      else ok (req\<lparr>rq_headers := butlast (rq_headers req) @ [f (last (rq_headers req))]\<rparr>))"

definition push_name :: "char \<Rightarrow> header \<Rightarrow> header" where
  "push_name c h = h\<lparr>h_name := h_name h @ [c]\<rparr>"

definition push_value :: "char \<Rightarrow> header \<Rightarrow> header" where
  "push_value c h = h\<lparr>h_value := h_value h @ [c]\<rparr>"

type_synonym consumed = "(result_type \<times> pstate \<times> request) result"

text \<open>The three ways a state reacts: go on in a state, refuse, or go on after a change that may fail.\<close>

abbreviation goes :: "pstate \<Rightarrow> request \<Rightarrow> consumed" where
  "goes st req \<equiv> ok (indeterminate, st, req)"

definition goes_with :: "pstate \<Rightarrow> request result \<Rightarrow> consumed" where
  "goes_with st r = (case r of Inl e \<Rightarrow> Inl e | Inr req \<Rightarrow> goes st req)"

definition set_major :: "request \<Rightarrow> char \<Rightarrow> request result" where
  "set_major req c = map_sum (\<lambda>e. e) (\<lambda>v. req\<lparr>http_version_major := v\<rparr>) (add_digit (http_version_major req) c)"

definition set_minor :: "request \<Rightarrow> char \<Rightarrow> request result" where
  "set_minor req c = map_sum (\<lambda>e. e) (\<lambda>v. req\<lparr>http_version_minor := v\<rparr>) (add_digit (http_version_minor req) c)"

fun consume :: "pstate \<Rightarrow> request \<Rightarrow> char \<Rightarrow> consumed" where
  "consume method_start req c =
     (if \<not> token_char c then ok (bad, method_start, req)
      else goes method_rest (req\<lparr>rq_method := rq_method req @ [c]\<rparr>))"
| "consume method_rest req c =
     (if c = CHR '' '' then goes uri req
      else if \<not> token_char c then ok (bad, method_rest, req)
      else goes method_rest (req\<lparr>rq_method := rq_method req @ [c]\<rparr>))"
| "consume uri req c =
     (if c = CHR '' '' then goes http_version_h req
      else if is_ctl (int_of_char c) then ok (bad, uri, req)
      else goes uri (req\<lparr>rq_uri := rq_uri req @ [c]\<rparr>))"
| "consume http_version_h req c =
     (if c = CHR ''H'' then goes http_version_t_1 req else ok (bad, http_version_h, req))"
| "consume http_version_t_1 req c =
     (if c = CHR ''T'' then goes http_version_t_2 req else ok (bad, http_version_t_1, req))"
| "consume http_version_t_2 req c =
     (if c = CHR ''T'' then goes http_version_p req else ok (bad, http_version_t_2, req))"
| "consume http_version_p req c =
     (if c = CHR ''P'' then goes http_version_slash req else ok (bad, http_version_p, req))"
| "consume http_version_slash req c =
     (if c = CHR ''/'' then goes version_major_start (req\<lparr>http_version_major := 0, http_version_minor := 0\<rparr>)
      else ok (bad, http_version_slash, req))"
| "consume version_major_start req c =
     (if is_digit (int_of_char c) then goes_with version_major (set_major req c)
      else ok (bad, version_major_start, req))"
| "consume version_major req c =
     (if c = CHR ''.'' then goes version_minor_start req
      else if is_digit (int_of_char c) then goes_with version_major (set_major req c)
      else ok (bad, version_major, req))"
| "consume version_minor_start req c =
     (if is_digit (int_of_char c) then goes_with version_minor (set_minor req c)
      else ok (bad, version_minor_start, req))"
| "consume version_minor req c =
     (if c = cr then goes expecting_newline_1 req
      else if is_digit (int_of_char c) then goes_with version_minor (set_minor req c)
      else ok (bad, version_minor, req))"
| "consume expecting_newline_1 req c =
     (if c = lf then goes header_line_start req else ok (bad, expecting_newline_1, req))"
| "consume header_line_start req c =
     (if c = cr then goes expecting_newline_3 req
      else if rq_headers req \<noteq> [] \<and> (c = CHR '' '' \<or> c = tab) then goes header_lws req
      else if \<not> token_char c then ok (bad, header_line_start, req)
      else goes_with header_name
        (upd_back (push_name c) (req\<lparr>rq_headers := rq_headers req @ [\<lparr>h_name = [], h_value = []\<rparr>]\<rparr>)))"
| "consume header_lws req c =
     (if c = cr then goes expecting_newline_2 req
      else if c = CHR '' '' \<or> c = tab then goes header_lws req
      else if is_ctl (int_of_char c) then ok (bad, header_lws, req)
      else goes_with header_value (upd_back (push_value c) req))"
| "consume header_name req c =
     (if c = CHR '':'' then goes space_before_header_value req
      else if \<not> token_char c then ok (bad, header_name, req)
      else goes_with header_name (upd_back (push_name c) req))"
| "consume space_before_header_value req c =
     (if c = CHR '' '' then goes header_value req else ok (bad, space_before_header_value, req))"
| "consume header_value req c =
     (if c = cr then goes expecting_newline_2 req
      else if is_ctl (int_of_char c) then ok (bad, header_value, req)
      else goes_with header_value (upd_back (push_value c) req))"
| "consume expecting_newline_2 req c =
     (if c = lf then goes header_line_start req else ok (bad, expecting_newline_2, req))"
| "consume expecting_newline_3 req c =
     ok (if c = lf then good else bad, expecting_newline_3, req)"

text \<open>\<open>parse\<close>, with the iterator it returns as the bytes that are left.\<close>

fun parse :: "pstate \<Rightarrow> request \<Rightarrow> string \<Rightarrow> (result_type \<times> pstate \<times> request \<times> string) result" where
  "parse st req [] = ok (indeterminate, st, req, [])"
| "parse st req (c # cs) =
     (case consume st req c of
        Inl e \<Rightarrow> Inl e
      | Inr (r, st', req') \<Rightarrow>
          if r = good \<or> r = bad then ok (r, st', req', cs) else parse st' req' cs)"

text \<open>The constructor and \<open>reset\<close>.\<close>

definition request_parser_new :: pstate where
  "request_parser_new = method_start"

definition parser_reset :: "pstate \<Rightarrow> pstate" where
  "parser_reset st = method_start"

section \<open>The grammar of requests\<close>

text \<open>A header line: a field, or a continuation of the line before it.\<close>

datatype header_line =
    Field string string
  | Folded string string

record raw_request =
  raw_method :: string
  raw_uri :: string
  raw_major :: string
  raw_minor :: string
  raw_lines :: "header_line list"

fun line_bytes :: "header_line \<Rightarrow> string" where
  "line_bytes (Field n v) = n @ '': '' @ v @ crlf"
| "line_bytes (Folded ws t) = ws @ t @ crlf"

definition raw_bytes :: "raw_request \<Rightarrow> string" where
  "raw_bytes r = raw_method r @ '' '' @ raw_uri r @ '' HTTP/'' @ raw_major r @ ''.'' @ raw_minor r @ crlf
     @ concat (map line_bytes (raw_lines r)) @ crlf"

abbreviation text_char :: "char \<Rightarrow> bool" where
  "text_char c \<equiv> \<not> is_ctl (int_of_char c)"

abbreviation blank :: "char \<Rightarrow> bool" where
  "blank c \<equiv> c = CHR '' '' \<or> c = tab"

fun line_ok :: "header_line \<Rightarrow> bool" where
  "line_ok (Field n v) \<longleftrightarrow> n \<noteq> [] \<and> list_all token_char n \<and> list_all text_char v"
| "line_ok (Folded ws t) \<longleftrightarrow> ws \<noteq> [] \<and> list_all blank ws \<and> list_all text_char t \<and> (t \<noteq> [] \<longrightarrow> \<not> blank (hd t))"

definition decimal :: "string \<Rightarrow> int" where
  "decimal ds = foldl (\<lambda>v c. v * 10 + (int_of_char c - 48)) 0 ds"

text \<open>A number whose evaluation stays in \<open>int\<close>: the sum before \<open>'0'\<close> is subtracted must fit.\<close>

definition number_ok :: "string \<Rightarrow> bool" where
  "number_ok ds \<longleftrightarrow> ds \<noteq> [] \<and> list_all (\<lambda>c. is_digit (int_of_char c)) ds \<and> decimal ds + 48 \<le> int_max"

fun is_folded :: "header_line \<Rightarrow> bool" where
  "is_folded (Folded _ _) = True"
| "is_folded (Field _ _) = False"

definition raw_ok :: "raw_request \<Rightarrow> bool" where
  "raw_ok r \<longleftrightarrow> raw_method r \<noteq> [] \<and> list_all token_char (raw_method r)
     \<and> list_all (\<lambda>c. text_char c \<and> c \<noteq> CHR '' '') (raw_uri r)
     \<and> number_ok (raw_major r) \<and> number_ok (raw_minor r)
     \<and> list_all line_ok (raw_lines r) \<and> (raw_lines r \<noteq> [] \<longrightarrow> \<not> is_folded (hd (raw_lines r)))"

fun add_line :: "header list \<Rightarrow> header_line \<Rightarrow> header list" where
  "add_line hs (Field n v) = hs @ [\<lparr>h_name = n, h_value = v\<rparr>]"
| "add_line hs (Folded ws t) = butlast hs @ [(last hs)\<lparr>h_value := h_value (last hs) @ t\<rparr>]"

definition raw_meaning :: "raw_request \<Rightarrow> request" where
  "raw_meaning r =
     \<lparr>rq_method = raw_method r, rq_uri = raw_uri r, http_version_major = decimal (raw_major r),
      http_version_minor = decimal (raw_minor r), rq_headers = foldl add_line [] (raw_lines r)\<rparr>"

section \<open>Scanning\<close>

fun scan_all :: "('r \<Rightarrow> char \<Rightarrow> 'r option) \<Rightarrow> string \<Rightarrow> 'r \<Rightarrow> 'r option" where
  "scan_all f [] r = Some r"
| "scan_all f (c # cs) r = Option.bind (f r c) (scan_all f cs)"

text \<open>
  An automaton that loops in a state until it sees the character \<open>t\<close> accepts exactly what is a run of the
  loop, followed by \<open>t\<close> and by what the next state accepts.
\<close>

lemma scan_until:
  assumes "\<And>r. \<not> A r []"
    and "\<And>r c cs. A r (c # cs) \<longleftrightarrow> (if c = t then B r cs else (\<exists>r'. f r c = Some r' \<and> A r' cs))"
  shows "A r bs \<longleftrightarrow> (\<exists>u cs r'. bs = u @ t # cs \<and> t \<notin> set u \<and> scan_all f u r = Some r' \<and> B r' cs)"
proof (induction bs arbitrary: r)
  case (Cons c bs)
  show ?case
  proof (cases "c = t")
    case True
    have "B r bs" if "c # bs = u @ t # cs" "t \<notin> set u" "scan_all f u r = Some r'" "B r' cs" for u cs r'
      using that True by (auto simp: Cons_eq_append_conv)
    moreover have "c # bs = [] @ t # bs \<and> t \<notin> set [] \<and> scan_all f [] r = Some r" using True by simp
    moreover have "A r (c # bs) = B r bs" using assms(2)[of r c bs] True by simp
    ultimately show ?thesis by blast
  next
    case False
    have "A r (c # bs) \<longleftrightarrow> (\<exists>r1 u cs r'. f r c = Some r1 \<and> bs = u @ t # cs \<and> t \<notin> set u \<and> scan_all f u r1 = Some r' \<and> B r' cs)"
      using False by (auto simp: assms(2) Cons.IH)
    also have "\<dots> \<longleftrightarrow> (\<exists>u cs r'. c # bs = (c # u) @ t # cs \<and> t \<notin> set (c # u) \<and> scan_all f (c # u) r = Some r' \<and> B r' cs)"
      using False by (auto simp: bind_eq_Some_conv)
    also have "\<dots> \<longleftrightarrow> (\<exists>u cs r'. c # bs = u @ t # cs \<and> t \<notin> set u \<and> scan_all f u r = Some r' \<and> B r' cs)"
    proof -
      have "\<exists>v. u = c # v" if "c # bs = u @ t # cs" for u cs using that False by (cases u) auto
      then show ?thesis by blast
    qed
    finally show ?thesis .
  qed
qed (simp add: assms(1))

text \<open>Loops that add each character to a field.\<close>

lemma scan_push:
  assumes "\<And>r c. f r c = (if P c \<and> Q r then Some (g r c) else None)" and "\<And>r c. Q r \<Longrightarrow> Q (g r c)" and "Q r"
  shows "scan_all f u r = (if list_all P u then Some (foldl g r u) else None)"
  using assms(3) by (induction u arbitrary: r) (auto simp: assms(1,2))

text \<open>What the parser accepts.\<close>

abbreviation accepts_from :: "pstate \<Rightarrow> request \<Rightarrow> string \<Rightarrow> request \<Rightarrow> string \<Rightarrow> bool" where
  "accepts_from st req bs out rest \<equiv> parse st req bs = ok (good, expecting_newline_3, out, rest)"

definition step_with :: "(request \<Rightarrow> char \<Rightarrow> request result) \<Rightarrow> (char \<Rightarrow> bool) \<Rightarrow> request \<Rightarrow> char \<Rightarrow> request option" where
  "step_with f P r c = (if P c then (case f r c of Inl _ \<Rightarrow> None | Inr r' \<Rightarrow> Some r') else None)"

lemma parse_goes_with:
  "(case goes_with st r of Inl e \<Rightarrow> Inl e
     | Inr (q, st', req') \<Rightarrow> if q = good \<or> q = bad then ok (q, st', req', cs) else parse st' req' cs) = ok (good, x)
   \<longleftrightarrow> (\<exists>r'. r = Inr r' \<and> parse st r' cs = ok (good, x))"
  by (cases r) (simp_all add: goes_with_def)

lemma accepts_char:
  "accepts_from http_version_h r bs out rest \<longleftrightarrow> (\<exists>cs. bs = CHR ''H'' # cs \<and> accepts_from http_version_t_1 r cs out rest)"
  "accepts_from http_version_t_1 r bs out rest \<longleftrightarrow> (\<exists>cs. bs = CHR ''T'' # cs \<and> accepts_from http_version_t_2 r cs out rest)"
  "accepts_from http_version_t_2 r bs out rest \<longleftrightarrow> (\<exists>cs. bs = CHR ''T'' # cs \<and> accepts_from http_version_p r cs out rest)"
  "accepts_from http_version_p r bs out rest \<longleftrightarrow> (\<exists>cs. bs = CHR ''P'' # cs \<and> accepts_from http_version_slash r cs out rest)"
  "accepts_from http_version_slash r bs out rest \<longleftrightarrow>
     (\<exists>cs. bs = CHR ''/'' # cs \<and> accepts_from version_major_start (r\<lparr>http_version_major := 0, http_version_minor := 0\<rparr>) cs out rest)"
  "accepts_from expecting_newline_1 r bs out rest \<longleftrightarrow> (\<exists>cs. bs = lf # cs \<and> accepts_from header_line_start r cs out rest)"
  "accepts_from expecting_newline_2 r bs out rest \<longleftrightarrow> (\<exists>cs. bs = lf # cs \<and> accepts_from header_line_start r cs out rest)"
  "accepts_from expecting_newline_3 r bs out rest \<longleftrightarrow> bs = lf # rest \<and> out = r"
  "accepts_from space_before_header_value r bs out rest \<longleftrightarrow> (\<exists>cs. bs = CHR '' '' # cs \<and> accepts_from header_value r cs out rest)"
  by (cases bs; auto)+

lemma accepts_loop:
  "accepts_from method_rest r bs out rest \<longleftrightarrow>
     (\<exists>u cs r'. bs = u @ CHR '' '' # cs \<and> CHR '' '' \<notin> set u
        \<and> scan_all (step_with (\<lambda>r c. ok (r\<lparr>rq_method := rq_method r @ [c]\<rparr>)) token_char) u r = Some r' \<and> accepts_from uri r' cs out rest)"
  "accepts_from uri r bs out rest \<longleftrightarrow>
     (\<exists>u cs r'. bs = u @ CHR '' '' # cs \<and> CHR '' '' \<notin> set u
        \<and> scan_all (step_with (\<lambda>r c. ok (r\<lparr>rq_uri := rq_uri r @ [c]\<rparr>)) text_char) u r = Some r' \<and> accepts_from http_version_h r' cs out rest)"
  "accepts_from version_major r bs out rest \<longleftrightarrow>
     (\<exists>u cs r'. bs = u @ CHR ''.'' # cs \<and> CHR ''.'' \<notin> set u
        \<and> scan_all (step_with set_major (\<lambda>c. is_digit (int_of_char c))) u r = Some r' \<and> accepts_from version_minor_start r' cs out rest)"
  "accepts_from version_minor r bs out rest \<longleftrightarrow>
     (\<exists>u cs r'. bs = u @ cr # cs \<and> cr \<notin> set u
        \<and> scan_all (step_with set_minor (\<lambda>c. is_digit (int_of_char c))) u r = Some r' \<and> accepts_from expecting_newline_1 r' cs out rest)"
  "accepts_from header_name r bs out rest \<longleftrightarrow>
     (\<exists>u cs r'. bs = u @ CHR '':'' # cs \<and> CHR '':'' \<notin> set u
        \<and> scan_all (step_with (\<lambda>r c. upd_back (push_name c) r) token_char) u r = Some r' \<and> accepts_from space_before_header_value r' cs out rest)"
  "accepts_from header_value r bs out rest \<longleftrightarrow>
     (\<exists>u cs r'. bs = u @ cr # cs \<and> cr \<notin> set u
        \<and> scan_all (step_with (\<lambda>r c. upd_back (push_value c) r) text_char) u r = Some r' \<and> accepts_from expecting_newline_2 r' cs out rest)"
  by (rule scan_until; simp add: step_with_def parse_goes_with split: sum.split)+

lemma step_with_ok: "step_with (\<lambda>r c. ok (g r c)) P r c = (if P c then Some (g r c) else None)"
  by (simp add: step_with_def)

text \<open>The loops over the method and the URI.\<close>

lemma scan_method:
  "scan_all (step_with (\<lambda>r c. ok (r\<lparr>rq_method := rq_method r @ [c]\<rparr>)) P) u r
     = (if list_all P u then Some (r\<lparr>rq_method := rq_method r @ u\<rparr>) else None)"
  by (induction u arbitrary: r) (auto simp: step_with_ok)

lemma scan_uri:
  "scan_all (step_with (\<lambda>r c. ok (r\<lparr>rq_uri := rq_uri r @ [c]\<rparr>)) P) u r
     = (if list_all P u then Some (r\<lparr>rq_uri := rq_uri r @ u\<rparr>) else None)"
  by (induction u arbitrary: r) (auto simp: step_with_ok)

text \<open>The loops over header names and values.\<close>

lemma scan_name:
  "scan_all (step_with (\<lambda>r c. upd_back (push_name c) r) P) u (r\<lparr>rq_headers := hs @ [h]\<rparr>)
     = (if list_all P u then Some (r\<lparr>rq_headers := hs @ [h\<lparr>h_name := h_name h @ u\<rparr>]\<rparr>) else None)"
  by (induction u arbitrary: h) (auto simp: step_with_def upd_back_def push_name_def)

lemma scan_value:
  "scan_all (step_with (\<lambda>r c. upd_back (push_value c) r) P) u (r\<lparr>rq_headers := hs @ [h]\<rparr>)
     = (if list_all P u then Some (r\<lparr>rq_headers := hs @ [h\<lparr>h_value := h_value h @ u\<rparr>]\<rparr>) else None)"
  by (induction u arbitrary: h) (auto simp: step_with_def upd_back_def push_value_def)

text \<open>The loops over the digits of a version number.\<close>

definition shift_in :: "int \<Rightarrow> char \<Rightarrow> int" where
  "shift_in v c = v * 10 + (int_of_char c - 48)"

definition digits :: "string \<Rightarrow> bool" where
  "digits u \<longleftrightarrow> list_all (\<lambda>c. is_digit (int_of_char c)) u"

lemma digit_range: "is_digit (int_of_char c) \<Longrightarrow> 48 \<le> int_of_char c \<and> int_of_char c \<le> 57"
  by (simp add: is_digit_def int_of_char_def split: if_splits)

lemma shift_in_mono: "0 \<le> v \<Longrightarrow> is_digit (int_of_char c) \<Longrightarrow> v \<le> shift_in v c"
  using digit_range[of c] by (simp add: shift_in_def)

lemma shift_all_mono: "0 \<le> v \<Longrightarrow> digits u \<Longrightarrow> v \<le> foldl shift_in v u"
proof (induction u arbitrary: v)
  case (Cons c u)
  have "v \<le> shift_in v c" using Cons.prems by (simp add: digits_def shift_in_mono)
  also have "\<dots> \<le> foldl shift_in (shift_in v c) u"
    using Cons.prems shift_in_mono[of v c] by (intro Cons.IH) (simp_all add: digits_def)
  finally show ?case by simp
qed simp

lemma add_digit_eq:
  assumes "0 \<le> v" and "is_digit (int_of_char c)"
  shows "add_digit v c = (if shift_in v c + 48 \<le> int_max then ok (shift_in v c) else Inl (Undefined ''signed overflow''))"
proof -
  have "int_of_char (CHR ''0'') = 48" by (simp add: int_of_char_def)
  then show ?thesis using digit_range[OF assms(2)] assms(1) by (simp add: add_digit_def shift_in_def)
qed

lemma scan_number:
  assumes "\<And>r c. f r c = map_sum (\<lambda>e. e) (put r) (add_digit (get r) c)"
    and "\<And>r v. get (put r v) = v" and "\<And>r v w. put (put r v) w = put r w"
    and "0 \<le> v" and "v + 48 \<le> int_max"
  shows "scan_all (step_with f (\<lambda>c. is_digit (int_of_char c))) u (put r v)
     = (if digits u \<and> foldl shift_in v u + 48 \<le> int_max then Some (put r (foldl shift_in v u)) else None)"
  using assms(4,5)
proof (induction u arbitrary: v)
  case (Cons c u)
  show ?case
  proof (cases "is_digit (int_of_char c)")
    case True
    have m: "v \<le> shift_in v c" using Cons.prems True by (simp add: shift_in_mono)
    show ?thesis
    proof (cases "shift_in v c + 48 \<le> int_max")
      case fits: True
      then have "step_with f (\<lambda>c. is_digit (int_of_char c)) (put r v) c = Some (put r (shift_in v c))"
        using True Cons.prems by (simp add: step_with_def assms(1,2,3) add_digit_eq)
      then show ?thesis using Cons.IH[of "shift_in v c"] m Cons.prems fits True by (simp add: digits_def)
    next
      case False
      then have "step_with f (\<lambda>c. is_digit (int_of_char c)) (put r v) c = None"
        using True Cons.prems by (simp add: step_with_def assms(1,2) add_digit_eq)
      moreover have "digits u \<Longrightarrow> shift_in v c \<le> foldl shift_in (shift_in v c) u"
        using m Cons.prems by (intro shift_all_mono) simp_all
      ultimately show ?thesis using False by (auto simp: digits_def)
    qed
  next
    case False
    then show ?thesis by (simp add: step_with_def digits_def)
  qed
qed (simp add: digits_def)

lemmas scan_major = scan_number[where f = set_major and put = "\<lambda>r v. r\<lparr>http_version_major := v\<rparr>" and get = http_version_major, OF set_major_def]
lemmas scan_minor = scan_number[where f = set_minor and put = "\<lambda>r v. r\<lparr>http_version_minor := v\<rparr>" and get = http_version_minor, OF set_minor_def]

lemma decimal_shift: "decimal u = foldl shift_in 0 u"
  by (simp add: decimal_def shift_in_def[abs_def])

lemma number_ok_Cons:
  "number_ok (c # u) \<longleftrightarrow> is_digit (int_of_char c) \<and> digits u \<and> foldl shift_in (shift_in 0 c) u + 48 \<le> int_max"
  by (auto simp: number_ok_def digits_def decimal_shift)

lemma first_digit: "is_digit (int_of_char c) \<Longrightarrow> 0 \<le> shift_in 0 c \<and> shift_in 0 c + 48 \<le> int_max"
  using digit_range[of c] by (simp add: shift_in_def int_max_def)

text \<open>A version number is accepted exactly when its digits fit.\<close>

lemma accepts_number:
  assumes start: "\<And>bs. accepts_from st0 (put r 0) bs out rest \<longleftrightarrow>
      (\<exists>c cs r'. bs = c # cs \<and> is_digit (int_of_char c) \<and> f (put r 0) c = Inr r' \<and> accepts_from st r' cs out rest)"
    and loop: "\<And>r bs. accepts_from st r bs out rest \<longleftrightarrow>
      (\<exists>u cs r'. bs = u @ t # cs \<and> t \<notin> set u \<and> scan_all (step_with f (\<lambda>c. is_digit (int_of_char c))) u r = Some r' \<and> accepts_from st1 r' cs out rest)"
    and f: "\<And>r c. f r c = map_sum (\<lambda>e. e) (put r) (add_digit (get r) c)"
    and g: "\<And>r v. get (put r v) = v" and p: "\<And>r v w. put (put r v) w = put r w"
    and t: "\<not> is_digit (int_of_char t)"
  shows "accepts_from st0 (put r 0) bs out rest \<longleftrightarrow>
    (\<exists>ds cs. bs = ds @ t # cs \<and> number_ok ds \<and> accepts_from st1 (put r (decimal ds)) cs out rest)"
proof -
  have one: "f (put r 0) c = Inr r' \<longleftrightarrow> r' = put r (shift_in 0 c)" if "is_digit (int_of_char c)" for c r'
    using that first_digit[OF that] by (auto simp: f g p add_digit_eq)
  have "t \<notin> set u" if "digits u" for u using that t by (auto simp: digits_def list_all_iff)
  then have rest: "accepts_from st (put r (shift_in 0 c)) cs out rest \<longleftrightarrow>
      (\<exists>u cs'. cs = u @ t # cs' \<and> number_ok (c # u) \<and> accepts_from st1 (put r (decimal (c # u))) cs' out rest)"
    if "is_digit (int_of_char c)" for c cs
    using first_digit[OF that] that
    by (auto simp: loop scan_number[where f = f and get = get and put = put, OF f g p] number_ok_Cons decimal_shift split: if_splits)
  have "accepts_from st0 (put r 0) bs out rest \<longleftrightarrow>
    (\<exists>c u cs. bs = (c # u) @ t # cs \<and> number_ok (c # u) \<and> accepts_from st1 (put r (decimal (c # u))) cs out rest)"
    by (auto simp: start one rest number_ok_Cons; blast)
  also have "\<dots> \<longleftrightarrow> (\<exists>ds cs. bs = ds @ t # cs \<and> number_ok ds \<and> accepts_from st1 (put r (decimal ds)) cs out rest)"
    by (metis number_ok_def list.exhaust)
  finally show ?thesis .
qed

text \<open>The characters that end a loop are not taken by it.\<close>

lemma delimiters:
  "is_ctl (int_of_char cr)" "\<not> token_char (CHR '' '')" "\<not> token_char (CHR '':'')" "\<not> token_char cr" "\<not> token_char tab"
  "text_char (CHR '' '')" "is_ctl (int_of_char tab)"
  "\<not> is_digit (int_of_char (CHR ''.''))" "\<not> is_digit (int_of_char cr)"
  by (simp_all add: token_char_def is_tspecial_def tspecials_def is_ctl_def is_char_def is_digit_def int_of_char_def)

lemma not_in_run: "list_all P u \<Longrightarrow> \<not> P c \<Longrightarrow> c \<notin> set u"
  by (auto simp: list_all_iff)

lemma if_Some_iff: "(if P then Some x else None) = Some y \<longleftrightarrow> P \<and> y = x"
  by auto

lemma ex_list_split:
  assumes "\<And>ws. P ws \<Longrightarrow> ws = [] \<or> (\<exists>vs. ws = c # vs)"
  shows "(\<exists>ws. P ws) \<longleftrightarrow> P [] \<or> (\<exists>ws. P (c # ws))"
  using assms by blast

text \<open>The lines of the header section.\<close>

lemma accepts_value:
  "accepts_from header_value (r\<lparr>rq_headers := hs @ [h]\<rparr>) bs out rest \<longleftrightarrow>
     (\<exists>v cs. bs = v @ crlf @ cs \<and> list_all text_char v
        \<and> accepts_from header_line_start (r\<lparr>rq_headers := hs @ [h\<lparr>h_value := h_value h @ v\<rparr>]\<rparr>) cs out rest)"
proof -
  have "cr \<notin> set v" if "list_all text_char v" for v using that delimiters(1) by (auto simp: list_all_iff)
  then show ?thesis by (auto simp: accepts_loop(6) accepts_char(7) scan_value crlf_def split: if_splits)
qed

lemma accepts_name:
  "accepts_from header_name (r\<lparr>rq_headers := hs @ [h]\<rparr>) bs out rest \<longleftrightarrow>
     (\<exists>n v cs. bs = n @ '': '' @ v @ crlf @ cs \<and> list_all token_char n \<and> list_all text_char v
        \<and> accepts_from header_line_start (r\<lparr>rq_headers := hs @ [h\<lparr>h_name := h_name h @ n, h_value := h_value h @ v\<rparr>]\<rparr>) cs out rest)"
proof -
  have "CHR '':'' \<notin> set n" if "list_all token_char n" for n using that delimiters(3) by (rule not_in_run)
  then show ?thesis unfolding accepts_loop(5) accepts_char(9) scan_name if_Some_iff by (auto simp: accepts_value; blast)
qed

lemma accepts_lws:
  "accepts_from header_lws (r\<lparr>rq_headers := hs @ [h]\<rparr>) bs out rest \<longleftrightarrow>
     (\<exists>ws t cs. bs = ws @ t @ crlf @ cs \<and> list_all blank ws \<and> list_all text_char t \<and> (t \<noteq> [] \<longrightarrow> \<not> blank (hd t))
        \<and> accepts_from header_line_start (r\<lparr>rq_headers := hs @ [h\<lparr>h_value := h_value h @ t\<rparr>]\<rparr>) cs out rest)"
    (is "?A bs \<longleftrightarrow> (\<exists>ws t cs. ?R bs ws t cs)")
proof (induction bs)
  case Nil
  then show ?case by (simp add: crlf_def)
next
  case (Cons c bs)
  let ?r = "r\<lparr>rq_headers := hs @ [h]\<rparr>"
  have split: "(\<exists>ws t cs. ?R (c # bs) ws t cs) \<longleftrightarrow> (\<exists>t cs. ?R (c # bs) [] t cs) \<or> (\<exists>ws t cs. ?R (c # bs) (c # ws) t cs)"
  proof (rule ex_list_split)
    fix ws assume "\<exists>t cs. ?R (c # bs) ws t cs"
    then show "ws = [] \<or> (\<exists>vs. ws = c # vs)" by (cases ws) auto
  qed
  consider "c = cr" | "blank c" | "c \<noteq> cr" "\<not> blank c" "is_ctl (int_of_char c)" | "c \<noteq> cr" "\<not> blank c" "text_char c" by blast
  then show ?case
  proof cases
    case 1
    have e1: "?R (c # bs) [] t cs \<longleftrightarrow> t = [] \<and> bs = lf # cs \<and> accepts_from header_line_start ?r cs out rest" for t cs
      using 1 delimiters(1) by (cases t) (auto simp: crlf_def)
    have e2: "\<not> ?R (c # bs) (c # ws) t cs" for ws t cs using 1 by simp
    have e3: "?A (c # bs) \<longleftrightarrow> (\<exists>cs. bs = lf # cs \<and> accepts_from header_line_start ?r cs out rest)"
      using 1 by (simp add: accepts_char(7))
    show ?thesis by (simp only: split e1 e2 e3) simp
  next
    case 2
    have e1: "\<not> ?R (c # bs) [] t cs" for t cs using 2 by (cases t) (auto simp: crlf_def)
    have e2: "?A (c # bs) \<longleftrightarrow> (\<exists>ws t cs. ?R bs ws t cs)" using 2 Cons.IH by auto
    have e3: "?R (c # bs) (c # ws) t cs \<longleftrightarrow> ?R bs ws t cs" for ws t cs using 2 by simp
    show ?thesis by (simp only: split e1 e2 e3) simp
  next
    case 3
    have e1: "\<not> ?R (c # bs) [] t cs" for t cs using 3 by (cases t) (auto simp: crlf_def)
    have e2: "\<not> ?R (c # bs) (c # ws) t cs" for ws t cs using 3 by simp
    have e3: "\<not> ?A (c # bs)" using 3 by simp
    show ?thesis by (simp only: split e1 e2 e3) simp
  next
    case 4
    have e1: "?R (c # bs) [] t cs \<longleftrightarrow> (\<exists>v. t = c # v \<and> bs = v @ crlf @ cs \<and> list_all text_char v
        \<and> accepts_from header_line_start (r\<lparr>rq_headers := hs @ [h\<lparr>h_value := h_value h @ c # v\<rparr>]\<rparr>) cs out rest)" for t cs
      using 4 by (cases t) (auto simp: crlf_def)
    have e2: "\<not> ?R (c # bs) (c # ws) t cs" for ws t cs using 4 by simp
    have e3: "?A (c # bs) \<longleftrightarrow> (\<exists>cs v. bs = v @ crlf @ cs \<and> list_all text_char v
        \<and> accepts_from header_line_start (r\<lparr>rq_headers := hs @ [h\<lparr>h_value := h_value h @ c # v\<rparr>]\<rparr>) cs out rest)"
      using 4 by (simp add: goes_with_def upd_back_def push_value_def accepts_value; blast)
    show ?thesis by (simp only: split e1 e2 e3) simp
  qed
qed

text \<open>One line of the header section: complete and sound.\<close>

lemma start_name:
  assumes "token_char c"
  shows "accepts_from header_line_start r (c # bs) out rest
    \<longleftrightarrow> accepts_from header_name (r\<lparr>rq_headers := rq_headers r @ [\<lparr>h_name = [c], h_value = []\<rparr>]\<rparr>) bs out rest"
proof -
  have "c \<noteq> cr" "\<not> blank c" using assms delimiters by auto
  then show ?thesis using assms by (simp add: goes_with_def upd_back_def push_name_def)
qed

lemma start_lws:
  assumes "blank c" and "rq_headers r \<noteq> []"
  shows "accepts_from header_line_start r (c # bs) out rest
    \<longleftrightarrow> accepts_from header_lws (r\<lparr>rq_headers := butlast (rq_headers r) @ [last (rq_headers r)]\<rparr>) bs out rest"
  using assms by auto

lemma line_complete:
  assumes "line_ok l" and "rq_headers r = [] \<Longrightarrow> \<not> is_folded l"
    and "accepts_from header_line_start (r\<lparr>rq_headers := add_line (rq_headers r) l\<rparr>) cs out rest"
  shows "accepts_from header_line_start r (line_bytes l @ cs) out rest"
proof (cases l)
  case (Field n v)
  then obtain c m where n: "n = c # m" "token_char c" "list_all token_char m" "list_all text_char v" using assms(1) by (cases n) auto
  have "accepts_from header_name (r\<lparr>rq_headers := rq_headers r @ [\<lparr>h_name = [c], h_value = []\<rparr>]\<rparr>) (m @ '': '' @ v @ crlf @ cs) out rest"
    unfolding accepts_name using n assms(3) Field by (intro exI[of _ m] exI[of _ v] exI[of _ cs]) simp
  then show ?thesis using start_name[OF n(2)] Field n by simp
next
  case (Folded ws t)
  then obtain c m where w: "ws = c # m" "blank c" "list_all blank m" "list_all text_char t" "t \<noteq> [] \<longrightarrow> \<not> blank (hd t)"
    using assms(1) by (cases ws) auto
  have h: "rq_headers r \<noteq> []" using assms(2) Folded by auto
  have "accepts_from header_lws (r\<lparr>rq_headers := butlast (rq_headers r) @ [last (rq_headers r)]\<rparr>) (m @ t @ crlf @ cs) out rest"
    unfolding accepts_lws using w assms(3) Folded by (intro exI[of _ m] exI[of _ t] exI[of _ cs]) simp
  then show ?thesis using start_lws[OF w(2) h] Folded w(1) by simp
qed

lemma line_sound:
  assumes "accepts_from header_line_start r bs out rest"
  shows "(bs = crlf @ rest \<and> out = r)
     \<or> (\<exists>l cs. bs = line_bytes l @ cs \<and> line_ok l \<and> (rq_headers r = [] \<longrightarrow> \<not> is_folded l)
          \<and> accepts_from header_line_start (r\<lparr>rq_headers := add_line (rq_headers r) l\<rparr>) cs out rest)"
proof (cases bs)
  case Nil
  then show ?thesis using assms by simp
next
  case (Cons c bs')
  consider "c = cr" | "c \<noteq> cr" "rq_headers r \<noteq> [] \<and> blank c" | "c \<noteq> cr" "\<not> (rq_headers r \<noteq> [] \<and> blank c)" "token_char c"
    using assms Cons by (auto split: if_splits)
  then show ?thesis
  proof cases
    case 1
    then show ?thesis using assms Cons by (simp add: accepts_char(8) crlf_def)
  next
    case 2
    then have "accepts_from header_lws (r\<lparr>rq_headers := butlast (rq_headers r) @ [last (rq_headers r)]\<rparr>) bs' out rest"
      using start_lws[of c r bs'] assms Cons by simp
    then obtain ws t cs where w: "bs' = ws @ t @ crlf @ cs" "list_all blank ws" "list_all text_char t" "t \<noteq> [] \<longrightarrow> \<not> blank (hd t)"
      and a: "accepts_from header_line_start (r\<lparr>rq_headers := butlast (rq_headers r) @ [(last (rq_headers r))\<lparr>h_value := h_value (last (rq_headers r)) @ t\<rparr>]\<rparr>) cs out rest"
      unfolding accepts_lws by blast
    have "bs = line_bytes (Folded (c # ws) t) @ cs \<and> line_ok (Folded (c # ws) t)" using w 2 Cons by simp
    then show ?thesis using 2 a by (intro disjI2 exI[of _ "Folded (c # ws) t"] exI[of _ cs]) simp
  next
    case 3
    then have "accepts_from header_name (r\<lparr>rq_headers := rq_headers r @ [\<lparr>h_name = [c], h_value = []\<rparr>]\<rparr>) bs' out rest"
      using start_name[of c r bs'] assms Cons by simp
    then obtain n v cs where w: "bs' = n @ '': '' @ v @ crlf @ cs" "list_all token_char n" "list_all text_char v"
      and a: "accepts_from header_line_start (r\<lparr>rq_headers := rq_headers r @ [\<lparr>h_name = c # n, h_value = v\<rparr>]\<rparr>) cs out rest"
      unfolding accepts_name by auto
    have "bs = line_bytes (Field (c # n) v) @ cs \<and> line_ok (Field (c # n) v)" using w 3 Cons by simp
    then show ?thesis using a by (intro disjI2 exI[of _ "Field (c # n) v"] exI[of _ cs]) simp
  qed
qed

lemma lines_complete:
  assumes "list_all line_ok ls" and "ls \<noteq> [] \<and> rq_headers r = [] \<Longrightarrow> \<not> is_folded (hd ls)"
  shows "accepts_from header_line_start r (concat (map line_bytes ls) @ crlf @ rest) (r\<lparr>rq_headers := foldl add_line (rq_headers r) ls\<rparr>) rest"
  using assms
proof (induction ls arbitrary: r)
  case Nil
  then show ?case by (simp add: crlf_def)
next
  case (Cons l ls)
  have "add_line (rq_headers r) l \<noteq> []" by (cases l) simp_all
  then have "accepts_from header_line_start (r\<lparr>rq_headers := add_line (rq_headers r) l\<rparr>) (concat (map line_bytes ls) @ crlf @ rest)
      (r\<lparr>rq_headers := foldl add_line (rq_headers r) (l # ls)\<rparr>) rest"
    using Cons.IH[of "r\<lparr>rq_headers := add_line (rq_headers r) l\<rparr>"] Cons.prems by simp
  then show ?case using line_complete[of l r] Cons.prems by simp
qed

lemma lines_sound:
  assumes "accepts_from header_line_start r bs out rest"
  shows "\<exists>ls. bs = concat (map line_bytes ls) @ crlf @ rest \<and> list_all line_ok ls \<and> (ls \<noteq> [] \<and> rq_headers r = [] \<longrightarrow> \<not> is_folded (hd ls))
    \<and> out = r\<lparr>rq_headers := foldl add_line (rq_headers r) ls\<rparr>"
  using assms
proof (induction bs arbitrary: r rule: length_induct)
  case (1 bs)
  from line_sound[OF 1(2)] show ?case
  proof (elim disjE exE conjE)
    assume "bs = crlf @ rest" "out = r"
    then show ?thesis by (intro exI[of _ "[]"]) simp
  next
    fix l cs assume l: "bs = line_bytes l @ cs" "line_ok l" "rq_headers r = [] \<longrightarrow> \<not> is_folded l"
      and a: "accepts_from header_line_start (r\<lparr>rq_headers := add_line (rq_headers r) l\<rparr>) cs out rest"
    have "length cs < length bs" using l(1) by (cases l) (simp_all add: crlf_def)
    then obtain ls where ls: "cs = concat (map line_bytes ls) @ crlf @ rest" "list_all line_ok ls"
      "out = r\<lparr>rq_headers := foldl add_line (add_line (rq_headers r) l) ls\<rparr>"
      using 1(1)[rule_format, OF _ a] by auto
    then show ?thesis using l by (intro exI[of _ "l # ls"]) simp
  qed
qed

text \<open>The request line.\<close>

lemma accepts_method:
  "accepts_from method_start r bs out rest \<longleftrightarrow>
     (\<exists>m cs. bs = m @ '' '' @ cs \<and> m \<noteq> [] \<and> list_all token_char m \<and> accepts_from uri (r\<lparr>rq_method := rq_method r @ m\<rparr>) cs out rest)"
    (is "?A \<longleftrightarrow> (\<exists>m cs. ?M m cs)")
proof -
  have "CHR '' '' \<notin> set m" if "list_all token_char m" for m using that delimiters(2) by (rule not_in_run)
  then have "accepts_from method_rest (r\<lparr>rq_method := rq_method r @ [c]\<rparr>) bs' out rest \<longleftrightarrow>
      (\<exists>u cs. bs' = u @ '' '' @ cs \<and> list_all token_char u \<and> accepts_from uri (r\<lparr>rq_method := rq_method r @ c # u\<rparr>) cs out rest)" for c bs'
    unfolding accepts_loop(1) scan_method if_Some_iff by auto
  then have "?A \<longleftrightarrow> (\<exists>c u cs. ?M (c # u) cs)" by (cases bs) auto
  also have "\<dots> \<longleftrightarrow> (\<exists>m cs. ?M m cs)"
  proof -
    have "\<exists>c u. m = c # u" if "?M m cs" for m cs using that by (cases m) auto
    then show ?thesis by blast
  qed
  finally show ?thesis .
qed

lemma accepts_http:
  "accepts_from http_version_h r bs out rest \<longleftrightarrow> (\<exists>cs. bs = ''HTTP/'' @ cs
     \<and> accepts_from version_major_start (r\<lparr>http_version_major := 0, http_version_minor := 0\<rparr>) cs out rest)"
  by (auto simp: accepts_char)

lemma accepts_uri:
  "accepts_from uri r bs out rest \<longleftrightarrow>
     (\<exists>u cs. bs = u @ '' HTTP/'' @ cs \<and> list_all (\<lambda>c. text_char c \<and> c \<noteq> CHR '' '') u
        \<and> accepts_from version_major_start (r\<lparr>rq_uri := rq_uri r @ u, http_version_major := 0, http_version_minor := 0\<rparr>) cs out rest)"
proof -
  have e: "CHR '' '' \<notin> set u \<and> (list_all text_char u \<and> x) \<and> y \<longleftrightarrow> list_all (\<lambda>c. text_char c \<and> c \<noteq> CHR '' '') u \<and> x \<and> y" for u x y
    by (auto simp: list_all_iff)
  show ?thesis unfolding accepts_loop(2) scan_uri if_Some_iff e accepts_http by auto
qed

lemma accepts_minor:
  "accepts_from version_minor_start (r\<lparr>http_version_minor := 0\<rparr>) bs out rest \<longleftrightarrow>
     (\<exists>ds cs. bs = ds @ cr # cs \<and> number_ok ds \<and> accepts_from expecting_newline_1 (r\<lparr>http_version_minor := decimal ds\<rparr>) cs out rest)"
proof (rule accepts_number[where f = set_minor and st = version_minor and get = http_version_minor])
  fix bs
  show "accepts_from version_minor_start (r\<lparr>http_version_minor := 0\<rparr>) bs out rest \<longleftrightarrow>
      (\<exists>c cs r'. bs = c # cs \<and> is_digit (int_of_char c) \<and> set_minor (r\<lparr>http_version_minor := 0\<rparr>) c = Inr r' \<and> accepts_from version_minor r' cs out rest)"
    by (cases bs) (auto simp: parse_goes_with)
qed (simp_all add: accepts_loop(4) set_minor_def delimiters)

lemma accepts_major:
  "accepts_from version_major_start (r\<lparr>http_version_major := 0\<rparr>) bs out rest \<longleftrightarrow>
     (\<exists>ds cs. bs = ds @ CHR ''.'' # cs \<and> number_ok ds \<and> accepts_from version_minor_start (r\<lparr>http_version_major := decimal ds\<rparr>) cs out rest)"
proof (rule accepts_number[where f = set_major and st = version_major and get = http_version_major])
  fix bs
  show "accepts_from version_major_start (r\<lparr>http_version_major := 0\<rparr>) bs out rest \<longleftrightarrow>
      (\<exists>c cs r'. bs = c # cs \<and> is_digit (int_of_char c) \<and> set_major (r\<lparr>http_version_major := 0\<rparr>) c = Inr r' \<and> accepts_from version_major r' cs out rest)"
    by (cases bs) (auto simp: parse_goes_with)
qed (simp_all add: accepts_loop(3) set_major_def delimiters)

lemma accepts_version:
  "accepts_from version_major_start (r\<lparr>http_version_major := 0, http_version_minor := 0\<rparr>) bs out rest \<longleftrightarrow>
     (\<exists>a b cs. bs = a @ ''.'' @ b @ crlf @ cs \<and> number_ok a \<and> number_ok b
        \<and> accepts_from header_line_start (r\<lparr>http_version_major := decimal a, http_version_minor := decimal b\<rparr>) cs out rest)"
proof -
  have swap: "r\<lparr>http_version_minor := 0, http_version_major := v\<rparr> = r\<lparr>http_version_major := v, http_version_minor := 0\<rparr>" for v
    by simp
  have minor: "accepts_from version_minor_start (r\<lparr>http_version_major := v, http_version_minor := 0\<rparr>) cs out rest \<longleftrightarrow>
      (\<exists>b cs'. cs = b @ crlf @ cs' \<and> number_ok b \<and> accepts_from header_line_start (r\<lparr>http_version_major := v, http_version_minor := decimal b\<rparr>) cs' out rest)" for v cs
    using accepts_minor[of "r\<lparr>http_version_major := v\<rparr>" cs out rest] by (auto simp: accepts_char(6) crlf_def)
  have "accepts_from version_major_start (r\<lparr>http_version_major := 0, http_version_minor := 0\<rparr>) bs out rest \<longleftrightarrow>
      (\<exists>a cs. bs = a @ CHR ''.'' # cs \<and> number_ok a \<and> accepts_from version_minor_start (r\<lparr>http_version_major := decimal a, http_version_minor := 0\<rparr>) cs out rest)"
    using accepts_major[of "r\<lparr>http_version_minor := 0\<rparr>" bs out rest] by (simp only: swap)
  then show ?thesis unfolding minor by auto
qed

lemma request_complete:
  assumes "raw_ok r"
  shows "accepts_from method_start request_new (raw_bytes r @ rest) (raw_meaning r) rest"
proof -
  let ?q = "\<lparr>rq_method = raw_method r, rq_uri = raw_uri r, http_version_major = decimal (raw_major r),
      http_version_minor = decimal (raw_minor r), rq_headers = []\<rparr>"
  let ?lines = "concat (map line_bytes (raw_lines r)) @ crlf @ rest"
  let ?version = "raw_major r @ ''.'' @ raw_minor r @ crlf @ ?lines"
  have "accepts_from header_line_start ?q ?lines (raw_meaning r) rest"
    using lines_complete[of "raw_lines r" ?q rest] assms by (simp add: raw_ok_def raw_meaning_def)
  then have "accepts_from version_major_start (?q\<lparr>http_version_major := 0, http_version_minor := 0\<rparr>) ?version (raw_meaning r) rest"
    unfolding accepts_version using assms
    by (intro exI[of _ "raw_major r"] exI[of _ "raw_minor r"] exI[of _ ?lines]) (simp add: raw_ok_def)
  then have "accepts_from uri (request_new\<lparr>rq_method := raw_method r\<rparr>) (raw_uri r @ '' HTTP/'' @ ?version) (raw_meaning r) rest"
    unfolding accepts_uri using assms
    by (intro exI[of _ "raw_uri r"] exI[of _ ?version]) (simp add: raw_ok_def request_new_def)
  then have "accepts_from method_start request_new (raw_method r @ '' '' @ raw_uri r @ '' HTTP/'' @ ?version) (raw_meaning r) rest"
    unfolding accepts_method using assms
    by (intro exI[of _ "raw_method r"] exI[of _ "raw_uri r @ '' HTTP/'' @ ?version"]) (simp add: raw_ok_def request_new_def)
  then show ?thesis by (simp add: raw_bytes_def)
qed

lemma good_state: "parse st r bs = ok (good, st', out, rest) \<Longrightarrow> st' = expecting_newline_3"
proof (induction st r bs rule: parse.induct)
  case (2 st r c cs)
  then show ?case
    by (cases st) (auto simp: goes_with_def split: if_splits sum.splits)
qed simp

text \<open>
  Input that arrives in pieces: an unfinished parse is continued with the next piece, a finished one
  leaves the next piece unread.
\<close>

lemma parse_append:
  "parse st r (xs @ ys) = (case parse st r xs of Inl e \<Rightarrow> Inl e
     | Inr (q, st', r', rest) \<Rightarrow> if q = indeterminate then parse st' r' ys else ok (q, st', r', rest @ ys))"
proof (induction st r xs rule: parse.induct)
  case (2 st r c cs)
  show ?case
  proof (cases "consume st r c")
    case (Inr p)
    obtain q st' r' where "p = (q, st', r')" by (cases p)
    then show ?thesis using Inr 2 by (cases q) simp_all
  qed simp
qed simp

lemma parse_indeterminate_rest: "parse st r bs = ok (indeterminate, st', r', rest) \<Longrightarrow> rest = []"
proof (induction st r bs rule: parse.induct)
  case (2 st r c cs)
  then show ?case by (auto split: sum.splits if_splits)
qed simp

text \<open>A proper prefix of an accepted text is not decided yet.\<close>

lemma parse_prefix:
  assumes "parse st r (xs @ ys) = ok (good, st', out, [])" and "ys \<noteq> []"
  shows "\<exists>st1 r1. parse st r xs = ok (indeterminate, st1, r1, []) \<and> parse st1 r1 ys = ok (good, st', out, [])"
proof (cases "parse st r xs")
  case (Inl e)
  then show ?thesis using assms by (simp add: parse_append)
next
  case (Inr p)
  obtain q st1 r1 rest where p: "p = (q, st1, r1, rest)" by (cases p)
  have "q = indeterminate" using assms Inr p by (auto simp: parse_append split: if_splits)
  then show ?thesis using assms Inr p parse_indeterminate_rest[of st r xs st1 r1 rest] by (auto simp: parse_append)
qed

text \<open>
  C16.  The parser accepts exactly the requests of the grammar: it answers \<open>good\<close> if and only if the bytes
  read so far are the text of a well-formed request, with field and continuation lines and version
  numbers that fit an \<open>int\<close>; it then has consumed that text and nothing after it, and the request it has
  filled in is the meaning of the text.
\<close>

theorem http_request_language:
  "parse request_parser_new request_new bs = ok (good, st, out, rest) \<longleftrightarrow>
     st = expecting_newline_3 \<and> (\<exists>r. raw_ok r \<and> bs = raw_bytes r @ rest \<and> out = raw_meaning r)"
proof
  assume "parse request_parser_new request_new bs = ok (good, st, out, rest)"
  moreover from this have "st = expecting_newline_3" by (rule good_state)
  ultimately have p: "accepts_from method_start request_new bs out rest" by (simp add: request_parser_new_def)
  then obtain m c1 where m: "bs = m @ '' '' @ c1" "m \<noteq> []" "list_all token_char m"
    and p1: "accepts_from uri (request_new\<lparr>rq_method := m\<rparr>) c1 out rest"
    unfolding accepts_method by (auto simp: request_new_def)
  from p1 obtain u c2 where u: "c1 = u @ '' HTTP/'' @ c2" "list_all (\<lambda>c. text_char c \<and> c \<noteq> CHR '' '') u"
    and p2: "accepts_from version_major_start (request_new\<lparr>rq_method := m, rq_uri := u, http_version_major := 0, http_version_minor := 0\<rparr>) c2 out rest"
    unfolding accepts_uri by (auto simp: request_new_def)
  from p2 obtain a b c3 where v: "c2 = a @ ''.'' @ b @ crlf @ c3" "number_ok a" "number_ok b"
    and p3: "accepts_from header_line_start (request_new\<lparr>rq_method := m, rq_uri := u, http_version_major := decimal a, http_version_minor := decimal b\<rparr>) c3 out rest"
    unfolding accepts_version by blast
  from lines_sound[OF p3] obtain ls where l: "c3 = concat (map line_bytes ls) @ crlf @ rest" "list_all line_ok ls" "ls \<noteq> [] \<longrightarrow> \<not> is_folded (hd ls)"
    "out = \<lparr>rq_method = m, rq_uri = u, http_version_major = decimal a, http_version_minor = decimal b, rq_headers = foldl add_line [] ls\<rparr>"
    by (auto simp: request_new_def)
  let ?r = "\<lparr>raw_method = m, raw_uri = u, raw_major = a, raw_minor = b, raw_lines = ls\<rparr>"
  have "raw_ok ?r \<and> bs = raw_bytes ?r @ rest \<and> out = raw_meaning ?r" using m u v l by (simp add: raw_ok_def raw_bytes_def raw_meaning_def)
  then show "st = expecting_newline_3 \<and> (\<exists>r. raw_ok r \<and> bs = raw_bytes r @ rest \<and> out = raw_meaning r)"
    using \<open>st = expecting_newline_3\<close> by blast
next
  assume "st = expecting_newline_3 \<and> (\<exists>r. raw_ok r \<and> bs = raw_bytes r @ rest \<and> out = raw_meaning r)"
  then show "parse request_parser_new request_new bs = ok (good, st, out, rest)" using request_complete by (auto simp: request_parser_new_def)
qed

text \<open>A version number from the network can overflow.\<close>

lemma version_overflow: "parse request_parser_new request_new ''G / HTTP/9999999999'' = Inl (Undefined ''signed overflow'')"
proof -
  let ?r = "request_new\<lparr>rq_method := ''G'', rq_uri := ''/'', http_version_major := 0, http_version_minor := 0\<rparr>"
  have t: "token_char (CHR ''G'')" "\<not> token_char (CHR '' '')" "text_char (CHR ''/'')" "is_digit (int_of_char (CHR ''9''))"
    by (simp_all add: token_char_def is_tspecial_def tspecials_def is_ctl_def is_char_def is_digit_def int_of_char_def)
  have "parse version_major_start ?r ''9999999999'' = Inl (Undefined ''signed overflow'')"
    using t(4) by (simp add: goes_with_def set_major_def add_digit_def int_of_char_def int_max_def)
  then show ?thesis using t by (simp add: request_parser_new_def request_new_def)
qed

end
