(* ===== verification/HttpServer_Model.thy ===== *)
theory HttpServer_Model
  imports HttpRequest_Model
begin

text \<open>
  The HTTP server and client of the demos: responses (demo_example/http/http_response.hpp), the
  connection of the coroutine server (demo_example/http/coroutine_http/connection.hpp; the blocking server
  has the same code with blocking calls) and the client (http_client.cpp).

  The file system is a parameter \<open>fs\<close> that gives the content of the file a path opens, if it opens one.
  A connection is driven by the outcomes of its reads; the results of writes are ignored by the code.
\<close>

section \<open>Responses\<close>

datatype status_type =
    S_ok
  | S_created
  | S_accepted
  | S_no_content
  | S_multiple_choices
  | S_moved_permanently
  | S_moved_temporarily
  | S_not_modified
  | S_bad_request
  | S_unauthorized
  | S_forbidden
  | S_not_found
  | S_internal_server_error
  | S_not_implemented
  | S_bad_gateway
  | S_service_unavailable

fun status_code :: "status_type \<Rightarrow> nat" where
  "status_code S_ok = 200"
| "status_code S_created = 201"
| "status_code S_accepted = 202"
| "status_code S_no_content = 204"
| "status_code S_multiple_choices = 300"
| "status_code S_moved_permanently = 301"
| "status_code S_moved_temporarily = 302"
| "status_code S_not_modified = 304"
| "status_code S_bad_request = 400"
| "status_code S_unauthorized = 401"
| "status_code S_forbidden = 403"
| "status_code S_not_found = 404"
| "status_code S_internal_server_error = 500"
| "status_code S_not_implemented = 501"
| "status_code S_bad_gateway = 502"
| "status_code S_service_unavailable = 503"

fun status_to_buffer :: "status_type \<Rightarrow> string" where
  "status_to_buffer S_ok = ''HTTP/1.1 200 OK'' @ crlf"
| "status_to_buffer S_created = ''HTTP/1.1 201 Created'' @ crlf"
| "status_to_buffer S_accepted = ''HTTP/1.1 202 Accepted'' @ crlf"
| "status_to_buffer S_no_content = ''HTTP/1.1 204 No Content'' @ crlf"
| "status_to_buffer S_multiple_choices = ''HTTP/1.1 300 Multiple Choices'' @ crlf"
| "status_to_buffer S_moved_permanently = ''HTTP/1.1 301 Moved Permanently'' @ crlf"
| "status_to_buffer S_moved_temporarily = ''HTTP/1.1 302 Moved Temporarily'' @ crlf"
| "status_to_buffer S_not_modified = ''HTTP/1.1 304 Not Modified'' @ crlf"
| "status_to_buffer S_bad_request = ''HTTP/1.1 400 Bad Request'' @ crlf"
| "status_to_buffer S_unauthorized = ''HTTP/1.1 401 Unauthorized'' @ crlf"
| "status_to_buffer S_forbidden = ''HTTP/1.1 403 Forbidden'' @ crlf"
| "status_to_buffer S_not_found = ''HTTP/1.1 404 Not Found'' @ crlf"
| "status_to_buffer S_internal_server_error = ''HTTP/1.1 500 Internal Server Error'' @ crlf"
| "status_to_buffer S_not_implemented = ''HTTP/1.1 501 Not Implemented'' @ crlf"
| "status_to_buffer S_bad_gateway = ''HTTP/1.1 502 Bad Gateway'' @ crlf"
| "status_to_buffer S_service_unavailable = ''HTTP/1.1 503 Service Unavailable'' @ crlf"

fun content_to_string :: "status_type \<Rightarrow> string" where
  "content_to_string S_ok =
     ''<html><head><title>Hello</title></head><body><h1>Hello async_simple</h1></body></html>''"
| "content_to_string S_created =
     ''<html><head><title>Created</title></head><body><h1>201 Created</h1></body></html>''"
| "content_to_string S_accepted =
     ''<html><head><title>Accepted</title></head><body><h1>202 Accepted</h1></body></html>''"
| "content_to_string S_no_content =
     ''<html><head><title>No Content</title></head><body><h1>204 Content</h1></body></html>''"
| "content_to_string S_multiple_choices =
     ''<html><head><title>Multiple Choices</title></head><body><h1>300 Multiple Choices</h1></body></html>''"
| "content_to_string S_moved_permanently =
     ''<html><head><title>Moved Permanently</title></head><body><h1>301 Moved Permanently</h1></body></html>''"
| "content_to_string S_moved_temporarily =
     ''<html><head><title>Moved Temporarily</title></head><body><h1>302 Moved Temporarily</h1></body></html>''"
| "content_to_string S_not_modified =
     ''<html><head><title>Not Modified</title></head><body><h1>304 Not Modified</h1></body></html>''"
| "content_to_string S_bad_request =
     ''<html><head><title>Bad Request</title></head><body><h1>400 Bad Request</h1></body></html>''"
| "content_to_string S_unauthorized =
     ''<html><head><title>Unauthorized</title></head><body><h1>401 Unauthorized</h1></body></html>''"
| "content_to_string S_forbidden =
     ''<html><head><title>Forbidden</title></head><body><h1>403 Forbidden</h1></body></html>''"
| "content_to_string S_not_found =
     ''<html><head><title>Not Found</title></head><body><h1>404 Not Found</h1></body></html>''"
| "content_to_string S_internal_server_error =
     ''<html><head><title>Internal Server Error</title></head><body><h1>500 Internal Server Error</h1></body></html>''"
| "content_to_string S_not_implemented =
     ''<html><head><title>Not Implemented</title></head><body><h1>501 Not Implemented</h1></body></html>''"
| "content_to_string S_bad_gateway =
     ''<html><head><title>Bad Gateway</title></head><body><h1>502 Bad Gateway</h1></body></html>''"
| "content_to_string S_service_unavailable =
     ''<html><head><title>Service Unavailable</title></head><body><h1>503 Service Unavailable</h1></body></html>''"

text \<open>\<open>std::to_string\<close> of a size.\<close>

fun to_string :: "nat \<Rightarrow> string" where
  "to_string n = (if n < 10 then [char_of (48 + n)] else to_string (n div 10) @ [char_of (48 + n mod 10)])"

declare to_string.simps [simp del]

definition mime_map :: "(string \<times> string) list" where
  "mime_map = [(''gif'', ''image/gif''), (''htm'', ''text/html''), (''html'', ''text/html''), (''jpg'', ''image/jpeg''),
     (''png'', ''image/png'')]"

definition extension_to_type :: "string \<Rightarrow> string" where
  "extension_to_type extension = (case map_of mime_map extension of Some t \<Rightarrow> t | None \<Rightarrow> ''text/plain'')"

record response =
  status :: status_type
  rp_headers :: "header list"
  content :: string

text \<open>\<open>response{}\<close>; the status is written before the response is sent.\<close>

definition response_new :: response where
  "response_new = \<lparr>status = S_ok, rp_headers = [], content = []\<rparr>"

definition to_buffers :: "response \<Rightarrow> string list" where
  "to_buffers rep =
     [status_to_buffer (status rep)] @ concat (map (\<lambda>h. [h_name h, '': '', h_value h, crlf]) (rp_headers rep))
     @ [crlf, content rep]"

text \<open>\<open>headers.resize(2)\<close> and the assignments to its two elements.\<close>

definition set_headers :: "string \<Rightarrow> response \<Rightarrow> response" where
  "set_headers type rep =
     rep\<lparr>rp_headers := [\<lparr>h_name = ''Content-Length'', h_value = to_string (length (content rep))\<rparr>,
                       \<lparr>h_name = ''Content-Type'', h_value = type\<rparr>]\<rparr>"

definition build_response :: "status_type \<Rightarrow> response" where
  "build_response st = set_headers ''text/html'' (response_new\<lparr>status := st, content := content_to_string st\<rparr>)"

section \<open>Handling a request\<close>

text \<open>
  \<open>is >> std::hex >> value\<close> on the two characters after a percent sign: blanks are skipped, a sign and a
  prefix \<open>0x\<close> are taken, and the digits before the first other character are the number.
\<close>

definition is_space :: "char \<Rightarrow> bool" where
  "is_space c \<longleftrightarrow> c \<in> {CHR '' '', CHR 0x09, CHR 0x0A, CHR 0x0B, CHR 0x0C, CHR 0x0D}"

definition hex_digit :: "char \<Rightarrow> int option" where
  "hex_digit c =
     (let v = int_of_char c
      in if 48 \<le> v \<and> v \<le> 57 then Some (v - 48)
         else if 97 \<le> v \<and> v \<le> 102 then Some (v - 87)
         else if 65 \<le> v \<and> v \<le> 70 then Some (v - 55)
         else None)"

fun skip_sign :: "string \<Rightarrow> bool \<times> string" where
  "skip_sign (c # cs) = (if c = CHR ''-'' then (True, cs) else if c = CHR ''+'' then (False, cs) else (False, c # cs))"
| "skip_sign [] = (False, [])"

fun skip_prefix :: "string \<Rightarrow> string" where
  "skip_prefix (c # d # cs) = (if c = CHR ''0'' \<and> (d = CHR ''x'' \<or> d = CHR ''X'') then cs else c # d # cs)"
| "skip_prefix cs = cs"

definition read_hex :: "string \<Rightarrow> int option" where
  "read_hex s =
     (let (neg, rest) = skip_sign (dropWhile is_space s);
          ds = takeWhile (\<lambda>c. hex_digit c \<noteq> None) (skip_prefix rest);
          v = foldl (\<lambda>v c. v * 16 + the (hex_digit c)) 0 ds
      in if ds = [] then None else Some (if neg then - v else v))"

fun url_decode :: "string \<Rightarrow> string option" where
  "url_decode [] = Some []"
| "url_decode (c # cs) =
     (if c = CHR ''%'' then
        (case cs of
           d # e # rest \<Rightarrow>
             (case read_hex [d, e] of
                Some v \<Rightarrow> map_option ((#) (char_of v)) (url_decode rest)
              | None \<Rightarrow> None)
         | _ \<Rightarrow> None)
      else if c = CHR ''+'' then map_option ((#) (CHR '' '')) (url_decode cs)
      else map_option ((#) c) (url_decode cs))"

text \<open>\<open>find\<close> and \<open>find_last_of\<close>.\<close>

definition contains :: "string \<Rightarrow> string \<Rightarrow> bool" where
  "contains p s \<longleftrightarrow> list_ex (\<lambda>i. take (length p) (drop i s) = p) [0..<Suc (length s)]"

definition find_last_of :: "char \<Rightarrow> string \<Rightarrow> nat option" where
  "find_last_of c s = (case filter (\<lambda>i. s ! i = c) [0..<length s] of [] \<Rightarrow> None | is \<Rightarrow> Some (last is))"

definition file_extension :: "string \<Rightarrow> string" where
  "file_extension path =
     (case (find_last_of (CHR ''.'') path, find_last_of (CHR ''/'') path) of
        (Some dot, Some slash) \<Rightarrow> if dot > slash then drop (dot + 1) path else []
      | _ \<Rightarrow> [])"

text \<open>The loop that reads the file in blocks of 512 bytes.\<close>

function read_blocks :: "string \<Rightarrow> string \<Rightarrow> string" where
  "read_blocks acc rest =
     (let gcount = min 512 (length rest)
      in if gcount > 0 then read_blocks (acc @ take gcount rest) (drop gcount rest) else acc)"
  by auto
termination by (relation "measure (\<lambda>(_, rest). length rest)") auto

declare read_blocks.simps [simp del]

text \<open>\<open>full_path.c_str()\<close> ends at the first null character.\<close>

definition c_str :: "string \<Rightarrow> string" where
  "c_str s = takeWhile (\<lambda>c. c \<noteq> CHR 0x00) s"

definition handle_request :: "(string \<Rightarrow> string option) \<Rightarrow> string \<Rightarrow> request \<Rightarrow> response \<Rightarrow> response" where
  "handle_request fs doc_root req rep =
     (case url_decode (rq_uri req) of
        None \<Rightarrow> build_response S_bad_request
      | Some path \<Rightarrow>
          if path = [] \<or> hd path \<noteq> CHR ''/'' \<or> contains ''..'' path then build_response S_bad_request
          else if last path = CHR ''/'' then build_response S_ok
          else
            (case fs (c_str (doc_root @ path)) of
               None \<Rightarrow> build_response S_not_found
             | Some file \<Rightarrow>
                 set_headers (extension_to_type (file_extension path))
                   (rep\<lparr>status := S_ok, content := read_blocks (content rep) file\<rparr>)))"

section \<open>The connection\<close>

record connection =
  cn_parser :: pstate
  cn_request :: request
  cn_response :: response
  cn_doc_root :: string
  written :: "string list"
  serving :: bool

definition connection_new :: "string \<Rightarrow> connection" where
  "connection_new doc_root =
     \<lparr>cn_parser = request_parser_new, cn_request = request_new, cn_response = response_new, cn_doc_root = doc_root, written = [],
      serving = True\<rparr>"

definition is_keep_alive :: "request \<Rightarrow> bool" where
  "is_keep_alive req \<longleftrightarrow> \<not> list_ex (\<lambda>h. h_name h = ''Connection'' \<and> h_value h = ''close'') (rq_headers req)"

text \<open>\<open>async_write\<close> of the buffers of a response, as one string.\<close>

definition write_response :: "connection \<Rightarrow> connection" where
  "write_response c = c\<lparr>written := written c @ [concat (to_buffers (cn_response c))]\<rparr>"

datatype read_outcome = Read_error | Read_bytes string

text \<open>One round of the loop in \<open>start\<close>.  After \<open>break\<close> the connection does not read any more.\<close>

definition start_round :: "(string \<Rightarrow> string option) \<Rightarrow> connection \<Rightarrow> read_outcome \<Rightarrow> connection result" where
  "start_round fs c ev =
     (if \<not> serving c then ok c
      else case ev of
        Read_error \<Rightarrow> ok (c\<lparr>serving := False\<rparr>)
      | Read_bytes bytes \<Rightarrow>
          (case parse (cn_parser c) (cn_request c) bytes of
             Inl e \<Rightarrow> Inl e
           | Inr (result, st, req, _) \<Rightarrow>
               let c1 = c\<lparr>cn_parser := st, cn_request := req\<rparr>
               in if result = good then
                    let c2 = write_response (c1\<lparr>cn_response := handle_request fs (cn_doc_root c1) req (cn_response c1)\<rparr>)
                    in if \<not> is_keep_alive (cn_request c2) then ok (c2\<lparr>serving := False\<rparr>)
                       else ok (c2\<lparr>cn_request := request_new, cn_response := response_new, cn_parser := parser_reset (cn_parser c2)\<rparr>)
                  else if result = bad then
                    ok ((write_response (c1\<lparr>cn_response := build_response S_bad_request\<rparr>))\<lparr>serving := False\<rparr>)
                  else ok c1))"

fun connection_start :: "(string \<Rightarrow> string option) \<Rightarrow> connection \<Rightarrow> read_outcome list \<Rightarrow> connection result" where
  "connection_start fs c [] = ok c"
| "connection_start fs c (ev # evs) =
     (case start_round fs c ev of Inl e \<Rightarrow> Inl e | Inr c' \<Rightarrow> connection_start fs c' evs)"

section \<open>The client\<close>

definition client_request :: string where
  "client_request = ''GET '' @ ''/'' @ '' HTTP/1.1'' @ crlf @ ''Host: '' @ ''127.0.0.1'' @ crlf @ ''Accept: */*'' @ crlf
     @ ''Connection: close'' @ crlf @ crlf"

text \<open>\<open>stream >> string\<close>, \<open>stream >> unsigned\<close> and \<open>std::getline\<close>: the value and the rest, or a failed stream.\<close>

definition read_word :: "string \<Rightarrow> (string \<times> string) option" where
  "read_word s =
     (let t = dropWhile is_space s; w = takeWhile (\<lambda>c. \<not> is_space c) t
      in if w = [] then None else Some (w, drop (length w) t))"

definition read_unsigned :: "string \<Rightarrow> (int \<times> string) option" where
  "read_unsigned s =
     (let (neg, t) = skip_sign (dropWhile is_space s);
          ds = takeWhile (\<lambda>c. is_digit (int_of_char c)) t;
          v = decimal ds
      in if ds = [] \<or> v \<ge> 2 ^ 32 then None
         else Some (if neg then (- v) mod 2 ^ 32 else v, drop (length ds) t))"

definition read_line :: "string \<Rightarrow> (string \<times> string) option" where
  "read_line s =
     (if s = [] then None else let l = takeWhile (\<lambda>c. c \<noteq> lf) s in Some (l, drop (length l + 1) s))"

datatype client_outcome =
    Invalid_response
  | Other_status int
  | Received "string list" string

text \<open>The header lines up to an empty one, and what follows.\<close>

function client_headers :: "string \<Rightarrow> string list \<times> string" where
  "client_headers s =
     (case read_line s of
        None \<Rightarrow> ([], [])
      | Some (l, rest) \<Rightarrow>
          if l = [cr] then ([], rest) else let (ls, body) = client_headers rest in (l # ls, body))"
  by auto
termination by (relation "measure length") (auto simp: read_line_def Let_def split: if_splits)

declare client_headers.simps [simp del]

text \<open>What the client makes of the bytes it receives until the server closes the connection.\<close>

definition client_process :: "string \<Rightarrow> client_outcome" where
  "client_process s =
     (case read_word s of
        None \<Rightarrow> Invalid_response
      | Some (http_version, s1) \<Rightarrow>
          (case read_unsigned s1 of
             None \<Rightarrow> Invalid_response
           | Some (code, s2) \<Rightarrow>
               (case read_line s2 of
                  None \<Rightarrow> Invalid_response
                | Some (_, s3) \<Rightarrow>
                    if take 5 http_version \<noteq> ''HTTP/'' then Invalid_response
                    else if code \<noteq> 200 then Other_status code
                    else let (ls, body) = client_headers s3 in Received ls body)))"

section \<open>Strings\<close>

lemma read_blocks_all: "read_blocks acc rest = acc @ rest"
proof (induction acc rest rule: read_blocks.induct)
  case (1 acc rest)
  show ?case
  proof (cases "rest = []")
    case True
    then show ?thesis by (simp add: read_blocks.simps[of acc])
  next
    case False
    then show ?thesis using 1 by (simp add: read_blocks.simps[of acc] Let_def)
  qed
qed

text \<open>Sizes are printed in decimal.\<close>

lemma of_char_nat: "(of_char (char_of m) :: int) = int (m mod 256)"
  by (metis of_nat_of_char of_char_of)

lemma int_of_digit: "n < 10 \<Longrightarrow> int_of_char (char_of (48 + n)) = 48 + int n"
  by (simp add: int_of_char_def of_char_nat)

lemma digit_chars: "(n :: nat) < 10 \<Longrightarrow> is_digit (int_of_char (char_of (48 + n)))"
  using int_of_digit[of n] by (simp add: is_digit_def) (simp add: int_of_char_def)

lemma decimal_snoc: "decimal (ds @ [c]) = decimal ds * 10 + (int_of_char c - 48)"
  by (simp add: decimal_def)

lemma to_string_decimal: "decimal (to_string n) = int n \<and> digits (to_string n) \<and> to_string n \<noteq> []"
proof (induction n rule: to_string.induct)
  case (1 n)
  show ?case
  proof (cases "n < 10")
    case True
    then show ?thesis using int_of_digit[OF True] digit_chars[OF True] by (simp add: to_string.simps[of n] decimal_def digits_def)
  next
    case False
    have "n mod 10 < 10" by simp
    note d = int_of_digit[OF this] digit_chars[OF this]
    have "int (n div 10) * 10 + int (n mod 10) = int n" by (metis of_nat_add of_nat_mult of_nat_numeral div_mult_mod_eq)
    then show ?thesis using 1 False d by (simp add: to_string.simps[of n] decimal_snoc digits_def)
  qed
qed


section \<open>Responses\<close>

text \<open>Every response is framed: status line, length, type, empty line, content.\<close>

lemma set_headers_wire:
  "concat (to_buffers (set_headers type rep)) = status_to_buffer (status rep)
     @ ''Content-Length: '' @ to_string (length (content rep)) @ crlf @ ''Content-Type: '' @ type @ crlf @ crlf @ content rep"
  by (simp add: to_buffers_def set_headers_def)

lemma set_headers_fields: "status (set_headers type rep) = status rep" "content (set_headers type rep) = content rep"
  by (simp_all add: set_headers_def)

definition plain_type :: "string \<Rightarrow> bool" where
  "plain_type type \<longleftrightarrow> type \<in> {''image/gif'', ''text/html'', ''image/jpeg'', ''image/png'', ''text/plain''}"

lemma extension_types: "plain_type (extension_to_type e)"
  by (auto simp: extension_to_type_def mime_map_def plain_type_def split: option.splits if_splits)

lemma handle_request_headers: "\<exists>type rep'. handle_request fs root req rep = set_headers type rep' \<and> plain_type type"
proof -
  have "\<exists>type rep'. build_response st = set_headers type rep' \<and> plain_type type" for st
    unfolding build_response_def plain_type_def by blast
  then show ?thesis unfolding handle_request_def using extension_types by (auto split: option.split)
qed

text \<open>The path that is opened stays below the document root.\<close>

definition below_root :: "string \<Rightarrow> bool" where
  "below_root q \<longleftrightarrow> q \<noteq> [] \<and> hd q = CHR ''/'' \<and> \<not> contains ''..'' q"

lemma contains_iff: "contains p s \<longleftrightarrow> (\<exists>a b. s = a @ p @ b)"
proof
  assume "contains p s"
  then obtain i where "take (length p) (drop i s) = p" by (auto simp: contains_def list_ex_iff)
  then have "s = take i s @ p @ drop (length p) (drop i s)" by (metis append_take_drop_id)
  then show "\<exists>a b. s = a @ p @ b" by blast
next
  assume "\<exists>a b. s = a @ p @ b"
  then obtain a b where "s = a @ p @ b" by blast
  then have "take (length p) (drop (length a) s) = p" "length a < Suc (length s)" by simp_all
  then show "contains p s" unfolding contains_def list_ex_iff by (intro bexI[of _ "length a"]) auto
qed

lemma below_root_c_str:
  assumes "below_root path"
  shows "below_root (c_str path)"
proof -
  obtain c cs where p: "path = c # cs" "c = CHR ''/''" using assms by (cases path) (auto simp: below_root_def)
  have "path = c_str path @ dropWhile (\<lambda>c. c \<noteq> CHR 0x00) path" by (simp add: c_str_def)
  then have "\<not> contains ''..'' (c_str path)" using assms unfolding below_root_def contains_iff by (metis append_assoc)
  then show ?thesis using p by (simp add: below_root_def c_str_def)
qed

lemma c_str_root: "CHR 0x00 \<notin> set root \<Longrightarrow> c_str (root @ path) = root @ c_str path"
  by (auto simp: c_str_def takeWhile_append)

section \<open>Serving\<close>

text \<open>What a server writes for a sequence of requests, and whether it then still serves.\<close>

fun serve :: "(string \<Rightarrow> string option) \<Rightarrow> string \<Rightarrow> request list \<Rightarrow> string list \<times> bool" where
  "serve fs root [] = ([], True)"
| "serve fs root (q # qs) =
     (let w = concat (to_buffers (handle_request fs root q response_new))
      in if is_keep_alive q then (w # fst (serve fs root qs), snd (serve fs root qs)) else ([w], False))"

definition fresh :: "connection \<Rightarrow> bool" where
  "fresh c \<longleftrightarrow> serving c \<and> cn_parser c = method_start \<and> cn_request c = request_new \<and> cn_response c = response_new"

definition answer :: "(string \<Rightarrow> string option) \<Rightarrow> connection \<Rightarrow> request \<Rightarrow> connection" where
  "answer fs c q =
     (let c2 = write_response (c\<lparr>cn_parser := expecting_newline_3, cn_request := q,
                                 cn_response := handle_request fs (cn_doc_root c) q (cn_response c)\<rparr>)
      in if is_keep_alive q then c2\<lparr>cn_request := request_new, cn_response := response_new, cn_parser := method_start\<rparr>
         else c2\<lparr>serving := False\<rparr>)"

lemma round_good:
  assumes "serving c" and "parse (cn_parser c) (cn_request c) bs = ok (good, st, q, rest)"
  shows "start_round fs c (Read_bytes bs) = ok (answer fs c q)"
proof -
  have "st = expecting_newline_3" using assms(2) by (rule good_state)
  then show ?thesis using assms by (simp add: start_round_def answer_def write_response_def parser_reset_def Let_def)
qed

lemma feed_request:
  assumes "css \<noteq> []" and "[] \<notin> set css" and "serving c"
    and "parse (cn_parser c) (cn_request c) (concat css) = ok (good, st, q, [])"
  shows "connection_start fs c (map Read_bytes css @ evs) = connection_start fs (answer fs c q) evs"
  using assms
proof (induction css arbitrary: c)
  case (Cons x css)
  show ?case
  proof (cases "css = []")
    case True
    then show ?thesis using Cons.prems round_good[of c x st q "[]" fs] by simp
  next
    case False
    then have "concat css \<noteq> []" using Cons.prems(2) by (cases css) auto
    then obtain st1 r1 where p: "parse (cn_parser c) (cn_request c) x = ok (indeterminate, st1, r1, [])"
      "parse st1 r1 (concat css) = ok (good, st, q, [])"
      using parse_prefix[of "cn_parser c" "cn_request c" x "concat css" st q] Cons.prems(4) by auto
    let ?c = "c\<lparr>cn_parser := st1, cn_request := r1\<rparr>"
    have "start_round fs c (Read_bytes x) = ok ?c" using p(1) Cons.prems(3) by (simp add: start_round_def)
    moreover have "connection_start fs ?c (map Read_bytes css @ evs) = connection_start fs (answer fs ?c q) evs"
      using False Cons.prems p(2) by (intro Cons.IH) simp_all
    moreover have "answer fs ?c q = answer fs c q" by (simp add: answer_def write_response_def Let_def)
    ultimately show ?thesis by simp
  qed
qed simp

lemma answer_fresh:
  assumes "fresh c"
  shows "written (answer fs c q) = written c @ [concat (to_buffers (handle_request fs (cn_doc_root c) q response_new))]"
    and "cn_doc_root (answer fs c q) = cn_doc_root c"
    and "is_keep_alive q \<Longrightarrow> fresh (answer fs c q)" and "\<not> is_keep_alive q \<Longrightarrow> \<not> serving (answer fs c q)"
  using assms by (simp_all add: answer_def fresh_def write_response_def Let_def)

lemma closed_ignores: "\<not> serving c \<Longrightarrow> connection_start fs c evs = ok c"
  by (induction evs) (simp_all add: start_round_def)

lemma raw_nonempty: "raw_ok r \<Longrightarrow> raw_bytes r \<noteq> []"
  by (simp add: raw_bytes_def)

lemma serve_from:
  assumes "list_all2 (\<lambda>r css. raw_ok r \<and> concat css = raw_bytes r \<and> [] \<notin> set css) rs csss" and "fresh c"
  shows "\<exists>c'. connection_start fs c (map Read_bytes (concat csss)) = ok c'
    \<and> written c' = written c @ fst (serve fs (cn_doc_root c) (map raw_meaning rs))
    \<and> serving c' = snd (serve fs (cn_doc_root c) (map raw_meaning rs))"
  using assms
proof (induction rs csss arbitrary: c rule: list_all2_induct)
  case Nil
  then show ?case by (simp add: fresh_def)
next
  case (Cons r rs css csss)
  let ?a = "answer fs c (raw_meaning r)"
  have "css \<noteq> []" using Cons(1) raw_nonempty[of r] by auto
  moreover have "parse (cn_parser c) (cn_request c) (concat css) = ok (good, expecting_newline_3, raw_meaning r, [])"
    using request_complete[of r "[]"] Cons(1,4) by (simp add: fresh_def)
  ultimately have run: "connection_start fs c (map Read_bytes (concat (css # csss))) = connection_start fs ?a (map Read_bytes (concat csss))"
    using feed_request[of css c expecting_newline_3 "raw_meaning r" fs "map Read_bytes (concat csss)"] Cons(1,4) by (simp add: fresh_def)
  show ?case
  proof (cases "is_keep_alive (raw_meaning r)")
    case True
    then show ?thesis
      using Cons.IH[OF answer_fresh(3)[OF Cons(4) True]] run answer_fresh(1,2)[OF Cons(4)] by (simp add: Let_def)
  next
    case False
    then show ?thesis
      using run closed_ignores[OF answer_fresh(4)[OF Cons(4) False]] answer_fresh(1,4)[OF Cons(4)] by (simp add: Let_def)
  qed
qed

text \<open>
  Percent escapes: the escape of every byte is decoded, but so are a single digit with another character
  behind it, and a sign.
\<close>

definition hex_char :: "nat \<Rightarrow> char" where
  "hex_char n = (if n < 10 then char_of (48 + n) else char_of (55 + n))"

definition escape :: "string \<Rightarrow> string" where
  "escape s = concat (map (\<lambda>c. [CHR ''%'', hex_char (of_char c div 16), hex_char (of_char c mod 16)]) s)"

lemma hex_char_int: "n < 16 \<Longrightarrow> int_of_char (hex_char n) = (if n < 10 then 48 + int n else 55 + int n)"
  by (simp add: hex_char_def int_of_char_def of_char_nat)

lemma hex_char_digit: "n < 16 \<Longrightarrow> hex_digit (hex_char n) = Some (int n)"
  by (simp add: hex_digit_def hex_char_int Let_def)

lemma hex_digit_chars: "hex_digit c \<noteq> None \<Longrightarrow> \<not> is_space c \<and> c \<noteq> CHR ''-'' \<and> c \<noteq> CHR ''+'' \<and> c \<noteq> CHR ''x'' \<and> c \<noteq> CHR ''X''"
  by (auto simp: hex_digit_def is_space_def int_of_char_def Let_def split: if_splits)

lemma read_hex_pair:
  assumes "a < 16" and "b < 16"
  shows "read_hex [hex_char a, hex_char b] = Some (16 * int a + int b)"
proof -
  note a = hex_char_digit[OF assms(1)] and b = hex_char_digit[OF assms(2)]
  have "skip_sign (dropWhile is_space [hex_char a, hex_char b]) = (False, [hex_char a, hex_char b])"
    using hex_digit_chars[of "hex_char a"] a by simp
  moreover have "skip_prefix [hex_char a, hex_char b] = [hex_char a, hex_char b]" using hex_digit_chars[of "hex_char b"] b by simp
  ultimately show ?thesis using a b by (simp add: read_hex_def Let_def)
qed

lemma url_decode_escape: "url_decode (escape s) = Some s"
proof (induction s)
  case (Cons c s)
  have l: "of_char c < (256 :: nat)" by (rule nat_of_char_less_256)
  then have "of_char c div 16 < (16 :: nat)" by linarith
  moreover have "16 * int (of_char c div 16) + int (of_char c mod 16) = of_char c"
    by (metis mult_div_mod_eq of_nat_add of_nat_mult of_nat_numeral of_nat_of_char)
  ultimately have "read_hex [hex_char (of_char c div 16), hex_char (of_char c mod 16)] = Some (of_char c)"
    using read_hex_pair[of "of_char c div 16" "of_char c mod 16"] by simp
  moreover have "escape (c # s) = CHR ''%'' # hex_char (of_char c div 16) # hex_char (of_char c mod 16) # escape s"
    by (simp add: escape_def)
  ultimately show ?case using Cons.IH by simp
qed (simp add: escape_def)

lemma url_decode_lenient:
  "url_decode ''%2G'' = Some [CHR 0x02]" "url_decode ''%-1'' = Some [CHR 0xFF]"
  by (simp_all add: read_hex_def hex_digit_def is_space_def int_of_char_def char_of_def bit_0)

section \<open>The client reads what the server writes\<close>

lemma takeWhile_run: "list_all P ds \<Longrightarrow> \<not> P x \<Longrightarrow> takeWhile P (ds @ x # t) = ds"
  by (induction ds) simp_all

lemma read_line_crlf:
  assumes "lf \<notin> set l"
  shows "read_line (l @ crlf @ rest) = Some (l @ [cr], rest)"
proof -
  have "list_all (\<lambda>c. c \<noteq> lf) (l @ [cr])" using assms by (auto simp: list_all_iff)
  then have "takeWhile (\<lambda>c. c \<noteq> lf) ((l @ [cr]) @ lf # rest) = l @ [cr]" by (rule takeWhile_run) simp
  then show ?thesis by (simp add: read_line_def crlf_def Let_def)
qed

lemma digit_not_space: "is_digit (int_of_char c) \<Longrightarrow> \<not> is_space c \<and> c \<noteq> CHR ''-'' \<and> c \<noteq> CHR ''+'' \<and> c \<noteq> lf"
  by (auto simp: is_digit_def is_space_def int_of_char_def split: if_splits)

lemma read_unsigned_digits:
  assumes "ds \<noteq> []" and "digits ds" and "decimal ds < 2 ^ 32"
  shows "read_unsigned (CHR '' '' # ds @ CHR '' '' # t) = Some (decimal ds, CHR '' '' # t)"
proof -
  obtain d es where d: "ds = d # es" using assms(1) by (cases ds) auto
  have "\<not> is_digit (int_of_char (CHR '' ''))" by (simp add: is_digit_def int_of_char_def)
  then have t: "takeWhile (\<lambda>c. is_digit (int_of_char c)) (ds @ CHR '' '' # t) = ds"
    using assms(2) unfolding digits_def by (intro takeWhile_run)
  have "is_space (CHR '' '')" by (simp add: is_space_def)
  then have "skip_sign (dropWhile is_space (CHR '' '' # ds @ CHR '' '' # t)) = (False, ds @ CHR '' '' # t)"
    using assms(2) d digit_not_space[of d] by (simp add: digits_def)
  then show ?thesis using t assms by (simp add: read_unsigned_def Let_def)
qed

text \<open>The status line carries the code of the status and its reason.\<close>

fun reason :: "status_type \<Rightarrow> string" where
  "reason S_ok = ''OK''"
| "reason S_created = ''Created''"
| "reason S_accepted = ''Accepted''"
| "reason S_no_content = ''No Content''"
| "reason S_multiple_choices = ''Multiple Choices''"
| "reason S_moved_permanently = ''Moved Permanently''"
| "reason S_moved_temporarily = ''Moved Temporarily''"
| "reason S_not_modified = ''Not Modified''"
| "reason S_bad_request = ''Bad Request''"
| "reason S_unauthorized = ''Unauthorized''"
| "reason S_forbidden = ''Forbidden''"
| "reason S_not_found = ''Not Found''"
| "reason S_internal_server_error = ''Internal Server Error''"
| "reason S_not_implemented = ''Not Implemented''"
| "reason S_bad_gateway = ''Bad Gateway''"
| "reason S_service_unavailable = ''Service Unavailable''"

lemma status_line: "status_to_buffer st = ''HTTP/1.1 '' @ to_string (status_code st) @ CHR '' '' # reason st @ crlf"
  by (cases st) (simp_all add: to_string.simps char_of_def bit_Suc_0_iff)

lemma status_facts: "lf \<notin> set (reason st)" "decimal (to_string (status_code st)) < 2 ^ 32"
  by (cases st; simp add: to_string_decimal)+

lemma client_status:
  "client_process (status_to_buffer st @ rest) =
     (if st = S_ok then (let (ls, body) = client_headers rest in Received ls body) else Other_status (int (status_code st)))"
proof -
  let ?t = "to_string (status_code st)"
  have w: "read_word (''HTTP/1.1 '' @ s) = Some (''HTTP/1.1'', CHR '' '' # s)" for s
    by (simp add: read_word_def is_space_def Let_def)
  have u: "read_unsigned (CHR '' '' # ?t @ CHR '' '' # reason st @ crlf @ rest) = Some (int (status_code st), CHR '' '' # reason st @ crlf @ rest)"
    using read_unsigned_digits[of ?t] to_string_decimal[of "status_code st"] status_facts(2)[of st] by simp
  have l: "read_line (CHR '' '' # reason st @ crlf @ rest) = Some (CHR '' '' # reason st @ [cr], rest)"
    using read_line_crlf[of "CHR '' '' # reason st" rest] status_facts(1)[of st] by simp
  have "int (status_code st) = 200 \<longleftrightarrow> st = S_ok" by (cases st) simp_all
  then show ?thesis unfolding status_line client_process_def
    using w[of "?t @ CHR '' '' # reason st @ crlf @ rest"] u l by (simp add: client_process_def)
qed

lemma client_headers_line:
  assumes "lf \<notin> set l" and "l \<noteq> []"
  shows "client_headers (l @ crlf @ rest) = (let (ls, body) = client_headers rest in ((l @ [cr]) # ls, body))"
  using read_line_crlf[OF assms(1), of rest] assms(2) by (simp add: client_headers.simps[of "l @ crlf @ rest"])

lemma client_headers_end: "client_headers (crlf @ body) = ([], body)"
  using read_line_crlf[of "[]" body] by (simp add: client_headers.simps[of "crlf @ body"])

lemma type_chars: "plain_type type \<Longrightarrow> lf \<notin> set type"
  by (auto simp: plain_type_def)

lemma size_chars: "lf \<notin> set (to_string n)"
proof -
  have "digits (to_string n)" using to_string_decimal by simp
  then show ?thesis using digit_not_space by (auto simp: digits_def list_all_iff)
qed

lemma client_reads:
  assumes "plain_type type"
  shows "client_process (concat (to_buffers (set_headers type rep))) =
     (if status rep = S_ok
      then Received [''Content-Length: '' @ to_string (length (content rep)) @ [cr], ''Content-Type: '' @ type @ [cr]] (content rep)
      else Other_status (int (status_code (status rep))))"
proof -
  let ?n = "''Content-Length: '' @ to_string (length (content rep))" and ?t = "''Content-Type: '' @ type"
  have t: "client_headers (?t @ crlf @ crlf @ content rep) = ([?t @ [cr]], content rep)"
    using client_headers_line[of ?t "crlf @ content rep"] client_headers_end type_chars[OF assms] by simp
  have "client_headers (?n @ crlf @ ?t @ crlf @ crlf @ content rep) = ([?n @ [cr], ?t @ [cr]], content rep)"
    using client_headers_line[of ?n "?t @ crlf @ crlf @ content rep"] t size_chars[of "length (content rep)"] by simp
  then show ?thesis using client_status[of "status rep" "?n @ crlf @ ?t @ crlf @ crlf @ content rep"] by (simp add: set_headers_wire)
qed

text \<open>
  C17.  The server answers a sequence of requests.  However each request is cut into pieces by the network, as
  long as no read mixes two requests, the connection does not fail, writes for every request, in order,
  the response that \<open>handle_request\<close> gives for its meaning, goes on after a request that keeps the connection
  alive, and stops after the first that closes it.
\<close>

theorem http_serves:
  assumes "list_all2 (\<lambda>r css. raw_ok r \<and> concat css = raw_bytes r \<and> [] \<notin> set css) rs csss"
  shows "\<exists>c. connection_start fs (connection_new root) (map Read_bytes (concat csss)) = ok c
    \<and> (written c, serving c) = serve fs root (map raw_meaning rs)"
proof -
  have "fresh (connection_new root)" by (simp add: fresh_def connection_new_def request_parser_new_def)
  from serve_from[OF assms this, of fs] show ?thesis by (auto simp: connection_new_def prod_eq_iff)
qed

definition demo_request :: raw_request where
  "demo_request = \<lparr>raw_method = ''GET'', raw_uri = ''/'', raw_major = ''1'', raw_minor = ''1'',
     raw_lines = [Field ''Host'' ''127.0.0.1'', Field ''Accept'' ''*/*'', Field ''Connection'' ''close'']\<rparr>"

lemma demo_bytes: "raw_bytes demo_request = client_request"
  by (simp add: raw_bytes_def demo_request_def client_request_def crlf_def)

lemmas char_classes = token_char_def is_char_def is_ctl_def is_tspecial_def tspecials_def is_digit_def int_of_char_def

lemma demo_ok: "raw_ok demo_request"
  by (simp add: raw_ok_def demo_request_def number_ok_def decimal_def int_max_def char_classes)

theorem http_serves_witness:
  "\<exists>c. connection_start (\<lambda>_. None) (connection_new ''./'') (map Read_bytes [take 9 client_request, drop 9 client_request]) = ok c
    \<and> (written c, serving c) = ([concat (to_buffers (build_response S_ok))], False)"
proof -
  have "serve (\<lambda>_. None) ''./'' [raw_meaning demo_request] = ([concat (to_buffers (build_response S_ok))], False)"
    by (simp add: raw_meaning_def demo_request_def is_keep_alive_def handle_request_def contains_def)
  moreover have "[] \<notin> set [take 9 client_request, drop 9 client_request]" by (simp add: client_request_def)
  ultimately show ?thesis
    using http_serves[of "[demo_request]" "[[take 9 client_request, drop 9 client_request]]" "\<lambda>_. None" "''./''"] demo_ok
    by (simp add: demo_bytes)
qed

text \<open>The client understands the answer to a request that closes the connection.\<close>

lemma exchange:
  assumes "raw_ok r" and "concat css = raw_bytes r" and "[] \<notin> set css" and "\<not> is_keep_alive (raw_meaning r)"
  shows "\<exists>c w type. connection_start fs (connection_new root) (map Read_bytes css) = ok c \<and> \<not> serving c \<and> written c = [w]
    \<and> (let rep = handle_request fs root (raw_meaning r) response_new
       in client_process w =
            (if status rep = S_ok
             then Received [''Content-Length: '' @ to_string (length (content rep)) @ [cr], ''Content-Type: '' @ type @ [cr]] (content rep)
             else Other_status (int (status_code (status rep))))
          \<and> decimal (to_string (length (content rep))) = int (length (content rep)))"
proof -
  let ?rep = "handle_request fs root (raw_meaning r) response_new"
  have "fresh (connection_new root)" by (simp add: fresh_def connection_new_def request_parser_new_def)
  then obtain c where c: "connection_start fs (connection_new root) (map Read_bytes css) = ok c" "\<not> serving c"
    "written c = [concat (to_buffers ?rep)]"
    using serve_from[of "[r]" "[css]" "connection_new root" fs] assms by (auto simp: connection_new_def Let_def)
  obtain type rep' where "?rep = set_headers type rep'" "plain_type type" using handle_request_headers by blast
  then show ?thesis using c client_reads[of type rep'] to_string_decimal
    by (intro exI[of _ c] exI[of _ "concat (to_buffers ?rep)"] exI[of _ type]) (simp add: set_headers_fields)
qed

lemma build_response_fields: "status (build_response st) = st" "content (build_response st) = content_to_string st"
  by (simp_all add: build_response_def set_headers_fields)

text \<open>
  C32.  The server opens only paths below its document root: two file systems that agree on the paths that
  consist of the root, a slash, and a rest without two successive dots give the same response to every
  request, whatever its percent escapes decode to.
\<close>

theorem http_path_confined:
  assumes "\<And>q. below_root q \<Longrightarrow> fs (root @ q) = fs' (root @ q)" and "CHR 0x00 \<notin> set root"
  shows "handle_request fs root req rep = handle_request fs' root req rep"
proof (cases "url_decode (rq_uri req)")
  case (Some path)
  show ?thesis
  proof (cases "below_root path")
    case True
    then have "fs (c_str (root @ path)) = fs' (c_str (root @ path))"
      using assms below_root_c_str by (simp add: c_str_root)
    then show ?thesis using Some by (simp add: handle_request_def)
  next
    case False
    then show ?thesis using Some by (simp add: handle_request_def below_root_def)
  qed
qed (simp add: handle_request_def)

theorem http_path_confined_witness:
  "handle_request (\<lambda>p. if p = ''./../key'' then Some ''secret'' else None) ''.'' (request_new\<lparr>rq_uri := ''/%2e%2e/key''\<rparr>) response_new
     = handle_request (\<lambda>_. None) ''.'' (request_new\<lparr>rq_uri := ''/%2e%2e/key''\<rparr>) response_new"
proof (rule http_path_confined)
  fix q assume "below_root q"
  then have "q \<noteq> ''/../key''" by (auto simp: below_root_def contains_def)
  then show "(if ''.'' @ q = ''./../key'' then Some ''secret'' else None) = None" by simp
qed simp

text \<open>
  Bytes that arrive in one read behind a complete request are thrown away: a request pipelined behind
  another one is never answered.
\<close>

theorem http_pipelined_dropped:
  assumes "raw_ok r" and "raw_ok r2" and "is_keep_alive (raw_meaning r)"
  shows "\<exists>c. connection_start fs (connection_new root) [Read_bytes (raw_bytes r @ raw_bytes r2)] = ok c \<and> fresh c
    \<and> written c = [concat (to_buffers (handle_request fs root (raw_meaning r) response_new))]"
proof -
  let ?c = "connection_new root"
  have f: "fresh ?c" by (simp add: fresh_def connection_new_def request_parser_new_def)
  have "parse (cn_parser ?c) (cn_request ?c) (raw_bytes r @ raw_bytes r2) = ok (good, expecting_newline_3, raw_meaning r, raw_bytes r2)"
    using request_complete[OF assms(1)] by (simp add: connection_new_def request_parser_new_def)
  then have "start_round fs ?c (Read_bytes (raw_bytes r @ raw_bytes r2)) = ok (answer fs ?c (raw_meaning r))"
    using round_good[of ?c "raw_bytes r @ raw_bytes r2"] f by (simp add: fresh_def)
  then show ?thesis using answer_fresh[OF f] assms(3) by (simp add: connection_new_def)
qed

definition keep_request :: raw_request where
  "keep_request = \<lparr>raw_method = ''GET'', raw_uri = ''/'', raw_major = ''1'', raw_minor = ''1'', raw_lines = []\<rparr>"

theorem http_pipelined_dropped_witness:
  "\<exists>c. connection_start (\<lambda>_. None) (connection_new ''./'') [Read_bytes (raw_bytes keep_request @ raw_bytes demo_request)] = ok c \<and> fresh c
    \<and> written c = [concat (to_buffers (build_response S_ok))]"
proof -
  have "raw_ok keep_request"
    by (simp add: raw_ok_def keep_request_def number_ok_def decimal_def int_max_def char_classes)
  moreover have "is_keep_alive (raw_meaning keep_request)" by (simp add: raw_meaning_def keep_request_def is_keep_alive_def)
  moreover have "handle_request (\<lambda>_. None) ''./'' (raw_meaning keep_request) response_new = build_response S_ok"
    by (simp add: raw_meaning_def keep_request_def handle_request_def contains_def)
  ultimately show ?thesis using http_pipelined_dropped[of keep_request demo_request "\<lambda>_. None" "''./''"] demo_ok by simp
qed

end
