(* ===== verification/Smtp_Model.thy ===== *)
theory Smtp_Model
  imports HttpRequest_Model
begin

unbundle bit_operations_syntax

text \<open>
  The SMTP client of the demos (demo_example/smtp/smtp_client.cpp): base64 and the text of a mail.

  Arithmetic on \<open>char\<close> is arithmetic on \<open>int\<close> after promotion, with negative values for bytes from 128 on;
  assignment to a \<open>char\<close> keeps the low eight bits.  The reference for the encoder is RFC 4648: the bits of
  the input in groups of six.
\<close>

section \<open>Base64\<close>

definition base64_chars :: string where
  "base64_chars = ''ABCDEFGHIJKLMNOPQRSTUVWXYZ'' @ ''abcdefghijklmnopqrstuvwxyz'' @ ''0123456789+/''"

abbreviation to_char :: "int \<Rightarrow> char" where
  "to_char x \<equiv> char_of x"

text \<open>\<open>is_base64\<close>; \<open>isalnum\<close> is undefined for an argument below \<open>EOF\<close>.\<close>

definition is_base64 :: "char \<Rightarrow> bool result" where
  "is_base64 c =
     (let v = int_of_char c
      in if v < - 1 then Inl (Undefined ''isalnum of a negative char'')
         else ok ((65 \<le> v \<and> v \<le> 90) \<or> (97 \<le> v \<and> v \<le> 122) \<or> (48 \<le> v \<and> v \<le> 57) \<or> c = CHR ''+'' \<or> c = CHR ''/''))"

text \<open>The four characters \<open>char_array_4\<close> computed from \<open>char_array_3\<close>.\<close>

definition char_array_4 :: "string \<Rightarrow> string" where
  "char_array_4 a3 =
     (let a = int_of_char (a3 ! 0); b = int_of_char (a3 ! 1); c = int_of_char (a3 ! 2)
      in [to_char (drop_bit 2 (a AND 0xfc)),
          to_char (push_bit 4 (a AND 0x03) + drop_bit 4 (b AND 0xf0)),
          to_char (push_bit 2 (b AND 0x0f) + drop_bit 6 (c AND 0xc0)),
          to_char (c AND 0x3f)])"

definition letter :: "char \<Rightarrow> char" where
  "letter c = base64_chars ! nat (int_of_char c)"

fun encode_loop :: "string \<Rightarrow> nat \<Rightarrow> string \<Rightarrow> string \<Rightarrow> nat \<times> string \<times> string" where
  "encode_loop [] i a3 ret = (i, a3, ret)"
| "encode_loop (x # xs) i a3 ret =
     (let a3' = a3[i := x]
      in if i + 1 = 3 then encode_loop xs 0 a3' (ret @ map letter (char_array_4 a3'))
         else encode_loop xs (i + 1) a3' ret)"

definition encode_rest :: "nat \<times> string \<times> string \<Rightarrow> string" where
  "encode_rest p =
     (case p of (i, a3, ret) \<Rightarrow>
        if i \<noteq> 0
        then let a3' = take i a3 @ replicate (3 - i) (CHR 0x00)
             in ret @ map letter (take (i + 1) (char_array_4 a3')) @ replicate (3 - i) (CHR ''='')
        else ret)"

text \<open>The array is not initialised in the code; it is written before it is read.\<close>

definition base64_encode :: "string \<Rightarrow> string" where
  "base64_encode str = encode_rest (encode_loop str 0 (replicate 3 (CHR 0x00)) [])"

text \<open>\<open>base64_chars.find(c)\<close>, with \<open>npos\<close> converted to a \<open>char\<close>.\<close>

definition find_letter :: "char \<Rightarrow> char" where
  "find_letter c =
     to_char (if c \<in> set base64_chars then int (length (takeWhile (\<lambda>d. d \<noteq> c) base64_chars)) else - 1)"

definition char_array_3 :: "string \<Rightarrow> string" where
  "char_array_3 a4 =
     (let a = int_of_char (a4 ! 0); b = int_of_char (a4 ! 1); c = int_of_char (a4 ! 2); d = int_of_char (a4 ! 3)
      in [to_char (push_bit 2 a + drop_bit 4 (b AND 0x30)),
          to_char (push_bit 4 (b AND 0xf) + drop_bit 2 (c AND 0x3c)),
          to_char (push_bit 6 (c AND 0x3) + d)])"

definition int_min :: int where
  "int_min = - (2 ^ 31)"

text \<open>Conversion of a size to \<open>int\<close>.\<close>

definition to_int :: "nat \<Rightarrow> int" where
  "to_int n = (int n + 2 ^ 31) mod 2 ^ 32 - 2 ^ 31"

text \<open>
  The loop of \<open>base64_decode\<close>.  Behind the last character \<open>encoded_string[in_]\<close> is a null character, which
  ends the loop.
\<close>

fun decode_loop :: "string \<Rightarrow> int \<Rightarrow> nat \<Rightarrow> string \<Rightarrow> string \<Rightarrow> (nat \<times> string \<times> string) result" where
  "decode_loop [] in_len i a4 ret = ok (i, a4, ret)"
| "decode_loop (x # xs) in_len i a4 ret =
     (if in_len = 0 then ok (i, a4, ret)
      else if in_len = int_min then Inl (Undefined ''signed overflow'')
      else if x = CHR ''='' then ok (i, a4, ret)
      else case is_base64 x of
        Inl e \<Rightarrow> Inl e
      | Inr False \<Rightarrow> ok (i, a4, ret)
      | Inr True \<Rightarrow>
          let a4' = a4[i := x]
          in if i + 1 = 4 then let a4'' = map find_letter a4' in decode_loop xs (in_len - 1) 0 a4'' (ret @ char_array_3 a4'')
             else decode_loop xs (in_len - 1) (i + 1) a4' ret)"

definition decode_rest :: "nat \<times> string \<times> string \<Rightarrow> string" where
  "decode_rest p =
     (case p of (i, a4, ret) \<Rightarrow>
        if i \<noteq> 0
        then let a4' = map find_letter (take i a4 @ replicate (4 - i) (CHR 0x00))
             in ret @ take (i - 1) (char_array_3 a4')
        else ret)"

definition base64_decode :: "string \<Rightarrow> string result" where
  "base64_decode s = map_sum (\<lambda>e. e) decode_rest (decode_loop s (to_int (length s)) 0 (replicate 4 (CHR 0x00)) [])"

section \<open>The text of a mail\<close>

record email_server =
  es_server :: string
  es_port :: string
  es_user :: string
  es_password :: string

record email_data =
  from_email :: string
  to_email :: "string list"
  subject :: string
  mail_text :: string
  filepath :: string

definition quote :: string where
  "quote = [CHR 0x22]"

definition load_file_contents :: "(string \<Rightarrow> string option) \<Rightarrow> string \<Rightarrow> string result" where
  "load_file_contents fs path =
     (case fs path of Some f \<Rightarrow> ok f | None \<Rightarrow> throw (Logic_error (path @ '' not exist'')))"

definition build_smtp_content :: "email_data \<Rightarrow> string" where
  "build_smtp_content d =
     ''Content-Type: multipart/mixed; boundary='' @ quote @ ''async_simple'' @ quote @ crlf @ crlf
     @ ''--async_simple'' @ crlf @ ''Content-Type: text/plain;'' @ crlf @ crlf
     @ mail_text d @ crlf @ crlf"

text \<open>The part of a path behind the last separator.\<close>

definition file_name :: "string \<Rightarrow> string" where
  "file_name path = rev (takeWhile (\<lambda>c. c \<noteq> CHR ''/'') (rev path))"

definition attachment_header :: "string \<Rightarrow> string" where
  "attachment_header filename =
     ''--async_simple'' @ crlf @ ''Content-Type: application/octet-stream; name='' @ quote @ filename @ quote @ crlf
     @ ''Content-Transfer-Encoding: base64'' @ crlf
     @ ''Content-Disposition: attachment; filename='' @ quote @ filename @ quote @ crlf @ crlf"

text \<open>\<open>(int)file_size / SEND_BUF_SIZE + 1\<close>, with division towards zero.\<close>

definition no_of_rows :: "nat \<Rightarrow> int" where
  "no_of_rows file_size =
     (let n = to_int file_size in (if n < 0 then - ((- n) div 1024) else n div 1024) + 1)"

definition rows :: "nat \<Rightarrow> string \<Rightarrow> string list" where
  "rows k encoded = map (\<lambda>i. take 1024 (drop (i * 1024) encoded)) [0..<k]"

text \<open>
  With a negative number of rows the loop goes on until the product \<open>i * SEND_BUF_SIZE\<close> overflows; the
  encoded text is then longer than \<open>2 ^ 31\<close>.
\<close>

definition build_smtp_file :: "(string \<Rightarrow> string option) \<Rightarrow> email_data \<Rightarrow> string result" where
  "build_smtp_file fs d =
     (if filepath d = [] then ok []
      else case load_file_contents fs (filepath d) of
        Inl e \<Rightarrow> Inl e
      | Inr f \<Rightarrow>
          if no_of_rows (length f) < 0 then Inl (Undefined ''signed overflow'')
          else ok (attachment_header (file_name (filepath d))
                   @ concat (map (\<lambda>r. r @ crlf) (rows (nat (no_of_rows (length f))) (base64_encode f)))))"

definition build_request :: "(string \<Rightarrow> string option) \<Rightarrow> email_server \<Rightarrow> email_data \<Rightarrow> string result" where
  "build_request fs srv d =
     map_sum (\<lambda>e. e)
       (\<lambda>file. ''EHLO '' @ es_server srv @ crlf @ ''AUTH LOGIN'' @ crlf @ base64_encode (es_user srv) @ crlf
          @ base64_encode (es_password srv) @ crlf @ ''MAIL FROM:<'' @ from_email d @ ''>'' @ crlf
          @ concat (map (\<lambda>t. ''RCPT TO:<'' @ t @ ''>'' @ crlf) (to_email d)) @ ''DATA'' @ crlf
          @ ''FROM: '' @ from_email d @ crlf @ concat (map (\<lambda>t. ''TO: '' @ t @ crlf) (to_email d))
          @ ''SUBJECT: '' @ subject d @ crlf @ build_smtp_content d @ file @ ''--async_simple--'' @ crlf @ ''.'' @ crlf)
       (build_smtp_file fs d)"

section \<open>The arithmetic of one group\<close>

abbreviation u :: "char \<Rightarrow> int" where
  "u c \<equiv> of_char c"

lemma u_range: "0 \<le> u c" "u c < 256"
proof -
  have "u c = int (of_char c)" by (rule of_nat_of_char[symmetric])
  moreover have "int (of_char c) < int 256" unfolding of_nat_less_iff by simp
  ultimately show "0 \<le> u c" "u c < 256" by simp_all
qed

text \<open>Masks below 256 do not see the sign of a \<open>char\<close>.\<close>

lemma and_byte:
  assumes "take_bit 8 m = (m :: int)"
  shows "int_of_char c AND m = u c AND m"
proof -
  have e: "x AND m = take_bit 8 x AND m" for x :: int
    using assms by (metis take_bit_and take_bit_eq_mask and.assoc and.commute)
  have "take_bit 8 (int_of_char c) = take_bit 8 (u c)" by (simp add: int_of_char_def take_bit_eq_mod)
  then show ?thesis using e[of "int_of_char c"] e[of "u c"] by simp
qed

lemma byte_fields:
  "drop_bit 2 (int_of_char c AND 0xfc) = u c div 4"
  "push_bit 4 (int_of_char c AND 0x03) = 16 * (u c mod 4)"
  "drop_bit 4 (int_of_char c AND 0xf0) = u c div 16"
  "push_bit 2 (int_of_char c AND 0x0f) = 4 * (u c mod 16)"
  "drop_bit 6 (int_of_char c AND 0xc0) = u c div 64"
  "int_of_char c AND 0x3f = u c mod 64"
proof -
  have m: "(3 :: int) = mask 2" "(15 :: int) = mask 4" "(63 :: int) = mask 6" by (simp_all add: mask_eq_exp_minus_1)
  have t: "take_bit 2 x = x mod 4" "take_bit 4 x = x mod 16" "take_bit 6 x = x mod 64" for x :: int
    by (simp_all add: take_bit_eq_mod)
  note r = u_range[of c]
  have d: "drop_bit 2 (u c) = u c div 4" "drop_bit 4 (u c) = u c div 16" "drop_bit 6 (u c) = u c div 64"
    by (simp_all add: drop_bit_eq_div)
  have "drop_bit 2 (u c AND 0xfc) = take_bit 6 (drop_bit 2 (u c))" by (simp add: drop_bit_and take_bit_eq_mask m(3)[symmetric])
  then show "drop_bit 2 (int_of_char c AND 0xfc) = u c div 4" using r by (simp add: and_byte d t)
  have "drop_bit 4 (u c AND 0xf0) = take_bit 4 (drop_bit 4 (u c))" by (simp add: drop_bit_and take_bit_eq_mask m(2)[symmetric])
  then show "drop_bit 4 (int_of_char c AND 0xf0) = u c div 16" using r by (simp add: and_byte d t)
  have "drop_bit 6 (u c AND 0xc0) = take_bit 2 (drop_bit 6 (u c))" by (simp add: drop_bit_and take_bit_eq_mask m(1)[symmetric])
  then show "drop_bit 6 (int_of_char c AND 0xc0) = u c div 64" using r by (simp add: and_byte d t)
  have w: "(x - 256) mod 4 = x mod 4" "(x - 256) mod 16 = x mod 16" "(x - 256) mod 64 = x mod 64" for x :: int
    using mod_mult_self1[of x "- 64" 4] mod_mult_self1[of x "- 16" 16] mod_mult_self1[of x "- 4" 64] by simp_all
  show "push_bit 4 (int_of_char c AND 0x03) = 16 * (u c mod 4)" "push_bit 2 (int_of_char c AND 0x0f) = 4 * (u c mod 16)"
    "int_of_char c AND 0x3f = u c mod 64"
    by (simp_all add: m take_bit_eq_mask[symmetric] push_bit_eq_mult del: mask_numeral)
      (simp_all add: int_of_char_def take_bit_eq_mod w)
qed

text \<open>The six-bit values, and their way through the alphabet.\<close>

lemma nth_short: "(a # as) ! 0 = a" "(a # b # as) ! 1 = b" "(a # b # c # as) ! 2 = c" "(a # b # c # d # as) ! 3 = d"
  by simp_all

lemma small_char: "0 \<le> x \<Longrightarrow> x < 128 \<Longrightarrow> int_of_char (to_char x) = x"
  by (simp add: int_of_char_def)

lemma char_array_4_eq:
  "char_array_4 [a, b, c] =
     map to_char [u a div 4, 16 * (u a mod 4) + u b div 16, 4 * (u b mod 16) + u c div 64, u c mod 64]"
  unfolding char_array_4_def Let_def nth_short byte_fields by simp

lemma sextet_range:
  "x \<in> set [u a div 4, 16 * (u a mod 4) + u b div 16, 4 * (u b mod 16) + u c div 64, u c mod 64] \<Longrightarrow> 0 \<le> x \<and> x < 64"
  using u_range[of a] u_range[of b] u_range[of c] pos_mod_bound[of 4 "u a"] pos_mod_bound[of 16 "u b"] by auto

lemma base64_chars_distinct: "length base64_chars = 64 \<and> distinct base64_chars"
  by (simp add: base64_chars_def)

lemma letter_eq: "0 \<le> x \<Longrightarrow> x < 64 \<Longrightarrow> letter (to_char x) = base64_chars ! nat x"
  by (simp add: letter_def small_char)

lemma find_nth:
  assumes "n < 64"
  shows "find_letter (base64_chars ! n) = to_char (int n)"
proof -
  have d: "n < length base64_chars" "distinct base64_chars" using assms base64_chars_distinct by simp_all
  have "takeWhile (\<lambda>d. d \<noteq> base64_chars ! n) base64_chars = take n base64_chars"
  proof (rule takeWhile_eq_take_P_nth)
    show "base64_chars ! i \<noteq> base64_chars ! n" if "i < n" "i < length base64_chars" for i
      using that d nth_eq_iff_index_eq[of base64_chars i n] by simp
  qed simp
  then show ?thesis using d by (simp add: find_letter_def)
qed

lemma find_letter_letter: "0 \<le> x \<Longrightarrow> x < 64 \<Longrightarrow> find_letter (letter (to_char x)) = to_char x"
  using find_nth[of "nat x"] by (simp add: letter_eq)

lemma letters_base64:
  assumes "0 \<le> x" and "x < 64"
  shows "is_base64 (letter (to_char x)) = ok True" and "letter (to_char x) \<noteq> CHR ''=''"
proof -
  have "list_all (\<lambda>c. is_base64 c = ok True \<and> c \<noteq> CHR ''='') base64_chars"
    by (simp add: base64_chars_def is_base64_def int_of_char_def)
  moreover have "letter (to_char x) \<in> set base64_chars" using assms base64_chars_distinct by (simp add: letter_eq)
  ultimately show "is_base64 (letter (to_char x)) = ok True" and "letter (to_char x) \<noteq> CHR ''=''" by (auto simp: list_all_iff)
qed

text \<open>Three bytes from four six-bit values.\<close>

lemma sextet_char: "0 \<le> x \<Longrightarrow> x < 64 \<Longrightarrow> int_of_char (to_char x) = x"
  by (rule small_char) simp_all

lemma char_array_3_eq:
  assumes "0 \<le> w" "w < 64" "0 \<le> x" "x < 64"
  shows "char_array_3 [to_char w, to_char x, y, z] ! 0 = to_char (4 * w + x div 16)"
    and "0 \<le> y' \<Longrightarrow> y' < 64 \<Longrightarrow> char_array_3 [to_char w, to_char x, to_char y', z] ! 1 = to_char (16 * (x mod 16) + y' div 4)"
    and "0 \<le> y' \<Longrightarrow> y' < 64 \<Longrightarrow> 0 \<le> z' \<Longrightarrow> z' < 64 \<Longrightarrow>
      char_array_3 [to_char w, to_char x, to_char y', to_char z'] ! 2 = to_char (64 * (y' mod 4) + z')"
proof -
  have m: "(3 :: int) = mask 2" "(15 :: int) = mask 4" by (simp_all add: mask_eq_exp_minus_1)
  have d: "drop_bit 4 (v AND 0x30) = v div 16" "drop_bit 2 (v AND 0x3c) = v div 4" if "0 \<le> v" "v < 64" for v :: int
  proof -
    have "drop_bit 4 (v AND 0x30) = take_bit 2 (drop_bit 4 v)" by (simp add: drop_bit_and take_bit_eq_mask m(1)[symmetric])
    then show "drop_bit 4 (v AND 0x30) = v div 16" using that by (simp add: drop_bit_eq_div take_bit_eq_mod)
    have "drop_bit 2 (v AND 0x3c) = take_bit 4 (drop_bit 2 v)" by (simp add: drop_bit_and take_bit_eq_mask m(2)[symmetric])
    then show "drop_bit 2 (v AND 0x3c) = v div 4" using that by (simp add: drop_bit_eq_div take_bit_eq_mod)
  qed
  have p: "push_bit 2 v = 4 * v" "push_bit 4 (v AND 0xf) = 16 * (v mod 16)" "push_bit 6 (v AND 0x3) = 64 * (v mod 4)" for v :: int
    by (simp_all add: m take_bit_eq_mask[symmetric] push_bit_eq_mult take_bit_eq_mod del: mask_numeral)
  show "char_array_3 [to_char w, to_char x, y, z] ! 0 = to_char (4 * w + x div 16)"
    using assms sextet_char[of x] sextet_char[of w] unfolding char_array_3_def Let_def nth_short
    by (simp only: d p)
  show "char_array_3 [to_char w, to_char x, to_char y', z] ! 1 = to_char (16 * (x mod 16) + y' div 4)" if "0 \<le> y'" "y' < 64"
    using assms that sextet_char[of x] sextet_char[of y'] unfolding char_array_3_def Let_def nth_short
    by (simp only: d p)
  show "char_array_3 [to_char w, to_char x, to_char y', to_char z'] ! 2 = to_char (64 * (y' mod 4) + z')"
    if "0 \<le> y'" "y' < 64" "0 \<le> z'" "z' < 64"
    using assms that sextet_char[of y'] sextet_char[of z'] unfolding char_array_3_def Let_def nth_short
    by (simp only: d p)
qed

section \<open>Encoding group by group\<close>

lemma induct3 [case_names none one two group]:
  assumes "P []" and "\<And>a. P [a]" and "\<And>a b. P [a, b]" and "\<And>a b c xs. P xs \<Longrightarrow> P (a # b # c # xs)"
  shows "P xs"
proof (induction xs rule: length_induct)
  case (1 xs)
  consider "xs = []" | a where "xs = [a]" | a b where "xs = [a, b]" | a b c ys where "xs = a # b # c # ys"
    by (metis list.exhaust)
  then show ?case using 1 assms by cases auto
qed

lemma length3: "length a3 = 3 \<Longrightarrow> \<exists>p q r. a3 = [p, q, r]"
  by (auto simp: numeral_3_eq_3 length_Suc_conv)

lemma length4: "length a4 = 4 \<Longrightarrow> \<exists>p q r s. a4 = [p, q, r, s]"
  by (auto simp: numeral_eq_Suc length_Suc_conv)

lemma encode_from: "length a3 = 3 \<Longrightarrow> encode_rest (encode_loop xs 0 a3 ret) = ret @ base64_encode xs"
proof (induction xs arbitrary: a3 ret rule: induct3)
  case none
  then show ?case by (simp add: encode_rest_def base64_encode_def)
next
  case (one a)
  then show ?case using length3 by (fastforce simp: encode_rest_def base64_encode_def numeral_3_eq_3)
next
  case (two a b)
  then show ?case using length3 by (fastforce simp: encode_rest_def base64_encode_def numeral_3_eq_3)
next
  case (group a b c xs)
  let ?g = "map letter (char_array_4 [a, b, c])"
  have l: "encode_loop (a # b # c # xs) 0 as r = encode_loop xs 0 [a, b, c] (r @ ?g)" if "length as = 3" for as r
    using length3[OF that] by (auto simp: numeral_3_eq_3 Let_def)
  have "base64_encode (a # b # c # xs) = ?g @ base64_encode xs"
    unfolding base64_encode_def[of "a # b # c # xs"] using l[of "replicate 3 (CHR 0x00)" "[]"] group.IH[of "[a, b, c]" ?g] by simp
  then show ?case using l[OF group.prems, of ret] group.IH[of "[a, b, c]" "ret @ ?g"] by simp
qed

lemma encode_simps:
  "base64_encode [] = []"
  "base64_encode [a] = map letter (take 2 (char_array_4 [a, CHR 0x00, CHR 0x00])) @ ''==''"
  "base64_encode [a, b] = map letter (take 3 (char_array_4 [a, b, CHR 0x00])) @ ''=''"
  "base64_encode (a # b # c # xs) = map letter (char_array_4 [a, b, c]) @ base64_encode xs"
proof -
  show "base64_encode (a # b # c # xs) = map letter (char_array_4 [a, b, c]) @ base64_encode xs"
    unfolding base64_encode_def[of "a # b # c # xs"]
    using encode_from[of "[a, b, c]" xs "map letter (char_array_4 [a, b, c])"] by (simp add: numeral_3_eq_3 Let_def)
qed (simp_all add: base64_encode_def encode_rest_def numeral_3_eq_3 numeral_2_eq_2)

lemma char_array_4_length: "length (char_array_4 a3) = 4"
  by (simp add: char_array_4_def Let_def)

lemma encode_length: "length (base64_encode s) = 4 * ((length s + 2) div 3)"
proof (induction s rule: induct3)
  case (group a b c xs)
  have "(length (a # b # c # xs) + 2) div 3 = (length xs + 2 + 3) div 3" by simp
  also have "\<dots> = (length xs + 2) div 3 + 1" by (simp only: div_add_self2)
  finally show ?case using group by (simp add: encode_simps char_array_4_length)
qed (simp_all add: encode_simps char_array_4_length)

section \<open>Decoding group by group\<close>

definition sextets :: "char \<Rightarrow> char \<Rightarrow> char \<Rightarrow> int list" where
  "sextets a b c = [u a div 4, 16 * (u a mod 4) + u b div 16, 4 * (u b mod 16) + u c div 64, u c mod 64]"

lemma letters_of_group: "map letter (char_array_4 [a, b, c]) = map (\<lambda>x. letter (to_char x)) (sextets a b c)"
  by (simp add: char_array_4_eq sextets_def)

lemma sextets_ok:
  assumes "x \<in> set (sextets a b c)"
  shows "is_base64 (letter (to_char x)) = ok True \<and> letter (to_char x) \<noteq> CHR ''='' \<and> find_letter (letter (to_char x)) = to_char x"
proof -
  have "0 \<le> x \<and> x < 64" using assms unfolding sextets_def by (rule sextet_range)
  then show ?thesis using letters_base64[of x] find_letter_letter[of x] by blast
qed

text \<open>The bytes come back.\<close>

lemma group_bytes:
  shows "char_array_3 (map to_char (sextets a b c)) = [a, b, c]"
    and "char_array_3 [to_char (sextets a b c ! 0), to_char (sextets a b c ! 1), y, z] ! 0 = a"
    and "char_array_3 [to_char (sextets a b c ! 0), to_char (sextets a b c ! 1), to_char (sextets a b c ! 2), z] ! 1 = b"
proof -
  obtain w x y' z' where s: "sextets a b c = [w, x, y', z']" by (simp add: sextets_def)
  have e: "w = u a div 4" "x = 16 * (u a mod 4) + u b div 16" "y' = 4 * (u b mod 16) + u c div 64" "z' = u c mod 64"
    using s by (simp_all add: sextets_def)
  have r: "0 \<le> w" "w < 64" "0 \<le> x" "x < 64" "0 \<le> y'" "y' < 64" "0 \<le> z'" "z' < 64"
    using sextet_range[of _ a b c] s unfolding sextets_def by auto
  note ua = u_range[of a] and ub = u_range[of b] and uc = u_range[of c]
  have d: "x div 16 = u a mod 4" "x mod 16 = u b div 16" using ub unfolding e(2) by auto
  have f: "y' div 4 = u b mod 16" "y' mod 4 = u c div 64" using uc unfolding e(3) by auto
  have t: "4 * w + x div 16 = u a" "16 * (x mod 16) + y' div 4 = u b" "64 * (y' mod 4) + z' = u c"
    unfolding e(1,4) d f by (rule mult_div_mod_eq)+
  have q0: "char_array_3 [to_char w, to_char x, y, z] ! 0 = a" for y z
    using char_array_3_eq(1)[OF r(1-4), of y z] unfolding t by simp
  have q1: "char_array_3 [to_char w, to_char x, to_char y', z] ! 1 = b" for z
    using char_array_3_eq(2)[OF r(1-6), of z] unfolding t by simp
  have q2: "char_array_3 [to_char w, to_char x, to_char y', to_char z'] ! 2 = c"
    using char_array_3_eq(3)[OF r] unfolding t by simp
  have l: "length as = 3 \<Longrightarrow> as = [as ! 0, as ! 1, as ! 2]" for as :: string
    by (auto simp: numeral_3_eq_3 numeral_2_eq_2 length_Suc_conv)
  have "length (char_array_3 as) = 3" for as by (simp add: char_array_3_def Let_def)
  from l[OF this, of "map to_char (sextets a b c)"] show "char_array_3 (map to_char (sextets a b c)) = [a, b, c]"
    unfolding s list.map q0 q1 q2 .
  show "char_array_3 [to_char (sextets a b c ! 0), to_char (sextets a b c ! 1), y, z] ! 0 = a"
    unfolding s nth_short by (rule q0)
  show "char_array_3 [to_char (sextets a b c ! 0), to_char (sextets a b c ! 1), to_char (sextets a b c ! 2), z] ! 1 = b"
    unfolding s nth_short by (rule q1)
qed

lemma sextets_list: "\<exists>w x y z. sextets a b c = [w, x, y, z]"
  by (simp add: sextets_def)

lemma decode_group:
  assumes "length a4 = 4"
  shows "decode_loop (map (\<lambda>x. letter (to_char x)) (sextets a b c) @ xs) (int (length xs) + 4) 0 a4 ret
    = decode_loop xs (int (length xs)) 0 (map to_char (sextets a b c)) (ret @ [a, b, c])"
proof -
  obtain w x y z where s: "sextets a b c = [w, x, y, z]" using sextets_list by blast
  obtain p q r t where a4: "a4 = [p, q, r, t]" using length4[OF assms] by blast
  have k: "is_base64 (letter (to_char v)) = ok True" "letter (to_char v) \<noteq> CHR ''=''" "find_letter (letter (to_char v)) = to_char v"
    if "v \<in> {w, x, y, z}" for v using sextets_ok[of v a b c] s that by auto
  have "char_array_3 [to_char w, to_char x, to_char y, to_char z] = [a, b, c]" using group_bytes(1)[of a b c] s by simp
  then show ?thesis unfolding s a4 by (simp add: k int_min_def Let_def numeral_2_eq_2 numeral_3_eq_3)
qed

lemma take_first: "length as = 3 \<Longrightarrow> take 1 as = [as ! 0] \<and> take 2 as = [as ! 0, as ! 1]"
  by (auto simp: numeral_3_eq_3 numeral_2_eq_2 length_Suc_conv)

lemma char_array_3_length: "length (char_array_3 as) = 3"
  by (simp add: char_array_3_def Let_def)

lemma decode_tail:
  assumes "length a4 = 4"
  shows "map_sum (\<lambda>e. e) decode_rest (decode_loop (base64_encode [a]) (int (length (base64_encode [a]))) 0 a4 ret) = ok (ret @ [a])"
proof -
  obtain p q r t where a4: "a4 = [p, q, r, t]" using length4[OF assms] by blast
  obtain w x y z where s: "sextets a (CHR 0x00) (CHR 0x00) = [w, x, y, z]" using sextets_list by blast
  note k = sextets_ok[of w a "CHR 0x00" "CHR 0x00"] sextets_ok[of x a "CHR 0x00" "CHR 0x00"]
  have e: "base64_encode [a] = letter (to_char w) # letter (to_char x) # ''==''"
    using letters_of_group[of a "CHR 0x00" "CHR 0x00"] s by (simp add: encode_simps take_map[symmetric])
  have d: "decode_loop (base64_encode [a]) 4 0 a4 ret = ok (2, [letter (to_char w), letter (to_char x), r, t], ret)"
    unfolding e a4 using k s by (simp add: int_min_def Let_def numeral_2_eq_2)
  have "map find_letter (take 2 [letter (to_char w), letter (to_char x), r, t] @ replicate (4 - 2) (CHR 0x00))
      = [to_char w, to_char x, find_letter (CHR 0x00), find_letter (CHR 0x00)]" using k s by (simp add: numeral_2_eq_2)
  moreover have "char_array_3 [to_char w, to_char x, v, v'] ! 0 = a" for v v'
    using group_bytes(2)[of a "CHR 0x00" "CHR 0x00"] s by simp
  ultimately have "decode_rest (2, [letter (to_char w), letter (to_char x), r, t], ret) = ret @ [a]"
    unfolding decode_rest_def Let_def using take_first[OF char_array_3_length] by simp
  then show ?thesis using d by (simp add: encode_length)
qed

lemma decode_tail2:
  assumes "length a4 = 4"
  shows "map_sum (\<lambda>e. e) decode_rest (decode_loop (base64_encode [a, b]) (int (length (base64_encode [a, b]))) 0 a4 ret) = ok (ret @ [a, b])"
proof -
  obtain p q r t where a4: "a4 = [p, q, r, t]" using length4[OF assms] by blast
  obtain w x y z where s: "sextets a b (CHR 0x00) = [w, x, y, z]" using sextets_list by blast
  note k = sextets_ok[of w a b "CHR 0x00"] sextets_ok[of x a b "CHR 0x00"] sextets_ok[of y a b "CHR 0x00"]
  have e: "base64_encode [a, b] = letter (to_char w) # letter (to_char x) # letter (to_char y) # ''=''"
    using letters_of_group[of a b "CHR 0x00"] s by (simp add: encode_simps take_map[symmetric])
  have d: "decode_loop (base64_encode [a, b]) 4 0 a4 ret = ok (3, [letter (to_char w), letter (to_char x), letter (to_char y), t], ret)"
    unfolding e a4 using k s by (simp add: int_min_def Let_def numeral_2_eq_2 numeral_3_eq_3)
  have "map find_letter (take 3 [letter (to_char w), letter (to_char x), letter (to_char y), t] @ replicate (4 - 3) (CHR 0x00))
      = [to_char w, to_char x, to_char y, find_letter (CHR 0x00)]" using k s by (simp add: numeral_3_eq_3)
  moreover have "char_array_3 [to_char w, to_char x, to_char y, v'] ! 0 = a" "char_array_3 [to_char w, to_char x, to_char y, v'] ! 1 = b" for v'
    using group_bytes(2,3)[of a b "CHR 0x00"] s by simp_all
  ultimately have "decode_rest (3, [letter (to_char w), letter (to_char x), letter (to_char y), t], ret) = ret @ [a, b]"
    unfolding decode_rest_def Let_def using take_first[OF char_array_3_length] by simp
  then show ?thesis using d by (simp add: encode_length)
qed

lemma decode_from:
  "length a4 = 4 \<Longrightarrow>
   map_sum (\<lambda>e. e) decode_rest (decode_loop (base64_encode s) (int (length (base64_encode s))) 0 a4 ret) = ok (ret @ s)"
proof (induction s arbitrary: a4 ret rule: induct3)
  case none
  then show ?case by (simp add: encode_simps decode_rest_def)
next
  case (group a b c xs)
  have l: "int (length (base64_encode (a # b # c # xs))) = int (length (base64_encode xs)) + 4"
    by (simp add: encode_simps char_array_4_length)
  have e: "base64_encode (a # b # c # xs) = map (\<lambda>x. letter (to_char x)) (sextets a b c) @ base64_encode xs"
    by (simp add: encode_simps letters_of_group)
  have "length (map to_char (sextets a b c)) = 4" by (simp add: sextets_def)
  from group.IH[OF this, of "ret @ [a, b, c]"] show ?case unfolding l unfolding e decode_group[OF group.prems] by simp
qed (rule decode_tail decode_tail2; assumption)+

section \<open>The reference: RFC 4648\<close>

text \<open>The bits of a byte from the highest to the lowest, and of a string.\<close>

fun byte_bits :: "char \<Rightarrow> bool list" where
  "byte_bits (Char b0 b1 b2 b3 b4 b5 b6 b7) = [b7, b6, b5, b4, b3, b2, b1, b0]"

definition number_of_bits :: "bool list \<Rightarrow> nat" where
  "number_of_bits bs = foldl (\<lambda>v b. 2 * v + of_bool b) 0 bs"

text \<open>Groups of six bits, the last one filled up with zeros.\<close>

function six_bits :: "bool list \<Rightarrow> nat list" where
  "six_bits bs =
     (if bs = [] then []
      else number_of_bits (take 6 bs @ replicate (6 - length bs) False) # six_bits (drop 6 bs))"
  by auto
termination by (relation "measure length") auto

declare six_bits.simps [simp del]

definition rfc4648_encode :: "string \<Rightarrow> string" where
  "rfc4648_encode s =
     map (\<lambda>n. base64_chars ! n) (six_bits (concat (map byte_bits s))) @ replicate ((3 - length s mod 3) mod 3) (CHR ''='')"

text \<open>The fields of a byte in terms of its bits.\<close>

lemma low_bits:
  "(of_bool p + 2 * (of_bool q + 2 * x)) div 4 = (x :: int)"
  "(of_bool p + 2 * (of_bool q + 2 * x)) mod 4 = of_bool p + 2 * of_bool q"
  "(of_bool p + 2 * (of_bool q + 2 * (of_bool r + 2 * (of_bool s + 2 * x)))) div 16 = x"
  "(of_bool p + 2 * (of_bool q + 2 * (of_bool r + 2 * (of_bool s + 2 * x)))) mod 16
     = of_bool p + 2 * (of_bool q + 2 * (of_bool r + 2 * of_bool s))"
  "(of_bool p + 2 * (of_bool q + 2 * (of_bool r + 2 * (of_bool s + 2 * (of_bool t + 2 * (of_bool v + 2 * x)))))) div 64 = x"
  "(of_bool p + 2 * (of_bool q + 2 * (of_bool r + 2 * (of_bool s + 2 * (of_bool t + 2 * (of_bool v + 2 * x)))))) mod 64
     = of_bool p + 2 * (of_bool q + 2 * (of_bool r + 2 * (of_bool s + 2 * (of_bool t + 2 * of_bool v))))"
  by (cases p; cases q; simp; presburger)+

lemma byte_bits_char: "byte_bits c = [b7, b6, b5, b4, b3, b2, b1, b0] \<Longrightarrow> c = Char b0 b1 b2 b3 b4 b5 b6 b7"
  by (cases c) simp

lemma byte_bits_8: "\<exists>b7 b6 b5 b4 b3 b2 b1 b0. byte_bits c = [b7, b6, b5, b4, b3, b2, b1, b0]"
  by (cases c) simp

lemma byte_fields_bits:
  assumes "byte_bits c = [b7, b6, b5, b4, b3, b2, b1, b0]"
  shows "u c div 4 = int (number_of_bits [b7, b6, b5, b4, b3, b2])" "u c mod 4 = int (number_of_bits [b1, b0])"
    "u c div 16 = int (number_of_bits [b7, b6, b5, b4])" "u c mod 16 = int (number_of_bits [b3, b2, b1, b0])"
    "u c div 64 = int (number_of_bits [b7, b6])" "u c mod 64 = int (number_of_bits [b5, b4, b3, b2, b1, b0])"
proof -
  have u: "u c = of_bool b0 + 2 * (of_bool b1 + 2 * (of_bool b2 + 2 * (of_bool b3 + 2 * (of_bool b4 + 2 * (of_bool b5
      + 2 * (of_bool b6 + 2 * of_bool b7))))))"
    unfolding byte_bits_char[OF assms] by simp
  show "u c div 4 = int (number_of_bits [b7, b6, b5, b4, b3, b2])" "u c mod 4 = int (number_of_bits [b1, b0])"
    "u c div 16 = int (number_of_bits [b7, b6, b5, b4])" "u c mod 16 = int (number_of_bits [b3, b2, b1, b0])"
    "u c div 64 = int (number_of_bits [b7, b6])" "u c mod 64 = int (number_of_bits [b5, b4, b3, b2, b1, b0])"
    unfolding u low_bits by (simp_all add: number_of_bits_def)
qed

lemma sextets_bits:
  assumes "byte_bits a = [a7, a6, a5, a4, a3, a2, a1, a0]" and "byte_bits b = [b7, b6, b5, b4, b3, b2, b1, b0]"
    and "byte_bits c = [c7, c6, c5, c4, c3, c2, c1, c0]"
  shows "sextets a b c = map (\<lambda>bs. int (number_of_bits bs))
    [[a7, a6, a5, a4, a3, a2], [a1, a0, b7, b6, b5, b4], [b3, b2, b1, b0, c7, c6], [c5, c4, c3, c2, c1, c0]]"
  unfolding sextets_def byte_fields_bits[OF assms(1)] byte_fields_bits[OF assms(2)] byte_fields_bits[OF assms(3)]
  by (simp add: number_of_bits_def)

text \<open>A group of three bytes makes four groups of six bits.\<close>

lemma six_bits_group:
  "map (\<lambda>n. base64_chars ! n) (six_bits (byte_bits a @ byte_bits b @ byte_bits c @ rest))
     = map letter (char_array_4 [a, b, c]) @ map (\<lambda>n. base64_chars ! n) (six_bits rest)"
proof -
  obtain a7 a6 a5 a4 a3 a2 a1 a0 where a: "byte_bits a = [a7, a6, a5, a4, a3, a2, a1, a0]" using byte_bits_8 by blast
  obtain b7 b6 b5 b4 b3 b2 b1 b0 where b: "byte_bits b = [b7, b6, b5, b4, b3, b2, b1, b0]" using byte_bits_8 by blast
  obtain c7 c6 c5 c4 c3 c2 c1 c0 where c: "byte_bits c = [c7, c6, c5, c4, c3, c2, c1, c0]" using byte_bits_8 by blast
  let ?g = "[[a7, a6, a5, a4, a3, a2], [a1, a0, b7, b6, b5, b4], [b3, b2, b1, b0, c7, c6], [c5, c4, c3, c2, c1, c0]]"
  have g: "sextets a b c = map (\<lambda>bs. int (number_of_bits bs)) ?g" by (rule sextets_bits[OF a b c])
  have step: "six_bits (x1 # x2 # x3 # x4 # x5 # x6 # xs) = number_of_bits [x1, x2, x3, x4, x5, x6] # six_bits xs" for x1 x2 x3 x4 x5 x6 xs
    by (simp add: six_bits.simps[of "x1 # x2 # x3 # x4 # x5 # x6 # xs"])
  have "letter (to_char (int (number_of_bits bs))) = base64_chars ! number_of_bits bs" if "bs \<in> set ?g" for bs
  proof -
    have "int (number_of_bits bs) \<in> set (sextets a b c)" using that unfolding g by auto
    then have "int (number_of_bits bs) < 64" using sextet_range[of _ a b c] unfolding sextets_def by blast
    then show ?thesis using letter_eq[of "int (number_of_bits bs)"] by simp
  qed
  then have "map letter (char_array_4 [a, b, c]) = map (\<lambda>bs. base64_chars ! number_of_bits bs) ?g"
    unfolding letters_of_group g by simp
  then show ?thesis unfolding a b c by (simp add: step)
qed

lemma six_bits_tail:
  "six_bits (byte_bits a) = take 2 (six_bits (byte_bits a @ byte_bits (CHR 0x00) @ byte_bits (CHR 0x00)))"
  "six_bits (byte_bits a @ byte_bits b) = take 3 (six_bits (byte_bits a @ byte_bits b @ byte_bits (CHR 0x00)))"
proof -
  obtain a7 a6 a5 a4 a3 a2 a1 a0 where a: "byte_bits a = [a7, a6, a5, a4, a3, a2, a1, a0]" using byte_bits_8 by blast
  obtain b7 b6 b5 b4 b3 b2 b1 b0 where b: "byte_bits b = [b7, b6, b5, b4, b3, b2, b1, b0]" using byte_bits_8 by blast
  show "six_bits (byte_bits a) = take 2 (six_bits (byte_bits a @ byte_bits (CHR 0x00) @ byte_bits (CHR 0x00)))"
    "six_bits (byte_bits a @ byte_bits b) = take 3 (six_bits (byte_bits a @ byte_bits b @ byte_bits (CHR 0x00)))"
    unfolding a b by (simp_all add: six_bits.simps numeral_eq_Suc)
qed

lemma six_bits_last:
  "map (\<lambda>n. base64_chars ! n) (six_bits (byte_bits a @ byte_bits b @ byte_bits c)) = map letter (char_array_4 [a, b, c])"
proof -
  have "six_bits [] = []" by (simp add: six_bits.simps)
  then show ?thesis using six_bits_group[of a b c "[]"] by simp
qed

lemma encode_is_rfc4648: "base64_encode s = rfc4648_encode s"
proof (induction s rule: induct3)
  case none
  then show ?case by (simp add: encode_simps rfc4648_encode_def six_bits.simps)
next
  case (one a)
  have "map (\<lambda>n. base64_chars ! n) (six_bits (byte_bits a)) = map letter (take 2 (char_array_4 [a, CHR 0x00, CHR 0x00]))"
    unfolding six_bits_tail(1) take_map[symmetric] six_bits_last ..
  then show ?case by (simp add: encode_simps rfc4648_encode_def numeral_2_eq_2)
next
  case (two a b)
  have "map (\<lambda>n. base64_chars ! n) (six_bits (byte_bits a @ byte_bits b)) = map letter (take 3 (char_array_4 [a, b, CHR 0x00]))"
    unfolding six_bits_tail(2) take_map[symmetric] six_bits_last ..
  then show ?case by (simp add: encode_simps rfc4648_encode_def numeral_2_eq_2)
next
  case (group a b c xs)
  have "length (a # b # c # xs) mod 3 = length xs mod 3" by simp
  then show ?case using group six_bits_group[of a b c "concat (map byte_bits xs)"] by (simp add: encode_simps rfc4648_encode_def)
qed

section \<open>Correctness\<close>

lemma to_int_small: "n < 2 ^ 31 \<Longrightarrow> to_int n = int n"
  by (simp add: to_int_def)

text \<open>
  C33.  Base64: the encoder gives what RFC 4648 prescribes, the bits of the text in groups of six with
  padding, and the decoder gives the text back, for every text, bytes from 128 on included, whose encoding has
  a length that fits an \<open>int\<close>.
\<close>

theorem base64_roundtrip:
  assumes "length (base64_encode s) < 2 ^ 31"
  shows "base64_encode s = rfc4648_encode s \<and> base64_decode (base64_encode s) = ok s"
  using decode_from[of "replicate 4 (CHR 0x00)" s "[]"] to_int_small[OF assms] encode_is_rfc4648
  by (simp add: base64_decode_def)

theorem base64_roundtrip_witness:
  "base64_encode [CHR 0xFF, CHR 0x00] = rfc4648_encode [CHR 0xFF, CHR 0x00]
    \<and> base64_decode (base64_encode [CHR 0xFF, CHR 0x00]) = ok [CHR 0xFF, CHR 0x00]"
proof (rule base64_roundtrip)
  show "length (base64_encode [CHR 0xFF, CHR 0x00]) < 2 ^ 31" by (simp add: encode_length)
qed

lemma rows_concat: "concat (rows k e) = take (k * 1024) e"
proof (induction k)
  case (Suc k)
  have "take (Suc k * 1024) e = take (k * 1024) e @ take 1024 (drop (k * 1024) e)"
    using take_add[of "k * 1024" 1024 e] by (simp add: add.commute)
  then show ?case using Suc by (simp add: rows_def)
qed (simp add: rows_def)

lemma no_of_rows_small: "n < 2 ^ 31 \<Longrightarrow> no_of_rows n = int (n div 1024 + 1)"
  by (simp add: no_of_rows_def to_int_small zdiv_int)

text \<open>
  C39.  The attachment of a mail.  The number of rows is computed from the size of the file, but the rows
  hold the encoded text, which is a third longer: a file of at most 768 bytes is sent completely, and of a file
  of more than 3072 bytes the end is always cut off.
\<close>

theorem attachment_rows:
  assumes "filepath d \<noteq> []" and "fs (filepath d) = Some f" and "length f < 2 ^ 31"
  shows "\<exists>rs. build_smtp_file fs d = ok (attachment_header (file_name (filepath d)) @ concat (map (\<lambda>r. r @ crlf) rs))
    \<and> concat rs = take (1024 * (length f div 1024 + 1)) (base64_encode f)
    \<and> (length f \<le> 768 \<longrightarrow> concat rs = base64_encode f)
    \<and> (3072 < length f \<longrightarrow> length (concat rs) < length (base64_encode f))"
proof -
  let ?k = "length f div 1024 + 1"
  have "build_smtp_file fs d = ok (attachment_header (file_name (filepath d)) @ concat (map (\<lambda>r. r @ crlf) (rows ?k (base64_encode f))))"
    using assms by (simp add: build_smtp_file_def load_file_contents_def no_of_rows_small nat_add_distrib)
  moreover have c: "concat (rows ?k (base64_encode f)) = take (1024 * ?k) (base64_encode f)"
    using rows_concat[of ?k] by (simp add: mult.commute)
  moreover have "take (1024 * ?k) (base64_encode f) = base64_encode f" if "length f \<le> 768"
  proof -
    have "(length f + 2) div 3 \<le> 256" using that by linarith
    then show ?thesis by (simp add: encode_length)
  qed
  moreover have "1024 * ?k < length (base64_encode f)" if "3072 < length f"
  proof -
    have "1024 * (length f div 1024) \<le> length f" by simp
    moreover have "length f \<le> 3 * ((length f + 2) div 3)" by linarith
    moreover have "1024 * (q + 1) < 4 * t" if "1024 * q \<le> n" "n \<le> 3 * t" "3072 < n" for q n t :: nat using that by (simp add: algebra_simps)
    ultimately show ?thesis using that unfolding encode_length by blast
  qed
  ultimately show ?thesis by (intro exI[of _ "rows ?k (base64_encode f)"]) (auto simp: min_def)
qed

theorem attachment_rows_witness:
  "\<exists>rs. build_smtp_file (\<lambda>_. Some (replicate 4000 (CHR ''x''))) \<lparr>from_email = [], to_email = [], subject = [], mail_text = [], filepath = ''a/b''\<rparr>
      = ok (attachment_header ''b'' @ concat (map (\<lambda>r. r @ crlf) rs))
    \<and> length (concat rs) < length (base64_encode (replicate 4000 (CHR ''x'')))"
  using attachment_rows[of "\<lparr>from_email = [], to_email = [], subject = [], mail_text = [], filepath = ''a/b''\<rparr>"
      "\<lambda>_. Some (replicate 4000 (CHR ''x''))" "replicate 4000 (CHR ''x'')"]
  by (auto simp: file_name_def)

end
