(* ===== verification/Demo_Model.thy ===== *)
theory Demo_Model
  imports Lazy_Model HttpServer_Model Future_Model
begin

text \<open>
  The demo programs that run on the library: the HTTP and echo servers as coroutines, counting characters
  in files with coroutines and futures (demo_example/), and the pool of I/O contexts.

  A coroutine is a term of \<open>prog\<close> that the machine of Lazy\_Model executes.  An asynchronous read or write is
  the awaitable of asio\_coro\_util.hpp: it never is ready, and its callback stores the outcome and resumes.
  The outcomes of the reads are arguments; a connection delivers pieces of bytes and then an error, which
  is end of file when the peer closes.
\<close>

section \<open>Asynchronous reads and writes\<close>

datatype demo_value =
    V_count "64 word"
  | V_read read_outcome
  | V_written
  | V_connection connection
  | V_echoed "string list"
  | V_texts "string list"
  | V_number int
  | V_connected bool
  | V_sent bool
  | V_mail string

text \<open>
  \<open>AsioCallbackAwaiter\<close>: never ready; the callback that asio is given stores its argument and resumes the
  coroutine, which takes the argument.
\<close>

definition AsioCallbackAwaiter :: "demo_value \<Rightarrow> demo_value prog" where
  "AsioCallbackAwaiter result = Co_external False (Inr result) rethrow"

definition async_read_some :: "read_outcome \<Rightarrow> demo_value prog" where
  "async_read_some ev = AsioCallbackAwaiter (V_read ev)"

text \<open>A write whose outcome the caller ignores, and one whose error code it looks at.\<close>

definition async_write :: "string \<Rightarrow> demo_value prog" where
  "async_write bytes = AsioCallbackAwaiter V_written"

definition async_write_checked :: "bool \<Rightarrow> string \<Rightarrow> demo_value prog" where
  "async_write_checked success bytes = AsioCallbackAwaiter (V_sent success)"

text \<open>\<open>resolve\<close> throws when it finds no address; the exception leaves the coroutine.\<close>

datatype connect_outcome = Resolve_failed | Connect_refused | Connected

definition async_connect :: "connect_outcome \<Rightarrow> demo_value prog" where
  "async_connect outcome =
     (if outcome = Resolve_failed then Co_throw (Runtime_error ''resolve'')
      else AsioCallbackAwaiter (V_connected (outcome = Connected)))"

section \<open>The HTTP server\<close>

text \<open>
  \<open>connection::start\<close> as a coroutine: each round awaits a read and, when it answers, a write.  Undefined
  behaviour in the parser is shown as an exception of its own.
\<close>

definition undefined_behaviour :: exc where
  "undefined_behaviour = Runtime_error ''undefined behaviour''"

definition connection_round ::
  "(string \<Rightarrow> string option) \<Rightarrow> connection \<Rightarrow> (connection \<Rightarrow> demo_value prog) \<Rightarrow> exc + demo_value \<Rightarrow> demo_value prog" where
  "connection_round fs c next r =
     (case r of
        Inl e \<Rightarrow> Co_throw e
      | Inr (V_read ev) \<Rightarrow>
          (case start_round fs c ev of
             Inl _ \<Rightarrow> Co_throw undefined_behaviour
           | Inr c' \<Rightarrow>
               let continue = (if serving c' then next c' else Co_return (V_connection c'))
               in if written c' = written c then continue
                  else Co_await None (async_write (last (written c')))
                         (\<lambda>w. case w of Inl e \<Rightarrow> Co_throw e | Inr _ \<Rightarrow> continue))
      | Inr _ \<Rightarrow> Co_throw undefined_behaviour)"

fun connection_coroutine :: "(string \<Rightarrow> string option) \<Rightarrow> string list \<Rightarrow> connection \<Rightarrow> demo_value prog" where
  "connection_coroutine fs [] c =
     Co_await None (async_read_some Read_error) (connection_round fs c (\<lambda>c'. Co_return (V_connection c')))"
| "connection_coroutine fs (b # bs) c =
     Co_await None (async_read_some (Read_bytes b)) (connection_round fs c (connection_coroutine fs bs))"

text \<open>\<open>start_one\<close> of the server.\<close>

definition start_one :: "(string \<Rightarrow> string option) \<Rightarrow> string list \<Rightarrow> demo_value prog" where
  "start_one fs bs = Co_await None (connection_coroutine fs bs (connection_new ''./'')) rethrow"

section \<open>The echo server\<close>

text \<open>\<open>session\<close>: \<open>eof\<close> says whether the error that ends the reads is the end of the file.\<close>

fun session :: "bool \<Rightarrow> string list \<Rightarrow> string list \<Rightarrow> demo_value prog" where
  "session eof [] sent =
     Co_await None (async_read_some Read_error)
       (\<lambda>r. if eof then Co_return (V_echoed sent) else Co_throw (Runtime_error ''system_error''))"
| "session eof (b # bs) sent =
     Co_await None (async_read_some (Read_bytes b))
       (\<lambda>r. case r of
          Inr (V_read (Read_bytes data)) \<Rightarrow>
            Co_await None (async_write data) (\<lambda>w. case w of Inl e \<Rightarrow> Co_throw e | Inr _ \<Rightarrow> session eof bs (sent @ [data]))
        | Inl e \<Rightarrow> Co_throw e
        | _ \<Rightarrow> Co_throw undefined_behaviour)"

section \<open>Counting characters in files\<close>

text \<open>The lines that \<open>std::getline\<close> reads from a file.\<close>

function file_lines :: "string \<Rightarrow> string list" where
  "file_lines s = (case read_line s of None \<Rightarrow> [] | Some (l, rest) \<Rightarrow> l # file_lines rest)"
  by auto
termination by (relation "measure length") (auto simp: read_line_def Let_def split: if_splits)

declare file_lines.simps [simp del]

text \<open>A file that cannot be opened has no lines.\<close>

definition lines_of :: "(string \<Rightarrow> string option) \<Rightarrow> string \<Rightarrow> string list" where
  "lines_of fs file = (case fs file of None \<Rightarrow> [] | Some s \<Rightarrow> file_lines s)"

definition CountCharInFileImpl :: "(string \<Rightarrow> string option) \<Rightarrow> string \<Rightarrow> char \<Rightarrow> 64 word" where
  "CountCharInFileImpl fs file c = foldl (\<lambda>ret line. ret + of_nat (count_list line c)) 0 (lines_of fs file)"

definition CountCharInFiles :: "(string \<Rightarrow> string option) \<Rightarrow> string list \<Rightarrow> char \<Rightarrow> 64 word" where
  "CountCharInFiles fs files c = foldl (\<lambda>n file. n + CountCharInFileImpl fs file c) 0 files"

definition CountCharFileCoroImpl :: "(string \<Rightarrow> string option) \<Rightarrow> string \<Rightarrow> char \<Rightarrow> demo_value prog" where
  "CountCharFileCoroImpl fs file c =
     Co_return (V_count (foldl (\<lambda>ret line. ret + of_nat (count_list line c)) 0 (lines_of fs file)))"

fun count_loop :: "(string \<Rightarrow> string option) \<Rightarrow> string list \<Rightarrow> char \<Rightarrow> 64 word \<Rightarrow> demo_value prog" where
  "count_loop fs [] c n = Co_return (V_count n)"
| "count_loop fs (file # files) c n =
     Co_await None (CountCharFileCoroImpl fs file c)
       (\<lambda>r. case r of Inl e \<Rightarrow> Co_throw e | Inr (V_count k) \<Rightarrow> count_loop fs files c (n + k) | Inr _ \<Rightarrow> Co_throw undefined_behaviour)"

definition CountCharInFilesCoro :: "(string \<Rightarrow> string option) \<Rightarrow> string list \<Rightarrow> char \<Rightarrow> demo_value prog" where
  "CountCharInFilesCoro fs files c = count_loop fs files c 0"

text \<open>
  \<open>do_for_each\<close> over futures.  \<open>later\<close> is the branch for a future without a result, which chains the rest of
  the range with \<open>thenTry\<close>.
\<close>

fun do_for_each ::
  "('v Future \<Rightarrow> 'a list \<Rightarrow> 'v store \<Rightarrow> ('v store, 'v Future) call) \<Rightarrow> ('a \<Rightarrow> 'v store \<Rightarrow> ('v store, 'v Future) call) \<Rightarrow> 'v
     \<Rightarrow> 'a list \<Rightarrow> 'v store \<Rightarrow> ('v store, 'v Future) call" where
  "do_for_each later func u [] s = (ok (makeReadyFuture (Value u)), s)"
| "do_for_each later func u (x # xs) s =
     bind_st (func x s) (\<lambda>F s1.
       case getTry F s1 of
         Inl e \<Rightarrow> (Inl e, s1)
       | Inr t \<Rightarrow>
           if hasError t then (ok F, s1)
           else (case Future_hasResult F s1 of
                   Inl e \<Rightarrow> (Inl e, s1)
                 | Inr True \<Rightarrow> do_for_each later func u xs s1
                 | Inr False \<Rightarrow> later F xs s1))"

section \<open>The pool of I/O contexts\<close>

record io_context_pool =
  io_contexts :: nat
  next_io_context :: "64 word"

definition io_context_pool_new :: "nat \<Rightarrow> io_context_pool" where
  "io_context_pool_new pool_size =
     \<lparr>io_contexts = (if pool_size = 0 then 1 else pool_size), next_io_context = 0\<rparr>"

definition current_io_context :: "io_context_pool \<Rightarrow> 64 word" where
  "current_io_context p = next_io_context p - 1"

text \<open>The index of the context that is handed out; an index past the end is undefined.\<close>

definition get_io_context :: "io_context_pool \<Rightarrow> nat result \<times> io_context_pool" where
  "get_io_context p =
     (let i = unat (next_io_context p); n = next_io_context p + 1
      in (if i < io_contexts p then ok i else Inl (Undefined ''vector index''),
          p\<lparr>next_io_context := if n = of_nat (io_contexts p) then 0 else n\<rparr>))"

fun get_many :: "nat \<Rightarrow> io_context_pool \<Rightarrow> nat result list \<times> io_context_pool" where
  "get_many 0 p = ([], p)"
| "get_many (Suc k) p = (let (r, p1) = get_io_context p; (rs, p2) = get_many k p1 in (r # rs, p2))"

section \<open>Servers\<close>

lemma eval_io: "eval env (async_read_some ev) loc st = (Inr (V_read ev), st)" "eval env (async_write b) loc st = (Inr V_written, st)"
  by (simp_all add: async_read_some_def async_write_def AsioCallbackAwaiter_def rethrow_def)

lemma connection_start_append:
  "connection_start fs c (xs @ ys) = (case connection_start fs c xs of Inl e \<Rightarrow> Inl e | Inr c' \<Rightarrow> connection_start fs c' ys)"
  by (induction xs arbitrary: c) (auto split: sum.split)

lemma eval_round:
  assumes "start_round fs c ev = ok c'"
  shows "eval env (connection_round fs c next (Inr (V_read ev))) loc st
    = (if serving c' then eval env (next c') loc st else (Inr (V_connection c'), st))"
  using assms by (simp add: connection_round_def Let_def eval_io)

text \<open>The coroutine computes what the loop computes.\<close>

lemma eval_connection:
  assumes "connection_start fs c (map Read_bytes bs @ [Read_error]) = ok c'" and "serving c"
  shows "eval env (connection_coroutine fs bs c) loc st = (Inr (V_connection c'), st)"
  using assms
proof (induction bs arbitrary: c)
  case Nil
  then have r: "start_round fs c Read_error = ok c'" by (auto split: sum.splits)
  then have "\<not> serving c'" using Nil.prems(2) by (auto simp: start_round_def)
  then show ?case using eval_round[OF r] by (simp add: eval_io)
next
  case (Cons b bs)
  then obtain c1 where r: "start_round fs c (Read_bytes b) = ok c1" "connection_start fs c1 (map Read_bytes bs @ [Read_error]) = ok c'"
    by (auto split: sum.splits)
  show ?case
  proof (cases "serving c1")
    case True
    then show ?thesis using Cons.IH[OF r(2)] eval_round[OF r(1)] by (simp add: eval_io)
  next
    case False
    then show ?thesis using closed_ignores r(2) eval_round[OF r(1)] by (simp add: eval_io)
  qed
qed


lemma demo_env_ok: "\<And>i. accepts demo_env By_yield i" "accepts demo_env By_reschedule 0" "\<not> in_ex demo_env 3"
  by (simp_all add: demo_env_def)


text \<open>The echo server sends back every piece, in order, until the peer closes.\<close>

lemma eval_session: "eval env (session True bs sent) loc st = (Inr (V_echoed (sent @ bs)), st)"
  by (induction bs arbitrary: sent) (simp_all add: eval_io)

lemma echo_serves:
  assumes "\<And>i. accepts env By_yield i" and "accepts env By_reschedule 0" and "\<not> in_ex env ex"
  shows "\<exists>m. syncAwait_on env (Some ex) (fst (get_return_object (session True bs []) (machine_new L)))
        (snd (get_return_object (session True bs []) (machine_new L))) = Some (ok (V_echoed bs), m) \<and> frames m = Map.empty"
proof -
  obtain m where "syncAwait_on env (Some ex) (fst (get_return_object (session True bs []) (machine_new L)))
        (snd (get_return_object (session True bs []) (machine_new L))) = Some (outcome_of (Inr (V_echoed ([] @ bs))), m)" "frames m = Map.empty"
    using syncAwait_rescheduled[OF assms eval_session] by blast
  then show ?thesis by (simp add: outcome_of_def)
qed

section \<open>Counting\<close>

lemma file_lines_count: "c \<noteq> lf \<Longrightarrow> sum_list (map (\<lambda>l. count_list l c) (file_lines s)) = count_list s c"
proof (induction s rule: file_lines.induct)
  case (1 s)
  show ?case
  proof (cases "s = []")
    case True
    then show ?thesis by (simp add: file_lines.simps[of "[]"] read_line_def)
  next
    case False
    let ?l = "takeWhile (\<lambda>c. c \<noteq> lf) s"
    have r: "read_line s = Some (?l, drop (length ?l + 1) s)" using False by (simp add: read_line_def Let_def)
    have "s = ?l @ dropWhile (\<lambda>c. c \<noteq> lf) s" by simp
    moreover have "count_list (dropWhile (\<lambda>c. c \<noteq> lf) s) c = count_list (drop (length ?l + 1) s) c"
    proof (cases "dropWhile (\<lambda>c. c \<noteq> lf) s")
      case Nil
      then show ?thesis by (simp add: dropWhile_eq_drop)
    next
      case (Cons d ds)
      then have "d = lf" using hd_dropWhile[of "\<lambda>c. c \<noteq> lf" s] by simp
      moreover have "drop (length ?l + 1) s = ds" using Cons by (simp add: dropWhile_eq_drop drop_Suc[symmetric]) (metis drop_Suc list.sel(3) tl_drop)
      ultimately show ?thesis using Cons 1(2) by simp
    qed
    ultimately have "count_list s c = count_list ?l c + count_list (drop (length ?l + 1) s) c" by (metis count_list_append)
    then show ?thesis using 1(1)[OF r refl 1(2)] r by (simp add: file_lines.simps[of s])
  qed
qed

lemma foldl_add_word: "foldl (\<lambda>n x. n + of_nat (f x)) v xs = v + of_nat (sum_list (map f xs))"
  by (induction xs arbitrary: v) (simp_all add: ac_simps)

text \<open>The characters in the files that can be opened.\<close>

definition occurrences :: "(string \<Rightarrow> string option) \<Rightarrow> char \<Rightarrow> string \<Rightarrow> nat" where
  "occurrences fs c file = (case fs file of None \<Rightarrow> 0 | Some s \<Rightarrow> count_list s c)"

lemma count_file: "c \<noteq> lf \<Longrightarrow> CountCharInFileImpl fs file c = of_nat (occurrences fs c file)"
  by (simp add: CountCharInFileImpl_def foldl_add_word lines_of_def file_lines_count occurrences_def split: option.split)

lemma eval_count_loop:
  "eval env (count_loop fs files c n) loc st = (Inr (V_count (foldl (\<lambda>n file. n + CountCharInFileImpl fs file c) n files)), st)"
  by (induction files arbitrary: n) (simp_all add: CountCharFileCoroImpl_def CountCharInFileImpl_def)

text \<open>
  The coroutine that counts a character in files, run on an executor, ends and returns what the
  synchronous program returns, and that is the number of occurrences modulo \<open>2 ^ 64\<close>, for every
  character but the line feed.
\<close>

theorem count_coroutine:
  assumes "\<And>i. accepts env By_yield i" and "accepts env By_reschedule 0" and "\<not> in_ex env ex" and "c \<noteq> lf"
  shows "\<exists>m. syncAwait_on env (Some ex) (fst (get_return_object (CountCharInFilesCoro fs files c) (machine_new L)))
        (snd (get_return_object (CountCharInFilesCoro fs files c) (machine_new L))) = Some (ok (V_count (CountCharInFiles fs files c)), m)
    \<and> frames m = Map.empty \<and> CountCharInFiles fs files c = of_nat (sum_list (map (occurrences fs c) files))"
proof -
  have "CountCharInFiles fs files c = of_nat (sum_list (map (occurrences fs c) files))"
    using foldl_add_word[of "occurrences fs c" 0 files] by (simp add: CountCharInFiles_def count_file[OF assms(4)])
  moreover have "eval env (CountCharInFilesCoro fs files c) None st = (Inr (V_count (CountCharInFiles fs files c)), st)" for st
    by (simp add: CountCharInFilesCoro_def CountCharInFiles_def eval_count_loop)
  ultimately show ?thesis using syncAwait_rescheduled[OF assms(1-3)] by (fastforce simp: outcome_of_def)
qed

theorem count_coroutine_witness:
  "\<exists>m. syncAwait_on demo_env (Some 3)
        (fst (get_return_object (CountCharInFilesCoro (\<lambda>f. if f = ''a'' then Some ''xyx'' else None) [''a'', ''b''] (CHR ''x'')) (machine_new (\<lambda>_. LazyLocalBase_signal 0))))
        (snd (get_return_object (CountCharInFilesCoro (\<lambda>f. if f = ''a'' then Some ''xyx'' else None) [''a'', ''b''] (CHR ''x'')) (machine_new (\<lambda>_. LazyLocalBase_signal 0))))
      = Some (ok (V_count 2), m)"
proof -
  let ?fs = "\<lambda>f. if f = ''a'' then Some ''xyx'' else None"
  have "CHR ''x'' \<noteq> lf" by simp
  from count_coroutine[OF demo_env_ok this, of ?fs "[''a'', ''b'']" "\<lambda>_. LazyLocalBase_signal 0"]
  show ?thesis by (auto simp: occurrences_def)
qed

section \<open>Loops over futures\<close>

text \<open>
  \<open>do_for_each\<close> asks for the result of a future before it asks whether there is one: a future that is not
  ready makes it throw, and the branch that would chain the rest is never taken.
\<close>

lemma do_for_each_pending:
  assumes "func x s = (ok F, s1)" and "Future_valid F" and "Future_hasResult F s1 = ok False"
  shows "do_for_each later func u (x # xs) s = (throw (Logic_error ''Future is not ready''), s1)"
  using assms by (auto simp: getTry_def Future_hasResult_def Future_valid_def split: if_splits option.splits)

lemma do_for_each_later: "do_for_each later func u xs s = do_for_each later' func u xs s"
proof (induction xs arbitrary: s)
  case (Cons x xs)
  have "False" if "getTry F s1 = Inr t" "Future_hasResult F s1 = ok False" for F s1 t
    using that by (auto simp: getTry_def Future_hasResult_def split: if_splits option.splits)
  then show ?case using Cons.IH by (auto simp: bind_st_def split: prod.splits sum.splits bool.splits)
qed simp

section \<open>Round robin\<close>

definition pool_at :: "nat \<Rightarrow> nat \<Rightarrow> io_context_pool" where
  "pool_at n i = \<lparr>io_contexts = n, next_io_context = of_nat i\<rparr>"

lemma get_at:
  assumes "i < n" and "n < 2 ^ 64"
  shows "get_io_context (pool_at n i) = (ok i, pool_at n (if i + 1 = n then 0 else i + 1))"
proof -
  have t: "take_bit 64 j = j" if "j \<le> n" for j using that assms(2) by (simp add: take_bit_nat_eq_self)
  have "unat (of_nat i :: 64 word) = i" using assms t[of i] by (simp add: unsigned_of_nat)
  moreover have "(of_nat (i + 1) :: 64 word) = of_nat n \<longleftrightarrow> i + 1 = n"
    unfolding word_of_nat_eq_iff using assms t[of "i + 1"] t[of n] by simp
  ultimately show ?thesis using assms by (simp add: get_io_context_def pool_at_def Let_def add.commute)
qed

lemma get_many_at:
  assumes "i < n" and "n < 2 ^ 64"
  shows "get_many k (pool_at n i) = (map (\<lambda>j. ok ((i + j) mod n)) [0..<k], pool_at n ((i + k) mod n))"
  using assms(1)
proof (induction k arbitrary: i)
  case (Suc k)
  let ?i = "if i + 1 = n then 0 else i + 1"
  have e: "(?i + j) mod n = (i + Suc j) mod n" for j
  proof (cases "i + 1 = n")
    case True
    then have "i + Suc j = j + n" by simp
    then show ?thesis using True by (simp only: mod_add_self2) simp
  qed simp
  have "map (\<lambda>j. ok ((i + j) mod n) :: nat result) [0..<Suc k] = ok i # map (\<lambda>j. ok ((?i + j) mod n)) [0..<k]"
    unfolding e using Suc.prems by (simp add: upt_conv_Cons map_Suc_upt[symmetric] del: upt_Suc)
  moreover have "?i < n" using Suc.prems by auto
  ultimately show ?case using Suc.IH[of ?i] get_at[OF Suc.prems assms(2)] e[of k] by simp
qed (use assms in simp)

text \<open>The contexts are handed out in turn; after a full round the index reported as current is not one.\<close>

lemma pool_round_robin:
  assumes "0 < n" and "n < 2 ^ 64"
  shows "fst (get_many k (io_context_pool_new n)) = map (\<lambda>j. ok (j mod n)) [0..<k]"
    and "current_io_context (snd (get_many n (io_context_pool_new n))) = - 1"
proof -
  have "io_context_pool_new n = pool_at n 0" using assms by (simp add: io_context_pool_new_def pool_at_def)
  then show "fst (get_many k (io_context_pool_new n)) = map (\<lambda>j. ok (j mod n)) [0..<k]"
    and "current_io_context (snd (get_many n (io_context_pool_new n))) = - 1"
    using get_many_at[OF assms] by (simp_all add: current_io_context_def pool_at_def)
qed

end
