(* ===== verification/DemoClients_Model.thy ===== *)
theory DemoClients_Model
  imports Demo_Model Smtp_Model Executor_Model
begin

unbundle bit_operations_syntax

text \<open>
  More of demo\_example/: the executor over an asio context and the coroutines of the mail client, the echo
  client and CountChar.cpp, executed by the machine of Lazy\_Model.
\<close>

section \<open>The executor over asio\<close>

text \<open>
  What \<open>AsioExecutor\<close> asks asio to do, in order: \<open>dispatch\<close> may run the function in place, \<open>post\<close> never
  does.  \<open>get_current\<close> is the pointer of the thread, 0 when null.
\<close>

datatype 'f asio_call = Dispatch nat 'f | Post nat 'f | Async_wait nat "64 word" 'f

record 'f asio_state =
  asio_calls :: "'f asio_call list"
  get_current :: nat

definition asio_state_new :: "'f asio_state" where
  "asio_state_new = \<lparr>asio_calls = [], get_current = 0\<rparr>"

definition asio_ask :: "'f asio_call \<Rightarrow> 'f asio_state \<Rightarrow> ('f asio_state, bool) call" where
  "asio_ask c s = (ok True, s\<lparr>asio_calls := asio_calls s @ [c]\<rparr>)"

definition asio_schedule :: "nat \<Rightarrow> 'f \<Rightarrow> 'f asio_state \<Rightarrow> ('f asio_state, bool) call" where
  "asio_schedule ex func = asio_ask (Dispatch ex func)"

definition asio_schedule_info :: "nat \<Rightarrow> 'f \<Rightarrow> 64 word \<Rightarrow> 'f asio_state \<Rightarrow> ('f asio_state, bool) call" where
  "asio_schedule_info ex func schedule_info =
     (if priority_level YIELD \<le> schedule_info AND 0xF then asio_ask (Post ex func) else asio_ask (Dispatch ex func))"

definition asio_checkin :: "nat \<Rightarrow> 'f \<Rightarrow> nat \<Rightarrow> 'f asio_state \<Rightarrow> ('f asio_state, bool) call" where
  "asio_checkin ex func context_ptr = asio_ask (Dispatch ex func)"

definition asio_checkout :: "nat \<Rightarrow> nat" where
  "asio_checkout ex = ex"

definition asio_schedule_after :: "nat \<Rightarrow> 'f \<Rightarrow> 64 word \<Rightarrow> 'f asio_state \<Rightarrow> 'f asio_state" where
  "asio_schedule_after ex func dur s = snd (asio_ask (Async_wait ex dur func) s)"

definition asio_currentThreadInExecutor :: "nat \<Rightarrow> 'f asio_state \<Rightarrow> bool" where
  "asio_currentThreadInExecutor ex s \<longleftrightarrow> get_current s = ex"

definition asio_currentContextId :: "'f asio_state \<Rightarrow> nat" where
  "asio_currentContextId s = (if get_current s \<noteq> 0 then get_current s else 0)"

inductive asio_step :: "nat \<Rightarrow> 'f asio_state \<Rightarrow> 'f asio_state \<Rightarrow> bool" for ex where
  Schedule: "asio_step ex s (snd (asio_schedule ex func s))"
| Schedule_info: "asio_step ex s (snd (asio_schedule_info ex func schedule_info s))"
| Checkin: "asio_step ex s (snd (asio_checkin ex func context_ptr s))"
| After: "asio_step ex s (asio_schedule_after ex func dur s)"

section \<open>CountChar\<close>

definition ReadFile :: "(string \<Rightarrow> string option) \<Rightarrow> string \<Rightarrow> demo_value prog" where
  "ReadFile fs filename = Co_return (V_texts (lines_of fs filename))"

definition CountLineChar :: "string \<Rightarrow> char \<Rightarrow> demo_value prog" where
  "CountLineChar line c = Co_return (V_number (to_int (count_list line c)))"

fun count_text :: "string list \<Rightarrow> char \<Rightarrow> int \<Rightarrow> demo_value prog" where
  "count_text [] c n = Co_return (V_number n)"
| "count_text (line # texts) c n =
     Co_await None (CountLineChar line c)
       (\<lambda>r. case r of
          Inl e \<Rightarrow> Co_throw e
        | Inr (V_number k) \<Rightarrow>
            if int_min \<le> n + k \<and> n + k \<le> int_max then count_text texts c (n + k) else Co_throw undefined_behaviour
        | Inr _ \<Rightarrow> Co_throw undefined_behaviour)"

definition CountTextChar :: "string list \<Rightarrow> char \<Rightarrow> demo_value prog" where
  "CountTextChar texts c = count_text texts c 0"

definition CountFileCharNum :: "(string \<Rightarrow> string option) \<Rightarrow> string \<Rightarrow> char \<Rightarrow> demo_value prog" where
  "CountFileCharNum fs filename c =
     Co_await None (ReadFile fs filename)
       (\<lambda>r. case r of
          Inl e \<Rightarrow> Co_throw e
        | Inr (V_texts contents) \<Rightarrow> Co_await None (CountTextChar contents c) rethrow
        | Inr _ \<Rightarrow> Co_throw undefined_behaviour)"

section \<open>The echo client\<close>

definition system_error :: exc where
  "system_error = Runtime_error ''system_error''"

definition write_buf :: string where
  "write_buf = ''hello async_simple'' @ replicate 1006 (CHR 0x00)"

text \<open>The rounds that are left, whether the error behind the pieces \<open>bs\<close> is the end of the file, and the replies so far.\<close>

fun echo_rounds :: "nat \<Rightarrow> bool \<Rightarrow> string list \<Rightarrow> string list \<Rightarrow> demo_value prog" where
  "echo_rounds 0 eof bs got = Co_return (V_echoed got)"
| "echo_rounds (Suc n) eof bs got =
     Co_await None (async_write write_buf)
       (\<lambda>w. case w of
          Inl e \<Rightarrow> Co_throw e
        | Inr _ \<Rightarrow>
            (case bs of
               [] \<Rightarrow>
                 Co_await None (async_read_some Read_error)
                   (\<lambda>r. if eof then Co_return (V_echoed got) else Co_throw system_error)
             | b # bs' \<Rightarrow>
                 Co_await None (async_read_some (Read_bytes b))
                   (\<lambda>r. case r of
                      Inl e \<Rightarrow> Co_throw e
                    | Inr (V_read (Read_bytes data)) \<Rightarrow> echo_rounds n eof bs' (got @ [data])
                    | Inr _ \<Rightarrow> Co_throw undefined_behaviour)))"

definition echo_client :: "connect_outcome \<Rightarrow> bool \<Rightarrow> string list \<Rightarrow> demo_value prog" where
  "echo_client outcome eof bs =
     Co_await None (async_connect outcome)
       (\<lambda>r. case r of
          Inl e \<Rightarrow> Co_throw e
        | Inr (V_connected True) \<Rightarrow> echo_rounds 100000 eof bs []
        | Inr _ \<Rightarrow> Co_throw system_error)"

section \<open>The mail client\<close>

text \<open>The loop that waits for the answer of the server; after the pieces \<open>bs\<close> a read fails.\<close>

fun await_mail_ok :: "string list \<Rightarrow> demo_value prog \<Rightarrow> demo_value prog" where
  "await_mail_ok [] ret =
     Co_await None (async_read_some Read_error) (\<lambda>r. Co_throw system_error)"
| "await_mail_ok (b # bs) ret =
     Co_await None (async_read_some (Read_bytes b))
       (\<lambda>r. case r of
          Inl e \<Rightarrow> Co_throw e
        | Inr (V_read (Read_bytes texts)) \<Rightarrow>
            if contains ''250 Mail OK'' texts then ret else await_mail_ok bs ret
        | Inr _ \<Rightarrow> Co_throw undefined_behaviour)"

text \<open>
  \<open>send_email\<close> without SSL.  \<open>request\<close> is what the stream buffer \<open>request_\<close> of the client holds;
  nothing ever consumes it.  The value is what it holds, and what was written, when the call returns.
\<close>

definition send_email ::
  "(string \<Rightarrow> string option) \<Rightarrow> connect_outcome \<Rightarrow> bool \<Rightarrow> string list \<Rightarrow> email_server \<Rightarrow> email_data \<Rightarrow> string \<Rightarrow> demo_value prog" where
  "send_email fs outcome writes bs srv d request =
     Co_await None (async_connect outcome)
       (\<lambda>r. case r of
          Inl e \<Rightarrow> Co_throw e
        | Inr (V_connected True) \<Rightarrow>
            (case build_request fs srv d of
               Inl (Throws e) \<Rightarrow> Co_throw e
             | Inl _ \<Rightarrow> Co_throw undefined_behaviour
             | Inr mail \<Rightarrow>
                 Co_await None (async_write_checked writes (request @ mail))
                   (\<lambda>w. case w of
                      Inl e \<Rightarrow> Co_throw e
                    | Inr (V_sent True) \<Rightarrow> await_mail_ok bs (Co_return (V_mail (request @ mail)))
                    | Inr _ \<Rightarrow> Co_throw system_error))
        | Inr _ \<Rightarrow> Co_throw system_error)"

section \<open>Properties of the executor\<close>

text \<open>
  No operation of the executor sets the pointer of the thread, so that it never knows that it runs on its own
  context.
\<close>

lemma asio_step_current: "asio_step ex s t \<Longrightarrow> get_current t = get_current s"
  by (erule asio_step.cases)
     (auto simp: asio_schedule_def asio_schedule_info_def asio_checkin_def asio_schedule_after_def asio_ask_def)

lemma asio_never_inside:
  assumes "(asio_step ex)\<^sup>*\<^sup>* asio_state_new s" and "ex \<noteq> 0"
  shows "\<not> asio_currentThreadInExecutor ex s \<and> asio_currentContextId s = 0"
proof -
  from assms(1) have "get_current s = 0" by induction (simp_all add: asio_state_new_def asio_step_current)
  then show ?thesis using assms(2) by (simp add: asio_currentThreadInExecutor_def asio_currentContextId_def)
qed

text \<open>A coroutine that yields is posted, everything more urgent may run in place.\<close>

lemma asio_priorities:
  "snd (asio_schedule_info ex func (priority_level p) s) =
     s\<lparr>asio_calls := asio_calls s @ [if p = YIELD \<or> p = LOWEST then Post ex func else Dispatch ex func]\<rparr>"
  by (cases p) (simp_all add: asio_schedule_info_def asio_ask_def)

section \<open>Properties of the clients\<close>

lemma eval_connect:
  "eval env (async_connect outcome) loc st =
     (if outcome = Resolve_failed then Inl (Runtime_error ''resolve'') else Inr (V_connected (outcome = Connected)), st)"
  by (simp add: async_connect_def AsioCallbackAwaiter_def rethrow_def)

lemma eval_write_checked: "eval env (async_write_checked success b) loc st = (Inr (V_sent success), st)"
  by (simp add: async_write_checked_def AsioCallbackAwaiter_def rethrow_def)

text \<open>Counting returns the number of occurrences as long as it fits an \<open>int\<close>.\<close>

lemma eval_count_text:
  "0 \<le> n \<Longrightarrow> n + int (sum_list (map (\<lambda>l. count_list l c) ls)) < 2 ^ 31 \<Longrightarrow>
     eval env (count_text ls c n) loc st = (Inr (V_number (n + int (sum_list (map (\<lambda>l. count_list l c) ls)))), st)"
proof (induction ls arbitrary: n)
  case (Cons l ls)
  have "to_int (count_list l c) = int (count_list l c)" using Cons.prems by (intro to_int_small) simp
  moreover have "int_min \<le> n + int (count_list l c) \<and> n + int (count_list l c) \<le> int_max"
    using Cons.prems by (simp add: int_min_def int_max_def)
  ultimately show ?case using Cons.IH[of "n + int (count_list l c)"] Cons.prems by (simp add: CountLineChar_def algebra_simps)
qed simp

lemma count_file_char_num:
  assumes "\<And>i. accepts env By_yield i" and "c \<noteq> lf" and "occurrences fs c filename < 2 ^ 31"
  shows "\<exists>m. syncAwait env False (fst (get_return_object (CountFileCharNum fs filename c) (machine_new L)))
        (snd (get_return_object (CountFileCharNum fs filename c) (machine_new L)))
      = Some (ok (V_number (int (occurrences fs c filename))), m) \<and> frames m = Map.empty"
proof -
  have o: "sum_list (map (\<lambda>l. count_list l c) (lines_of fs filename)) = occurrences fs c filename"
    using assms(2) by (simp add: lines_of_def occurrences_def file_lines_count split: option.split)
  have "eval env (CountFileCharNum fs filename c) None st = (Inr (V_number (int (occurrences fs c filename))), st)" for st
    using eval_count_text[of 0 c "lines_of fs filename" env] assms(3)
    by (simp add: CountFileCharNum_def ReadFile_def CountTextChar_def rethrow_def o)
  from syncAwait_direct[OF assms(1) this] show ?thesis by (auto simp: outcome_of_def)
qed

text \<open>The echo client takes one reply per message, and ends early when the server closes.\<close>

lemma eval_echo_rounds:
  "eval env (echo_rounds n eof bs got) loc st =
     (if n \<le> length bs \<or> eof then Inr (V_echoed (got @ take n bs)) else Inl system_error, st)"
proof (induction n arbitrary: bs got)
  case (Suc n)
  then show ?case by (cases bs) (simp_all add: eval_io)
qed simp

lemma echo_client_result:
  "eval env (echo_client Connected eof bs) loc st =
     (if 100000 \<le> length bs \<or> eof then Inr (V_echoed (take 100000 bs)) else Inl system_error, st)"
  by (simp add: echo_client_def eval_connect eval_echo_rounds del: echo_rounds.simps)

lemma eval_await_ok:
  "eval env (await_mail_ok bs (Co_return v)) loc st =
     (if \<exists>b\<in>set bs. contains ''250 Mail OK'' b then Inr v else Inl system_error, st)"
  by (induction bs) (simp_all add: eval_io)

text \<open>
  The mail client returns exactly when it is connected, the mail can be built and written, and the
  acknowledgement lies in one of the pieces the server sends; it then has written the mail behind whatever
  \<open>request_\<close> held before.
\<close>

definition mail_outcome ::
  "(string \<Rightarrow> string option) \<Rightarrow> connect_outcome \<Rightarrow> bool \<Rightarrow> string list \<Rightarrow> email_server \<Rightarrow> email_data \<Rightarrow> string \<Rightarrow> exc + demo_value" where
  "mail_outcome fs outcome writes bs srv d request =
     (if outcome = Resolve_failed then Inl (Runtime_error ''resolve'')
      else if outcome \<noteq> Connected then Inl system_error
      else case build_request fs srv d of
        Inl (Throws e) \<Rightarrow> Inl e
      | Inl _ \<Rightarrow> Inl undefined_behaviour
      | Inr mail \<Rightarrow>
          if writes \<and> (\<exists>b\<in>set bs. contains ''250 Mail OK'' b) then Inr (V_mail (request @ mail)) else Inl system_error)"

lemma eval_send_email:
  "eval env (send_email fs outcome writes bs srv d request) loc st = (mail_outcome fs outcome writes bs srv d request, st)"
  by (cases outcome; cases writes)
     (auto simp: send_email_def mail_outcome_def eval_connect eval_write_checked eval_await_ok split: failure.split sum.split)

lemma send_email_result:
  assumes "\<And>i. accepts env By_yield i"
  shows "\<exists>m. syncAwait env False (fst (get_return_object (send_email fs outcome writes bs srv d request) (machine_new L)))
        (snd (get_return_object (send_email fs outcome writes bs srv d request) (machine_new L)))
      = Some (outcome_of (mail_outcome fs outcome writes bs srv d request), m) \<and> frames m = Map.empty"
  using syncAwait_direct[OF assms eval_send_email] by blast

text \<open>
  An acknowledgement that arrives in two pieces is missed, and a client used twice sends its first mail
  again.
\<close>

lemma mail_ok_split:
  "contains ''250 Mail OK'' (concat [''250 Mail'', '' OK'']) \<and>
     eval env (await_mail_ok [''250 Mail'', '' OK''] (Co_return v)) loc st = (Inl system_error, st)"
  by (simp add: contains_def eval_await_ok del: await_mail_ok.simps)

lemma mail_sent_twice:
  assumes "build_request fs srv d = ok mail1" and "build_request fs srv d' = ok mail2" and "\<exists>b\<in>set bs. contains ''250 Mail OK'' b"
  shows "eval env (Co_await None (send_email fs Connected True bs srv d []) (\<lambda>r. case r of
            Inr (V_mail request) \<Rightarrow> send_email fs Connected True bs srv d' request | _ \<Rightarrow> Co_throw undefined_behaviour)) loc st
    = (Inr (V_mail (mail1 @ mail2)), st)"
  using assms by (simp add: eval_send_email mail_outcome_def)

end
