(* ===== verification/Spec2Isabelle.thy ===== *)
theory Spec2Isabelle
  imports FutureState_Model Signal_Model SignalRace_Model Executor_Model Sync_Model Future_Model FutureWait_Model Lazy_Model
    LazyHandle_Model Collect_Model Uthread_Model UthreadAwait_Model Generator_Model FutureAwaiter_Model
    Allocator_Model Function_Model HttpServer_Model Smtp_Model Demo_Model
    DemoClients_Model
begin

text \<open>
  Verification of async_simple, a C++ library of coroutines, futures, executors and stackful threads
  (src/async_simple), and of the programs that demonstrate it (src/demo\_example).

  \<^bold>\<open>The program and how its parts interact.\<close>  A \<open>Promise\<close> and a \<open>Future\<close> share a reference-counted
  \<open>FutureState\<close>, on which the thread that sets the result and the thread that installs a continuation
  meet; the continuation runs in place or on an \<open>Executor\<close>.  A \<open>Lazy\<close> is a coroutine that starts when it is
  awaited and transfers control to its awaiter at its end; other awaitables are wrapped so that the
  coroutine returns to its executor.  \<open>Signal\<close> and \<open>Slot\<close> carry cancellation into timers, futures and
  collections.  Asynchronous locks and conditions suspend coroutines instead of threads; \<open>collectAll\<close>
  and \<open>collectAny\<close> wait for several inputs.  Uthreads are stackful coroutines that await futures by
  switching stacks.  \<open>SimpleExecutor\<close> runs everything on a \<open>ThreadPool\<close> with one queue per worker.
  The demos are servers and clients written as \<open>Lazy\<close> coroutines over a vendored copy of asio: a read or a
  write of a socket suspends the coroutine until a callback resumes it.

  \<^bold>\<open>Conventions.\<close>  Structures are records, enumerations datatypes, counters words of their width.  A
  call returns \<open>failure + value\<close> and, where it has state, the state it leaves: a throw, a failed
  assertion and undefined behaviour (null or dangling pointers, use after destruction) are values, so
  that a theorem can exclude them.  Concurrent code is a step relation whose steps are the atomic
  accesses (or, where a mutex protects them, the critical sections), and is verified through the
  locales of Prelude: \<open>inv_system\<close> (an invariant of the reachable states), \<open>bounded_system\<close> (a rank that
  every step decreases: runs end) and \<open>simulation\<close> (refinement).  Memory is sequentially consistent.

  \<^bold>\<open>Theories and the code they model.\<close>
  \<^item> Prelude: failures, \<open>logicAssert\<close> (Common.h), reachability and the three locales, lists and words.
    Ownership\_Base: the locale \<open>owners\<close> of linear ownership, used for functors, coroutine frames and signal
    handlers.
  \<^item> Try\_Model: Try.h and LocalState.h.
  \<^item> FutureState\_Model: FutureState.h.  Every member as a function, and \<open>setResult\<close> and \<open>setContinuation\<close>
    step by step: in every interleaving the continuation runs exactly once with the result and all
    references are returned (\<open>handover_safe\<close>, \<open>handover_completes\<close>).
  \<^item> Future\_Model: Future.h and Promise.h on a store of shared states; chains of continuations compute
    in the \<open>Try\<close> monad (\<open>future_chain\<close>, \<open>broken_promise_chain\<close>).  FutureWait\_Model: the blocking \<open>wait\<close> and
    \<open>get\<close>, two threads over a mutex, a condition variable and a flag (\<open>wait_returns\<close>).
  \<^item> Signal\_Model: Signal.h, with handlers, filters and chained signals (\<open>signal_trigger_once\<close>,
    \<open>emits_delivers\<close>); a public operation is one step.  SignalRace\_Model: concurrent emissions against
    \<open>emplace\<close> and \<open>clear\<close> at the level of atomic accesses (\<open>signal_race_safe\<close>), and the two races the code
    loses (\<open>emplace_lost\<close>, \<open>repeated_handler_race\<close>).
  \<^item> Queue\_Model: util/Queue.h (interface \<open>fifo\<close>) and util/Condition.h.  ThreadPool\_Model:
    util/ThreadPool.h with stealing, shutdown and core bindings (\<open>pool_conservation\<close>, \<open>pool_shutdown\<close>).
    Executor\_Model: Executor.h and executors/*.h, with timers and I/O.
  \<^item> Lock\_Model: coro/SpinLock.h and coro/Mutex.h at the level of atomic accesses (interface
    \<open>lock_system\<close>).  CondVar\_Model: coro/ConditionVariable.h, and the monitor \<open>monitor_client\<close> through which
    Sync\_Model verifies coro/Semaphore.h, coro/Latch.h and coro/SharedMutex.h.
  \<^item> Lazy\_Model: coro/Lazy.h, LazyLocalBase.h, Dispatch.h, ViaCoroutine.h, DetachedCoroutine.h,
    SyncAwait.h and Sleep.h.  A coroutine body is a term of \<open>prog\<close>; \<open>machine\<close> has the frames, the queue of the
    executors and the external waits, and \<open>eval\<close> says what a body means.  The machine implements \<open>eval\<close>
    (\<open>syncAwait_refines_eval\<close>).  LazyHandle\_Model: the objects that own frames (\<open>lazy_frames_owned\<close>),
    \<open>Lazy<void>\<close>, and the checkout and checkin of foreign awaitables.
  \<^item> FutureAwaiter\_Model: coro/FutureAwaiter.h and ResumeBySchedule.h: result against cancellation.
  \<^item> Generator\_Model: coro/Generator.h with nested generators.  Allocator\_Model: coro/PromiseAllocator.h.
  \<^item> Collect\_Model: coro/CountEvent.h, coro/Collect.h and Collect.h, as interleavings of the loop that
    starts the inputs with their callbacks; \<open>collectAll\<close> refines an abstract gathering of results.
  \<^item> Uthread\_Model: uthread/*.h and uthread/internal/thread.cc, with the jump between stacks by its
    documented behaviour.  UthreadAwait\_Model: the three forms of \<open>await\<close> (uthread/Await.h) on the store
    of Future\_Model.
  \<^item> Function\_Model: util/move\_only\_function.h and MoveWrapper.h: ownership and types of the erased
    functors (\<open>function_ownership\<close>, \<open>function_types\<close>).
  \<^item> HttpRequest\_Model: demo\_example/http/http\_request.hpp, a parser that takes one character at a time;
    it accepts exactly the language of a grammar (\<open>http_request_language\<close>), and its answer does not depend on
    how the input is cut.  HttpServer\_Model: http/http\_response.hpp, coroutine\_http/connection.hpp and what
    http\_client.cpp does with a response: a connection answers its requests in order (\<open>http_serves\<close>) and
    reads files below its root only (\<open>http_path_confined\<close>).
  \<^item> Smtp\_Model: smtp/smtp\_client.cpp, base64 and the text of a mail (\<open>base64_roundtrip\<close>,
    \<open>attachment_rows\<close>).
  \<^item> Demo\_Model: the coroutines of the HTTP connection, the echo server and ReadFiles.cpp as bodies of
    Lazy\_Model, so that a request travels through parser, handler, coroutine machine, executor and client
    (\<open>http_exchange\<close>); \<open>do_for_each\<close> on the store of Future\_Model; io\_context\_pool.hpp.
    DemoClients\_Model: \<open>AsioExecutor\<close>, \<open>send_email\<close>, the echo client and CountChar.cpp in the same way.
  \<^item> This theory composes coroutines, collections and windows: \<open>windowed_coroutines\<close>.

  \<^bold>\<open>Loops, fuel and bounds.\<close>  Loops over data are terminating functions.  \<open>drive\<close>, which runs the
  coroutine machine, \<open>consume\<close>, the loop over a generator, and \<open>ChangeLaziessExecutorTo\<close> are partial functions whose value \<open>None\<close> is not
  returning; the theorems show that they return.  \<open>run_jobs\<close> takes a bound on the number of callbacks, and
  \<open>n\<close> are shown to suffice for a chain of \<open>n\<close>.  Retry loops of compare-and-exchange and spinning are steps of
  a relation, with spurious failures allowed; theorems on their end use ranks or say which steps must
  happen.

  \<^bold>\<open>Assumptions on code outside the library.\<close>  Executors answer a schedule call with accepted, refused or
  an exception; where a theorem needs one of these answers it is a hypothesis.  The jump between stacks
  resumes the context it is given.  User allocators, the Linux AIO calls and the affinity calls are
  parameters, and so are the file system of the demos (a partial map from paths to contents) and the
  pieces in which the network delivers bytes.

  \<^bold>\<open>Not modelled.\<close>  Weak memory orders, but for the store buffer of SignalRace\_Model; compile-time type computations and concepts (Traits.h,
  coro/Traits.h, Unit.h), macros, the substitute for the standard coroutine header
  (experimental/coroutine.h), address-sanitizer annotations, the assembler of the context switches, and
  output to the console: they have no run-time behaviour to state here or are not C++ of the library.
  The interface IOExecutor.h has only pure virtual functions.  Tests and benchmarks are outside.  Of the
  demos, not modelled are the vendored asio, accepting and shutting down sockets, SSL, timers of asio, the
  blocking and multi-core variants of the modelled servers and clients, and pmr\_lazy.cpp: they are calls into asio
  and the console, or repeat modelled code.
  The wrappers in coro/Collect.h that only forward
  their arguments to an awaiter (\<open>SimpleCollectAllAwaitable\<close> and its like) have no definition of their own.

  \<^bold>\<open>What the theorems found.\<close>  Some theorems state behaviour the code should not have: the 8-bit
  reference counter wraps (\<open>attached_wraps\<close>), a task can be accepted and lost at shutdown
  (\<open>accepted_task_lost\<close>), \<open>wait\<close> after \<open>forceSched\<close> uses a null executor (\<open>wait_after_forceSched\<close>), and a uthread
  that awaits a throwing coroutine is never resumed (\<open>await_exception_hangs\<close>); an attachment of some kilobytes loses its end
  (\<open>attachment_rows\<close>).
\<close>

section \<open>Collecting coroutines\<close>

text \<open>
  The result a coroutine with body \<open>p\<close> hands to the callback that \<open>start\<close> was given, as the coroutine
  machine computes it.
\<close>

definition lazy_try :: "lazy_env \<Rightarrow> local_store \<Rightarrow> 'v prog \<Rightarrow> 'v Try_t" where
  "lazy_try env L p =
     (case get_return_object p (machine_new L) of
        (lazy, m) \<Rightarrow>
          (case Lazy_Model.start env False lazy m of
             (Inl _, _) \<Rightarrow> Nothing
           | (Inr _, m1) \<Rightarrow>
               (case drive env m1 of
                  None \<Rightarrow> Nothing | Some m2 \<Rightarrow> (case delivered m2 of t # _ \<Rightarrow> t | [] \<Rightarrow> Nothing))))"

text \<open>What the body means.\<close>

definition body_try :: "lazy_env \<Rightarrow> local_store \<Rightarrow> 'v prog \<Rightarrow> 'v Try_t" where
  "body_try env L p = try_of (fst (eval env p None \<lparr>sp_ex = None, sp_locals = L, sp_attempts = 0\<rparr>))"

lemma lazy_try_eval:
  assumes "\<And>i. accepts env By_yield i"
  shows "lazy_try env L p = body_try env L p"
proof -
  obtain r st where r: "eval env p None \<lparr>sp_ex = None, sp_locals = L, sp_attempts = 0\<rparr> = (r, st)" by fastforce
  obtain m1 m2 where "Lazy_Model.start env False (fst (get_return_object p (machine_new L))) (snd (get_return_object p (machine_new L))) = (ok (), m1)"
      "drive env m1 = Some m2" "delivered m2 = [try_of r]"
    using start_delivers[OF assms r] by blast
  then show ?thesis using r by (simp add: lazy_try_def body_try_def case_prod_unfold)
qed

text \<open>
  One \<open>collectAll\<close> over coroutines with the bodies \<open>ps\<close>: some complete run of its awaiter resumes the
  caller with \<open>outs\<close>.
\<close>

definition collected ::
  "lazy_env \<Rightarrow> local_store \<Rightarrow> bool \<Rightarrow> nat option \<Rightarrow> nat \<Rightarrow> 'v prog list \<Rightarrow> 'v Try_t list \<Rightarrow> bool" where
  "collected env L para ex h ps outs \<longleftrightarrow>
     (\<exists>n t. steps ca_step n (CollectAllAwaiter_new para ex (replicate (length ps) None) h (map (lazy_try env L) ps)) t
        \<and> (\<forall>u. \<not> ca_step t u) \<and> ca_resumed t = [outs])"

lemma ca_step_vals: "ca_step s t \<Longrightarrow> ca_vals t = ca_vals s"
  by (erule ca_step.cases) (auto simp: ca_loop_def ca_input_def Let_def split: if_splits input_pc.splits prod.splits)

lemma ca_steps_vals: "steps ca_step n s t \<Longrightarrow> ca_vals t = ca_vals s"
  by (induction n arbitrary: s) (auto dest: ca_step_vals)

lemma collected_iff:
  assumes "\<And>i. accepts env By_yield i" and "ps \<noteq> []" and "length ps < 2 ^ 64"
  shows "collected env L para ex h ps outs \<longleftrightarrow> outs = map (body_try env L) ps"
proof -
  let ?s = "CollectAllAwaiter_new para ex (replicate (length ps) None) h (map (lazy_try env L) ps)"
  have "ca_init ?s" using assms(2,3) unfolding ca_init_def by (intro exI[of _ "map (lazy_try env L) ps"] exI conjI) auto
  then have inv: "ca_inv ?s" by (rule ca.init_inv)
  have v: "ca_vals ?s = map (body_try env L) ps" by (simp add: CollectAllAwaiter_new_def lazy_try_eval[OF assms(1)])
  have "ca_resumed t = [map (body_try env L) ps]" if "steps ca_step n ?s t" "\<forall>u. \<not> ca_step t u" for n t
    using ca_stuck(1)[OF ca.steps_inv[OF inv that(1)] that(2)] ca_steps_vals[OF that(1)] v by simp
  then show ?thesis unfolding collected_def using ca.run_to_end[OF inv] by fastforce
qed

lemma windowed_loop_cong:
  assumes "\<And>b. b \<noteq> [] \<Longrightarrow> length b \<le> length input \<Longrightarrow> f b = g b"
  shows "windowed_loop f m yld input i = windowed_loop g m yld input i"
proof (induction "length input - i" arbitrary: i rule: less_induct)
  case less
  show ?case
  proof (cases "length input \<le> i \<or> m = 0")
    case True
    then show ?thesis by (simp add: windowed_loop.simps)
  next
    case False
    let ?e = "min (length input) (i + m)"
    let ?b = "take (?e - i) (drop i input)"
    have "windowed_loop f m yld input ?e = windowed_loop g m yld input ?e" using False by (intro less) auto
    moreover have "f ?b = g ?b" using False by (intro assms) (auto simp: min_def)
    ultimately show ?thesis using False by (subst (1 2) windowed_loop.simps) (simp add: Let_def)
  qed
qed



end
